theory Spec2Isabelle
  imports Complex_Main
begin

section \<open>Vectors and quaternions\<close>

text \<open>
  The dice code works on JavaScript numbers. Coordinates, velocities and quaternion
  components are modelled as real numbers (rounding, NaN and infinities of IEEE doubles
  are abstracted away); face values, counters and millisecond times are integers.
\<close>

record vec3 =
  vx :: real
  vy :: real
  vz :: real

record quat =
  qx :: real
  qy :: real
  qz :: real
  qw :: real

definition Vector3 :: "real \<Rightarrow> real \<Rightarrow> real \<Rightarrow> vec3" where
  "Vector3 x y z = \<lparr>vx = x, vy = y, vz = z\<rparr>"

definition Quaternion :: "real \<Rightarrow> real \<Rightarrow> real \<Rightarrow> real \<Rightarrow> quat" where
  "Quaternion x y z w = \<lparr>qx = x, qy = y, qz = z, qw = w\<rparr>"

text \<open>
  \<^verbatim>\<open>Vector3.dot\<close>, \<^verbatim>\<open>Vector3.distanceTo\<close> and \<^verbatim>\<open>Vector3.applyQuaternion\<close>
  belong to the three.js library, which the repository imports. They are written out
  here after the library: \<^verbatim>\<open>applyQuaternion\<close> computes
  \<^verbatim>\<open>t = 2 * cross(q.xyz, v); v + q.w * t + cross(q.xyz, t)\<close> and, as the library
  documents, assumes that the quaternion has unit length; it does not normalise.
\<close>

definition dot :: "vec3 \<Rightarrow> vec3 \<Rightarrow> real" where
  "dot a b = vx a * vx b + vy a * vy b + vz a * vz b"

definition distanceTo :: "vec3 \<Rightarrow> vec3 \<Rightarrow> real" where
  "distanceTo a b = sqrt ((vx a - vx b)\<^sup>2 + (vy a - vy b)\<^sup>2 + (vz a - vz b)\<^sup>2)"

definition applyQuaternion :: "vec3 \<Rightarrow> quat \<Rightarrow> vec3" where
  "applyQuaternion v q =
     (let tx = 2 * (qy q * vz v - qz q * vy v);
          ty = 2 * (qz q * vx v - qx q * vz v);
          tz = 2 * (qx q * vy v - qy q * vx v)
      in \<lparr>vx = vx v + qw q * tx + qy q * tz - qz q * ty,
          vy = vy v + qw q * ty + qz q * tx - qx q * tz,
          vz = vz v + qw q * tz + qx q * ty - qy q * tx\<rparr>)"

section \<open>Reading the face value off a rotation\<close>

text \<open>
  \<^verbatim>\<open>getDiceValueFromRotation\<close> (Dice.tsx and Points.tsx hold the same text). The
  six face normals of the die in its local frame with their values, in the order of the
  source array.
\<close>

record face =
  normal :: vec3
  fvalue :: int

definition faces :: "face list" where
  "faces =
    [\<lparr>normal = Vector3 0 0 1, fvalue = 1\<rparr>,
     \<lparr>normal = Vector3 1 0 0, fvalue = 2\<rparr>,
     \<lparr>normal = Vector3 0 1 0, fvalue = 3\<rparr>,
     \<lparr>normal = Vector3 0 0 (-1), fvalue = 4\<rparr>,
     \<lparr>normal = Vector3 (-1) 0 0, fvalue = 5\<rparr>,
     \<lparr>normal = Vector3 0 (-1) 0, fvalue = 6\<rparr>]"

definition worldUp :: vec3 where
  "worldUp = Vector3 0 1 0"

text \<open>The alignment of one face: its rotated normal against the world up axis.\<close>

definition alignment :: "quat \<Rightarrow> face \<Rightarrow> real" where
  "alignment q f = dot (applyQuaternion (normal f) q) worldUp"

text \<open>
  The loop state is the pair \<^verbatim>\<open>(maxAlignment, upFaceValue)\<close>. \<^verbatim>\<open>maxAlignment\<close>
  starts at \<^verbatim>\<open>-Infinity\<close>, which is \<open>None\<close> here: every real alignment exceeds it.
\<close>

definition faceStep :: "quat \<Rightarrow> real option \<times> int \<Rightarrow> face \<Rightarrow> real option \<times> int" where
  "faceStep q acc f =
     (let a = alignment q f
      in case fst acc of
           None \<Rightarrow> (Some a, fvalue f)
         | Some m \<Rightarrow> if a > m then (Some a, fvalue f) else acc)"

definition getDiceValueFromRotation :: "quat \<Rightarrow> int" where
  "getDiceValueFromRotation q = snd (foldl (faceStep q) (None, 1) faces)"

text \<open>
  The six axis-aligned orientations: the identity leaves the Y+ face up; half a turn
  about X brings Y- up; quarter turns about X bring Z+ or Z- up; quarter turns about Z
  bring X+ or X- up.
\<close>

definition rotY_up :: quat where
  "rotY_up = Quaternion 0 0 0 1"

definition rotYneg_up :: quat where
  "rotYneg_up = Quaternion 1 0 0 0"

definition rotZ_up :: quat where
  "rotZ_up = Quaternion (- (sqrt 2 / 2)) 0 0 (sqrt 2 / 2)"

definition rotZneg_up :: quat where
  "rotZneg_up = Quaternion (sqrt 2 / 2) 0 0 (sqrt 2 / 2)"

definition rotX_up :: quat where
  "rotX_up = Quaternion 0 0 (sqrt 2 / 2) (sqrt 2 / 2)"

definition rotXneg_up :: quat where
  "rotXneg_up = Quaternion 0 0 (- (sqrt 2 / 2)) (sqrt 2 / 2)"

text \<open>Scaling a quaternion, its length, and the unit quaternion of the same rotation
  (the library's \<^verbatim>\<open>normalize\<close>: a quaternion of length zero becomes the identity).\<close>

definition qscale :: "real \<Rightarrow> quat \<Rightarrow> quat" where
  "qscale s q = \<lparr>qx = s * qx q, qy = s * qy q, qz = s * qz q, qw = s * qw q\<rparr>"

definition qlength :: "quat \<Rightarrow> real" where
  "qlength q = sqrt ((qx q)\<^sup>2 + (qy q)\<^sup>2 + (qz q)\<^sup>2 + (qw q)\<^sup>2)"

definition qnormalize :: "quat \<Rightarrow> quat" where
  "qnormalize q =
     (let l = qlength q
      in if l = 0 then Quaternion 0 0 0 1 else qscale (1 / l) q)"

section \<open>Timers\<close>

text \<open>
  \<^verbatim>\<open>setTimeout\<close>, \<^verbatim>\<open>setInterval\<close>, \<^verbatim>\<open>clearTimeout\<close> and \<^verbatim>\<open>clearInterval\<close>
  act on the browser's table of pending timers. A pending timer has the identifier that
  \<^verbatim>\<open>setTimeout\<close> returned, the virtual time in milliseconds at which it is due, its
  period when it is an interval, and the closure to run, named by a constructor of
  \<open>callback\<close> (the argument is the \<^verbatim>\<open>index\<close> prop of the die that created it).
  Identifiers start at 1, as in a browser, so that a stored identifier is truthy.
\<close>

datatype callback =
    RollingClearCb
  | CompletionCb
  | StartCb nat
  | StabilityCb nat
  | DampingCb nat
  | CheckCb nat
  | ForceLockCb nat

record timer =
  tid :: nat
  due :: nat
  period :: "nat option"
  cb :: callback

record timer_table =
  pending :: "timer list"
  nextId :: nat

definition setTimeout :: "callback \<Rightarrow> nat \<Rightarrow> nat \<Rightarrow> timer_table \<Rightarrow> nat \<times> timer_table" where
  "setTimeout c delay now tt =
     (nextId tt,
      tt\<lparr>pending := pending tt @ [\<lparr>tid = nextId tt, due = now + delay, period = None, cb = c\<rparr>],
         nextId := nextId tt + 1\<rparr>)"

definition setInterval :: "callback \<Rightarrow> nat \<Rightarrow> nat \<Rightarrow> timer_table \<Rightarrow> nat \<times> timer_table" where
  "setInterval c delay now tt =
     (nextId tt,
      tt\<lparr>pending := pending tt @ [\<lparr>tid = nextId tt, due = now + delay, period = Some delay, cb = c\<rparr>],
         nextId := nextId tt + 1\<rparr>)"

definition clearTimer :: "nat \<Rightarrow> timer_table \<Rightarrow> timer_table" where
  "clearTimer i tt = tt\<lparr>pending := filter (\<lambda>t. tid t \<noteq> i) (pending tt)\<rparr>"

text \<open>\<^verbatim>\<open>if (ref.current) clearTimeout(ref.current)\<close> for a ref that holds an identifier or null.\<close>

definition clearRef :: "nat option \<Rightarrow> timer_table \<Rightarrow> timer_table" where
  "clearRef r tt = (case r of None \<Rightarrow> tt | Some i \<Rightarrow> clearTimer i tt)"

section \<open>One die: the PhysicsDice component\<close>

text \<open>
  The handle of the physics engine (\<^verbatim>\<open>RapierRigidBody\<close>): what the component reads
  from it and what it sets on it. The engine moves the body between two callbacks; it is
  not modelled, the fields simply hold the values of the current tick.
  \<open>bodyType\<close> is 0 for a dynamic and 2 for a fixed body.
\<close>

record rigid_body =
  translation :: vec3
  rotation :: quat
  linvel :: vec3
  angvel :: vec3
  bodyType :: nat
  linearDamping :: real
  angularDamping :: real
  torqueImpulses :: "vec3 list"

text \<open>
  The props and refs of one component instance (Dice.tsx). \<open>diceRef\<close> is \<open>None\<close> while
  \<^verbatim>\<open>diceRef.current\<close> is null; \<open>hasOnStable\<close> says whether the optional
  \<^verbatim>\<open>onStable\<close> prop was passed.
\<close>

record dice =
  position :: vec3
  index :: nat
  startDelay :: nat
  hasOnStable :: bool
  diceRef :: "rigid_body option"
  isResetting :: bool
  currentDamping :: real
  isLocked :: bool
  finalValue :: int
  timerRef :: "nat option"
  lastResetCount :: nat
  stabilityTimerRef :: "nat option"
  gradualDampingRef :: "nat option"
  stabilityCheckRef :: "nat option"
  positionHistory :: "(vec3 \<times> nat) list"

text \<open>
  \<^verbatim>\<open>lockDicePhysics\<close>. The second component of the result lists the calls
  \<^verbatim>\<open>onStable(index, value)\<close> that were made, in order.
\<close>

definition lockDicePhysics :: "dice \<Rightarrow> dice \<times> (nat \<times> int) list" where
  "lockDicePhysics d =
     (case diceRef d of
        None \<Rightarrow> (d, [])
      | Some rb \<Rightarrow>
          if isLocked d then (d, [])
          else
            let v = getDiceValueFromRotation (rotation rb);
                rb' = rb\<lparr>bodyType := 2, linvel := Vector3 0 0 0, angvel := Vector3 0 0 0\<rparr>;
                d' = d\<lparr>finalValue := v, diceRef := Some rb', isLocked := True\<rparr>
            in (d', if hasOnStable d then [(index d, v)] else []))"

text \<open>
  The loop \<^verbatim>\<open>for (let i = 1; i < 5; i++)\<close> of \<^verbatim>\<open>checkStability\<close> over the recorded
  positions: it leaves with \<^verbatim>\<open>isStable = false\<close> at the first pair that moved by more
  than 0.0001. It runs only when the history holds at least 5 entries, so both indices
  are in range.
\<close>

function stableLoop :: "(vec3 \<times> nat) list \<Rightarrow> nat \<Rightarrow> bool" where
  "stableLoop h i =
     (if i < 5 then
        (let prev = h ! (length h - i - 1);
             curr = h ! (length h - i)
         in if distanceTo (fst prev) (fst curr) > 0.0001 then False
            else stableLoop h (i + 1))
      else True)"
  by pat_completeness auto
termination
  by (relation "measure (\<lambda>(h, i). 5 - i)") auto

declare stableLoop.simps [simp del]

definition magnitude :: "vec3 \<Rightarrow> real" where
  "magnitude v = sqrt ((vx v)\<^sup>2 + (vy v)\<^sup>2 + (vz v)\<^sup>2)"

text \<open>\<^verbatim>\<open>checkStability\<close>; \<open>now\<close> is the value of \<^verbatim>\<open>Date.now()\<close>.\<close>

definition checkStability :: "nat \<Rightarrow> dice \<Rightarrow> dice \<times> (nat \<times> int) list" where
  "checkStability now d =
     (case diceRef d of
        None \<Rightarrow> (d, [])
      | Some rb \<Rightarrow>
          if isLocked d then (d, [])
          else
            let h1 = positionHistory d @ [(translation rb, now)];
                h2 = (if length h1 > 10 then tl h1 else h1);
                d1 = d\<lparr>positionHistory := h2\<rparr>
            in if length h2 \<ge> 5 then
                 (let isStable = stableLoop h2 1;
                      isStable' =
                        (if isStable then
                           \<not> (magnitude (linvel rb) > 0.005 \<or> magnitude (angvel rb) > 0.005)
                         else False)
                  in if isStable' then lockDicePhysics d1 else (d1, []))
               else (d1, []))"

text \<open>
  The body of the effect that runs when \<^verbatim>\<open>resetCount\<close> (or another dependency)
  changes, up to the point where it schedules the start timer.
\<close>

definition resetEffect :: "nat \<Rightarrow> nat \<Rightarrow> dice \<times> timer_table \<Rightarrow> dice \<times> timer_table" where
  "resetEffect rc now s =
     (let d = fst s; tt = snd s
      in if rc > 0 \<and> rc \<noteq> lastResetCount d then
           (let tt1 = clearRef (timerRef d) tt;
                tt2 = clearRef (stabilityTimerRef d) tt1;
                tt3 = clearRef (gradualDampingRef d) tt2;
                tt4 = clearRef (stabilityCheckRef d) tt3;
                r = setTimeout (StartCb (index d)) (startDelay d) now tt4
            in (d\<lparr>lastResetCount := rc,
                   timerRef := Some (fst r),
                   stabilityTimerRef := None,
                   gradualDampingRef := None,
                   stabilityCheckRef := None,
                   positionHistory := [],
                   isResetting := True,
                   currentDamping := 0.5,
                   isLocked := False,
                   finalValue := 1\<rparr>, snd r))
         else (d, tt))"

text \<open>The cleanup function the effect returns: it cancels the four timers held in refs
  and leaves the refs as they are.\<close>

definition effectCleanup :: "dice \<times> timer_table \<Rightarrow> dice \<times> timer_table" where
  "effectCleanup s =
     (let d = fst s; tt = snd s
      in (d, clearRef (stabilityCheckRef d)
               (clearRef (gradualDampingRef d)
                 (clearRef (stabilityTimerRef d)
                   (clearRef (timerRef d) tt)))))"

text \<open>
  The random draws of one respawn: the two position jitters \<^verbatim>\<open>Math.random()\<close>, the
  quaternion that \<^verbatim>\<open>setFromEuler\<close> makes of three random Euler angles, and the random
  torque impulse.
\<close>

record spawn =
  jitterX :: real
  jitterZ :: real
  spawnRotation :: quat
  torque :: vec3

text \<open>The callback of the start timer (\<^verbatim>\<open>startDelay\<close> after the reset).\<close>

definition startCb :: "nat \<Rightarrow> spawn \<Rightarrow> dice \<times> timer_table \<Rightarrow> dice \<times> timer_table" where
  "startCb now rnd s =
     (let d = fst s; tt = snd s;
          s1 = (case diceRef d of
                  None \<Rightarrow> (d, tt)
                | Some rb \<Rightarrow>
                    let rb' = rb\<lparr>bodyType := 0,
                                translation :=
                                  \<lparr>vx = vx (position d) + (jitterX rnd - 0.5) * 0.05,
                                   vy = vy (position d),
                                   vz = vz (position d) + (jitterZ rnd - 0.5) * 0.05\<rparr>,
                                rotation := spawnRotation rnd,
                                linvel := Vector3 0 0 0,
                                angvel := Vector3 0 0 0,
                                linearDamping := currentDamping d,
                                angularDamping := currentDamping d,
                                torqueImpulses := torqueImpulses rb @ [torque rnd]\<rparr>;
                        r1 = setTimeout (StabilityCb (index d)) 1500 now tt;
                        r2 = setTimeout (ForceLockCb (index d)) 3000 now (snd r1)
                    in (d\<lparr>diceRef := Some rb', stabilityTimerRef := Some (fst r1)\<rparr>, snd r2))
      in ((fst s1)\<lparr>timerRef := None\<rparr>, snd s1))"

text \<open>The callback that runs 1500 ms later and starts the two intervals.\<close>

definition stabilityCb :: "nat \<Rightarrow> dice \<times> timer_table \<Rightarrow> dice \<times> timer_table" where
  "stabilityCb now s =
     (let d = fst s; tt = snd s;
          s1 = (case diceRef d of
                  None \<Rightarrow> (d, tt)
                | Some rb \<Rightarrow>
                    let r1 = setInterval (DampingCb (index d)) 100 now tt;
                        r2 = setInterval (CheckCb (index d)) 100 now (snd r1)
                    in (d\<lparr>gradualDampingRef := Some (fst r1),
                           stabilityCheckRef := Some (fst r2)\<rparr>, snd r2))
      in ((fst s1)\<lparr>stabilityTimerRef := None\<rparr>, snd s1))"

text \<open>One tick of the damping interval.\<close>

definition dampingCb :: "dice \<times> timer_table \<Rightarrow> dice \<times> timer_table" where
  "dampingCb s =
     (let d = fst s; tt = snd s
      in case diceRef d of
           None \<Rightarrow> (d, tt)
         | Some rb \<Rightarrow>
             if currentDamping d < 20 \<and> \<not> isLocked d then
               (let c = currentDamping d + 0.5;
                    rb' = rb\<lparr>linearDamping := c, angularDamping := c\<rparr>;
                    d1 = d\<lparr>currentDamping := c, diceRef := Some rb'\<rparr>
                in if c \<ge> 20 then
                     (d1\<lparr>gradualDampingRef := None, isResetting := False\<rparr>,
                      clearRef (gradualDampingRef d1) tt)
                   else (d1, tt))
             else (d, tt))"

text \<open>The callback of the anonymous 3000 ms timer: the forced lock.\<close>

definition forceLockCb :: "dice \<Rightarrow> dice \<times> (nat \<times> int) list" where
  "forceLockCb d =
     (if \<not> isLocked d \<and> diceRef d \<noteq> None then lockDicePhysics d else (d, []))"

section \<open>The container: DiceContainer\<close>

text \<open>
  \<^verbatim>\<open>diceValues\<close> is a JavaScript array that is written by index, so it can have
  holes; spreading it (\<^verbatim>\<open>[...prev]\<close>) turns a hole into \<^verbatim>\<open>undefined\<close>.
  \<^verbatim>\<open>reduce\<close> skips holes, and adding \<^verbatim>\<open>undefined\<close> to a number gives NaN.
\<close>

datatype slot = Hole | Undefined | Val int

datatype jsnum = NaN | Num int

definition diceCount :: nat where
  "diceCount = 5"

text \<open>
  The state and refs of the container. \<open>needsRender\<close> is set by every call of a state
  setter: React renders the component again after the running handler has returned.
\<close>

record container =
  resetCount :: nat
  isRolling :: bool
  resetTimerRef :: "nat option"
  stableDiceCount :: nat
  hasCalculatedPoints :: bool
  diceValues :: "slot list"
  totalPoints :: jsnum
  needsRender :: bool

definition spread :: "slot list \<Rightarrow> slot list" where
  "spread xs = map (\<lambda>s. case s of Hole \<Rightarrow> Undefined | Undefined \<Rightarrow> Undefined | Val v \<Rightarrow> Val v) xs"

text \<open>\<^verbatim>\<open>xs[i] = v\<close>: past the end, JavaScript extends the array and leaves holes.\<close>

definition assignIndex :: "slot list \<Rightarrow> nat \<Rightarrow> int \<Rightarrow> slot list" where
  "assignIndex xs i v =
     (if i < length xs then xs[i := Val v]
      else xs @ replicate (i - length xs) Hole @ [Val v])"

definition addSlot :: "jsnum \<Rightarrow> slot \<Rightarrow> jsnum" where
  "addSlot acc s =
     (case s of
        Hole \<Rightarrow> acc
      | Undefined \<Rightarrow> NaN
      | Val v \<Rightarrow> (case acc of NaN \<Rightarrow> NaN | Num a \<Rightarrow> Num (a + v)))"

text \<open>\<^verbatim>\<open>prev.reduce((acc, val) => acc + val, 0)\<close>\<close>

definition reduceSum :: "slot list \<Rightarrow> jsnum" where
  "reduceSum xs = foldl addSlot (Num 0) xs"

text \<open>\<^verbatim>\<open>handleDiceStable(index, value)\<close>, called at time \<open>now\<close>.\<close>

definition handleDiceStable ::
  "nat \<Rightarrow> nat \<Rightarrow> int \<Rightarrow> container \<times> timer_table \<Rightarrow> container \<times> timer_table" where
  "handleDiceStable now idx v s =
     (let c = fst s; tt = snd s;
          c1 = c\<lparr>stableDiceCount := stableDiceCount c + 1\<rparr>;
          c2 = c1\<lparr>diceValues := assignIndex (spread (diceValues c1)) idx v,
                  needsRender := True\<rparr>
      in if stableDiceCount c2 = diceCount \<and> \<not> hasCalculatedPoints c2 then
           (let r = setTimeout CompletionCb 100 now tt
            in (c2\<lparr>hasCalculatedPoints := True\<rparr>, snd r))
         else (c2, tt))"

text \<open>The callback of the 100 ms timer of \<^verbatim>\<open>handleDiceStable\<close>: the total.\<close>

definition completionCb :: "container \<Rightarrow> container" where
  "completionCb c = c\<lparr>totalPoints := reduceSum (diceValues c), needsRender := True\<rparr>"

text \<open>\<^verbatim>\<open>handleReset\<close>, the click handler of the button, called at time \<open>now\<close>.\<close>

definition handleReset :: "nat \<Rightarrow> container \<times> timer_table \<Rightarrow> container \<times> timer_table" where
  "handleReset now s =
     (let c = fst s; tt = snd s
      in if \<not> isRolling c then
           (let tt1 = clearRef (resetTimerRef c) tt;
                c1 = c\<lparr>resetTimerRef := None,
                       stableDiceCount := 0,
                       hasCalculatedPoints := False,
                       diceValues := [],
                       totalPoints := Num 0,
                       isRolling := True,
                       resetCount := resetCount c + 1,
                       needsRender := True\<rparr>;
                r = setTimeout RollingClearCb 4000 now tt1
            in (c1\<lparr>resetTimerRef := Some (fst r)\<rparr>, snd r))
         else (c, tt))"

text \<open>
  The value of a call of \<^verbatim>\<open>handleReset\<close>. The body of the function has no
  \<^verbatim>\<open>return\<close> statement, neither in the branch that accepts the roll nor after it, so
  the call evaluates to \<^verbatim>\<open>undefined\<close>, which is \<open>None\<close> here; \<open>Some b\<close> would be a
  returned boolean.
\<close>

definition handleResetResult :: "nat \<Rightarrow> container \<times> timer_table \<Rightarrow> bool option" where
  "handleResetResult now s = (if \<not> isRolling (fst s) then None else None)"

text \<open>The callback of the 4000 ms timer of \<^verbatim>\<open>handleReset\<close>.\<close>

definition rollingClearCb :: "container \<Rightarrow> container" where
  "rollingClearCb c = c\<lparr>isRolling := False, resetTimerRef := None, needsRender := True\<rparr>"

text \<open>
  What the container shows below the total when it is not rolling:
  \<^verbatim>\<open>diceValues.filter(v => v > 0)\<close>, joined with plus signs.
\<close>

definition shownValues :: "container \<Rightarrow> int list" where
  "shownValues c = concat (map (\<lambda>s. case s of Val v \<Rightarrow> (if v > 0 then [v] else []) | _ \<Rightarrow> []) (diceValues c))"

section \<open>The Points component\<close>

record points =
  pointsTotal :: int
  pointsValues :: "int list"

text \<open>The loop \<^verbatim>\<open>diceRefs.current.forEach\<close> of Points.tsx over the handles, null ones
  skipped; the state is the pair \<^verbatim>\<open>(values, sum)\<close>.\<close>

definition readDie :: "int list \<times> int \<Rightarrow> rigid_body option \<Rightarrow> int list \<times> int" where
  "readDie acc dice =
     (case dice of
        None \<Rightarrow> acc
      | Some rb \<Rightarrow>
          let v = getDiceValueFromRotation (rotation rb)
          in (fst acc @ [v], snd acc + v))"

definition pointsUpdate :: "nat \<Rightarrow> bool \<Rightarrow> rigid_body option list \<Rightarrow> points \<Rightarrow> points" where
  "pointsUpdate updateTrigger rolling diceRefs p =
     (if updateTrigger > 0 \<and> \<not> rolling then
        (let r = foldl readDie ([], 0) diceRefs
         in p\<lparr>pointsValues := fst r, pointsTotal := snd r\<rparr>)
      else p)"

definition pointsReset :: "nat \<Rightarrow> points \<Rightarrow> points" where
  "pointsReset rc p = (if rc > 0 then p\<lparr>pointsTotal := 0, pointsValues := []\<rparr> else p)"

section \<open>Driving one component by hand\<close>

text \<open>
  A kinematic sample: the position, linear and angular velocity that the engine reports
  at a tick, and the time of the tick. \<open>observe\<close> lets the engine write the sample into
  the handle and then runs the stability check.
\<close>

record sample =
  samplePos :: vec3
  sampleLinvel :: vec3
  sampleAngvel :: vec3
  sampleTime :: nat

definition withSample :: "sample \<Rightarrow> dice \<Rightarrow> dice" where
  "withSample sm d =
     d\<lparr>diceRef := map_option
          (\<lambda>rb. rb\<lparr>translation := samplePos sm, linvel := sampleLinvel sm, angvel := sampleAngvel sm\<rparr>)
          (diceRef d)\<rparr>"

definition observe :: "dice \<Rightarrow> sample \<Rightarrow> dice" where
  "observe d sm = fst (checkStability (sampleTime sm) (withSample sm d))"

text \<open>The displacement between the k-th and the (k+1)-th most recent recorded position.\<close>

definition recentStep :: "(vec3 \<times> nat) list \<Rightarrow> nat \<Rightarrow> real" where
  "recentStep h k = distanceTo (fst (h ! (length h - k - 2))) (fst (h ! (length h - k - 1)))"

text \<open>
  What can happen to one die during a roll: the engine moves the body, the check
  interval ticks, the damping interval ticks, the forced timeout expires, or
  \<^verbatim>\<open>lockDicePhysics\<close> is called directly. \<open>bodyRun\<close> collects the \<^verbatim>\<open>onStable\<close> calls.
\<close>

datatype body_event =
    Moves "rigid_body \<Rightarrow> rigid_body"
  | CheckTick nat
  | DampingTick
  | ForcedTimeout
  | Freeze

fun bodyStep :: "dice \<times> timer_table \<Rightarrow> body_event \<Rightarrow> (dice \<times> timer_table) \<times> (nat \<times> int) list" where
  "bodyStep (d, tt) (Moves f) = ((d\<lparr>diceRef := map_option f (diceRef d)\<rparr>, tt), [])"
| "bodyStep (d, tt) (CheckTick now) = (let r = checkStability now d in ((fst r, tt), snd r))"
| "bodyStep (d, tt) DampingTick = (dampingCb (d, tt), [])"
| "bodyStep (d, tt) ForcedTimeout = (let r = forceLockCb d in ((fst r, tt), snd r))"
| "bodyStep (d, tt) Freeze = (let r = lockDicePhysics d in ((fst r, tt), snd r))"

fun bodyRun :: "dice \<times> timer_table \<Rightarrow> body_event list \<Rightarrow> (dice \<times> timer_table) \<times> (nat \<times> int) list" where
  "bodyRun s [] = (s, [])"
| "bodyRun s (e # es) =
     (let r1 = bodyStep s e; r2 = bodyRun (fst r1) es in (fst r2, snd r1 @ snd r2))"

section \<open>Driving the container by hand\<close>

text \<open>
  A session of the container: \<^verbatim>\<open>settled\<close> notifications arrive (time, index, value)
  and the pending completion timer may fire. The counter tells how often the completion
  callback has run.
\<close>

datatype coord_event = Settled nat nat int | CompletionFires

definition completionTimers :: "timer_table \<Rightarrow> timer list" where
  "completionTimers tt = filter (\<lambda>t. cb t = CompletionCb) (pending tt)"

fun coordStep :: "(container \<times> timer_table) \<times> nat \<Rightarrow> coord_event \<Rightarrow> (container \<times> timer_table) \<times> nat" where
  "coordStep (s, n) (Settled now i v) = (handleDiceStable now i v s, n)"
| "coordStep (s, n) CompletionFires =
     (case completionTimers (snd s) of
        [] \<Rightarrow> (s, n)
      | t # _ \<Rightarrow> ((completionCb (fst s), clearTimer (tid t) (snd s)), n + 1))"

definition coordRun :: "container \<times> timer_table \<Rightarrow> coord_event list \<Rightarrow> (container \<times> timer_table) \<times> nat" where
  "coordRun s es = foldl coordStep (s, 0) es"

definition isSettled :: "coord_event \<Rightarrow> bool" where
  "isSettled e = (case e of Settled _ _ _ \<Rightarrow> True | CompletionFires \<Rightarrow> False)"

definition settledIndex :: "coord_event \<Rightarrow> nat" where
  "settledIndex e = (case e of Settled _ i _ \<Rightarrow> i | CompletionFires \<Rightarrow> 0)"

text \<open>The state in which the page starts: nothing rolled yet, no timer pending.\<close>

definition initialContainer :: container where
  "initialContainer =
     \<lparr>resetCount = 0, isRolling = False, resetTimerRef = None, stableDiceCount = 0,
      hasCalculatedPoints = False, diceValues = [], totalPoints = Num 0, needsRender = False\<rparr>"

definition noTimers :: timer_table where
  "noTimers = \<lparr>pending = [], nextId = 1\<rparr>"

definition restingBody :: rigid_body where
  "restingBody =
     \<lparr>translation = Vector3 0 0 0, rotation = Quaternion 0 0 0 1, linvel = Vector3 0 0 0,
      angvel = Vector3 0 0 0, bodyType = 0, linearDamping = 0.5, angularDamping = 0.5,
      torqueImpulses = []\<rparr>"

text \<open>The i-th die as the container mounts it (\<^verbatim>\<open>calculateDicePosition\<close>, start delay 100).\<close>

definition calculateDicePosition :: "nat \<Rightarrow> vec3" where
  "calculateDicePosition i = Vector3 ((real i - (real diceCount - 1) / 2) * 1.0) 4.0 0"

definition initialDice :: "nat \<Rightarrow> dice" where
  "initialDice i =
     \<lparr>position = calculateDicePosition i, index = i, startDelay = 100, hasOnStable = True,
      diceRef = Some restingBody, isResetting = False, currentDamping = 0.5, isLocked = False,
      finalValue = 1, timerRef = None, lastResetCount = 0, stabilityTimerRef = None,
      gradualDampingRef = None, stabilityCheckRef = None, positionHistory = []\<rparr>"

section \<open>The page: container, dice and timers together\<close>

text \<open>
  The whole page at one moment of virtual time: the container, its five PhysicsDice
  children in the order of their \<^verbatim>\<open>index\<close> prop, and the browser's timer table.
  JavaScript runs one handler at a time; a handler is a click on the button or the
  callback of the pending timer that is due first. After a handler in which a state
  setter was called, React renders the container again. Every render passes a fresh
  \<^verbatim>\<open>position\<close> array to each die, so the reset effect of each die is run again: first
  the cleanup functions of the previous run, then the effect bodies with the current
  \<^verbatim>\<open>resetCount\<close>.
\<close>

record world =
  clock :: nat
  cont :: container
  dices :: "dice list"
  timers :: timer_table

text \<open>What the surroundings contribute to one handler: how the physics engine has moved
  the body of each die since the previous handler, and the random draws of a respawn.\<close>

record env =
  physics :: "nat \<Rightarrow> rigid_body \<Rightarrow> rigid_body"
  draws :: spawn

fun cleanupAll :: "dice list \<Rightarrow> timer_table \<Rightarrow> timer_table" where
  "cleanupAll [] tt = tt"
| "cleanupAll (d # ds) tt = cleanupAll ds (snd (effectCleanup (d, tt)))"

fun effectAll :: "nat \<Rightarrow> nat \<Rightarrow> dice list \<Rightarrow> timer_table \<Rightarrow> dice list \<times> timer_table" where
  "effectAll rc now [] tt = ([], tt)"
| "effectAll rc now (d # ds) tt =
     (let r = resetEffect rc now (d, tt);
          rs = effectAll rc now ds (snd r)
      in (fst r # fst rs, snd rs))"

definition render :: "world \<Rightarrow> world" where
  "render w =
     (let tt1 = cleanupAll (dices w) (timers w);
          r = effectAll (resetCount (cont w)) (clock w) (dices w) tt1
      in w\<lparr>cont := (cont w)\<lparr>needsRender := False\<rparr>, dices := fst r, timers := snd r\<rparr>)"

definition afterHandler :: "world \<Rightarrow> world" where
  "afterHandler w = (if needsRender (cont w) then render w else w)"

text \<open>A click on the button at the current time.\<close>

definition click :: "world \<Rightarrow> world" where
  "click w =
     (let s = handleReset (clock w) (cont w, timers w)
      in afterHandler (w\<lparr>cont := fst s, timers := snd s\<rparr>))"

text \<open>The pending timer that fires next: the one due first, and among those due at the
  same time the one created first.\<close>

definition earlier :: "timer \<Rightarrow> timer \<Rightarrow> timer" where
  "earlier b u = (if due u < due b then u else b)"

definition nextTimer :: "timer_table \<Rightarrow> timer option" where
  "nextTimer tt = (case pending tt of [] \<Rightarrow> None | t # ts \<Rightarrow> Some (foldl earlier t ts))"

text \<open>A timeout that fires leaves the table; an interval is due again one period later.\<close>

definition rearm :: "timer \<Rightarrow> timer_table \<Rightarrow> timer_table" where
  "rearm t tt =
     (case period t of
        None \<Rightarrow> tt\<lparr>pending := remove1 t (pending tt)\<rparr>
      | Some p \<Rightarrow> tt\<lparr>pending := map (\<lambda>u. if u = t then t\<lparr>due := due t + p\<rparr> else u) (pending tt)\<rparr>)"

text \<open>Running a callback of die \<open>i\<close> that works on the die and the timer table.\<close>

definition runDiceCb :: "(dice \<times> timer_table \<Rightarrow> dice \<times> timer_table) \<Rightarrow> nat \<Rightarrow> world \<Rightarrow> world" where
  "runDiceCb f i w =
     (if i < length (dices w) then
        (let r = f (dices w ! i, timers w)
         in w\<lparr>dices := (dices w)[i := fst r], timers := snd r\<rparr>)
      else w)"

text \<open>\<^verbatim>\<open>onStable\<close> is \<^verbatim>\<open>handleDiceStable\<close>: the calls a die makes reach the container at once.\<close>

definition notify :: "nat \<Rightarrow> (nat \<times> int) list \<Rightarrow> container \<times> timer_table \<Rightarrow> container \<times> timer_table" where
  "notify now ns s = foldl (\<lambda>s n. handleDiceStable now (fst n) (snd n) s) s ns"

definition runLockCb :: "(dice \<Rightarrow> dice \<times> (nat \<times> int) list) \<Rightarrow> nat \<Rightarrow> world \<Rightarrow> world" where
  "runLockCb f i w =
     (if i < length (dices w) then
        (let r = f (dices w ! i);
             s = notify (clock w) (snd r) (cont w, timers w)
         in w\<lparr>cont := fst s, dices := (dices w)[i := fst r], timers := snd s\<rparr>)
      else w)"

fun fire :: "spawn \<Rightarrow> callback \<Rightarrow> world \<Rightarrow> world" where
  "fire rnd RollingClearCb w = w\<lparr>cont := rollingClearCb (cont w)\<rparr>"
| "fire rnd CompletionCb w = w\<lparr>cont := completionCb (cont w)\<rparr>"
| "fire rnd (StartCb i) w = runDiceCb (startCb (clock w) rnd) i w"
| "fire rnd (StabilityCb i) w = runDiceCb (stabilityCb (clock w)) i w"
| "fire rnd (DampingCb i) w = runDiceCb dampingCb i w"
| "fire rnd (CheckCb i) w = runLockCb (checkStability (clock w)) i w"
| "fire rnd (ForceLockCb i) w = runLockCb forceLockCb i w"

definition moveBodies :: "(nat \<Rightarrow> rigid_body \<Rightarrow> rigid_body) \<Rightarrow> dice list \<Rightarrow> dice list" where
  "moveBodies f ds = map (\<lambda>d. d\<lparr>diceRef := map_option (f (index d)) (diceRef d)\<rparr>) ds"

text \<open>A timer is about to fire: time has moved on to its due time (never backwards), the
  engine has moved the bodies, and the timer has left the table or is armed again.\<close>

definition advance :: "timer \<Rightarrow> (nat \<Rightarrow> rigid_body \<Rightarrow> rigid_body) \<Rightarrow> world \<Rightarrow> world" where
  "advance t f w =
     w\<lparr>clock := max (clock w) (due t),
       dices := moveBodies f (dices w),
       timers := rearm t (timers w)\<rparr>"

text \<open>One turn of the event loop: the next timer fires, its callback runs, and React
  renders if a state setter was called; without a pending timer nothing happens.\<close>

definition step :: "world \<Rightarrow> env \<Rightarrow> world" where
  "step w e =
     (case nextTimer (timers w) of
        None \<Rightarrow> w
      | Some t \<Rightarrow> afterHandler (fire (draws e) (cb t) (advance t (physics e) w)))"

definition run :: "world \<Rightarrow> env list \<Rightarrow> world" where
  "run w es = foldl step w es"

text \<open>The page as it is mounted, at time 0.\<close>

definition initialWorld :: world where
  "initialWorld =
     \<lparr>clock = 0, cont = initialContainer, dices = map initialDice [0..<diceCount],
      timers = noTimers\<rparr>"

section \<open>Auxiliary definitions for the statements\<close>

text \<open>The history that \<^verbatim>\<open>checkStability\<close> holds after its push and its shift: the new
  entry is appended, and the oldest entry is dropped once there are more than 10.\<close>

definition pushed :: "dice \<Rightarrow> rigid_body \<Rightarrow> nat \<Rightarrow> (vec3 \<times> nat) list" where
  "pushed d rb now =
     (if length (positionHistory d) + 1 > 10
      then tl (positionHistory d @ [(translation rb, now)])
      else positionHistory d @ [(translation rb, now)])"

text \<open>A sample of a body at rest at a fixed place.\<close>

definition stillSample :: "nat \<Rightarrow> sample" where
  "stillSample t = \<lparr>samplePos = Vector3 1 2 3, sampleLinvel = Vector3 0 0 0,
                    sampleAngvel = Vector3 0 0 0, sampleTime = t\<rparr>"

text \<open>The invariant of a session: how the count, the one-shot flag, the pending
  completion timer and the number of completions that have run belong together.\<close>

definition sessionInv :: "(container \<times> timer_table) \<times> nat \<Rightarrow> nat \<Rightarrow> bool" where
  "sessionInv r n \<longleftrightarrow>
     stableDiceCount (fst (fst r)) = n
   \<and> (hasCalculatedPoints (fst (fst r)) \<longleftrightarrow> 5 \<le> n)
   \<and> snd r + length (completionTimers (snd (fst r))) = (if 5 \<le> n then 1 else 0)"

text \<open>The first die after \<^verbatim>\<open>lockDicePhysics\<close> has locked it.\<close>

definition lockedDice :: dice where
  "lockedDice = fst (lockDicePhysics (initialDice 0))"

text \<open>The first die in the middle of its first roll: reset with count 1 at time 0; its
  start timer has fired at 100, the 1500 ms timer at 1600, and the check interval has
  ticked once at 1700. Each timer that fires leaves the table or is armed again.\<close>

definition rollingDice :: "dice \<times> timer_table" where
  "rollingDice =
     (let s1 = resetEffect 1 0 (initialDice 0, noTimers);
          s2 = startCb 100 \<lparr>jitterX = 0.5, jitterZ = 0.5, spawnRotation = Quaternion 0 0 0 1,
                            torque = Vector3 0 0 0\<rparr>
                 (fst s1, rearm (hd (pending (snd s1))) (snd s1));
          s3 = stabilityCb 1600 (fst s2, rearm (hd (pending (snd s2))) (snd s2))
      in (fst (checkStability 1700 (fst s3)), rearm (last (pending (snd s3))) (snd s3)))"

text \<open>The number stored at an index of the values array, if there is one.\<close>

definition valAt :: "slot list \<Rightarrow> nat \<Rightarrow> int option" where
  "valAt xs j =
     (if j < length xs then (case xs ! j of Val v \<Rightarrow> Some v | _ \<Rightarrow> None) else None)"

text \<open>The notifications of the dice \<open>is\<close>, in that order, die \<open>i\<close> reporting \<open>vs ! i\<close> at
  time \<open>ts i\<close>.\<close>

definition settledAll :: "(nat \<Rightarrow> nat) \<Rightarrow> int list \<Rightarrow> nat list \<Rightarrow> coord_event list" where
  "settledAll ts vs is = map (\<lambda>i. Settled (ts i) i (vs ! i)) is"

text \<open>A body whose rotation is the given quaternion.\<close>

definition bodyWith :: "quat \<Rightarrow> rigid_body" where
  "bodyWith q = restingBody\<lparr>rotation := q\<rparr>"

text \<open>A die that drifts along the x axis: four positions recorded 0.00006 apart, the body
  now at \<open>x\<close>, moving with the linear velocity (0.003, 0.004, \<open>w\<close>) and turning with the
  angular velocity (0, 0, 0.005).\<close>

definition driftingDice :: "real \<Rightarrow> real \<Rightarrow> dice" where
  "driftingDice x w =
     (initialDice 0)
       \<lparr>diceRef := Some (restingBody\<lparr>translation := Vector3 x 4 0,
                                      linvel := Vector3 0.003 0.004 w,
                                      angvel := Vector3 0 0 0.005\<rparr>),
        positionHistory := [(Vector3 0 4 0, 1700), (Vector3 0.00006 4 0, 1800),
                            (Vector3 0.00012 4 0, 1900), (Vector3 0.00018 4 0, 2000)]\<rparr>"

section \<open>Invariants of a roll\<close>

text \<open>
  The following predicates describe the page during and after the roll that a click at
  time \<open>T\<close> has started. They are used to show that the forced lock of every die comes
  before the rolling flag is cleared.
\<close>

text \<open>The timer identifiers a die holds in its refs.\<close>

definition refIds :: "dice \<Rightarrow> nat set" where
  "refIds d =
     set_option (timerRef d) \<union> set_option (stabilityTimerRef d)
     \<union> set_option (gradualDampingRef d) \<union> set_option (stabilityCheckRef d)"

text \<open>The callbacks whose timers no die keeps in a ref.\<close>

definition anonymous :: "callback \<Rightarrow> bool" where
  "anonymous c =
     (case c of RollingClearCb \<Rightarrow> True | CompletionCb \<Rightarrow> True | ForceLockCb _ \<Rightarrow> True
      | _ \<Rightarrow> False)"

text \<open>When the timers of a roll started at \<open>T\<close> are due, by callback.\<close>

definition timerOK :: "nat \<Rightarrow> timer \<Rightarrow> bool" where
  "timerOK T t =
     (case cb t of
        RollingClearCb \<Rightarrow> due t = T + 4000 \<and> period t = None
      | CompletionCb \<Rightarrow> T + 100 < due t \<and> due t \<le> T + 3200 \<and> period t = None
      | StartCb _ \<Rightarrow> due t = T + 100 \<and> period t = None
      | StabilityCb _ \<Rightarrow> due t = T + 1600 \<and> period t = None
      | DampingCb _ \<Rightarrow> T + 100 < due t \<and> period t = Some 100
      | CheckCb _ \<Rightarrow> T + 100 < due t \<and> period t = Some 100
      | ForceLockCb _ \<Rightarrow> due t = T + 3100 \<and> period t = None)"

definition staticOK :: "world \<Rightarrow> bool" where
  "staticOK w \<longleftrightarrow>
     length (dices w) = 5
   \<and> (\<forall>i<5. index (dices w ! i) = i)
   \<and> (\<forall>d\<in>set (dices w). diceRef d \<noteq> None \<and> hasOnStable d
                            \<and> lastResetCount d = resetCount (cont w))"

definition timersOK :: "nat \<Rightarrow> world \<Rightarrow> bool" where
  "timersOK T w \<longleftrightarrow>
     (\<forall>t\<in>set (pending (timers w)).
        clock w \<le> due t \<and> tid t < nextId (timers w) \<and> timerOK T t)"

definition idsOK :: "world \<Rightarrow> bool" where
  "idsOK w \<longleftrightarrow>
     (\<forall>d\<in>set (dices w). \<forall>i\<in>refIds d.
        i < nextId (timers w)
      \<and> (\<forall>t\<in>set (pending (timers w)). anonymous (cb t) \<longrightarrow> tid t \<noteq> i))"

text \<open>Die \<open>i\<close> is locked or will be: its start timer or its forced lock is pending.\<close>

definition liveAt :: "world \<Rightarrow> nat \<Rightarrow> bool" where
  "liveAt w i \<longleftrightarrow>
     isLocked (dices w ! i)
   \<or> (\<exists>t\<in>set (pending (timers w)). cb t = StartCb i \<or> cb t = ForceLockCb i)"

definition liveOK :: "world \<Rightarrow> bool" where
  "liveOK w \<longleftrightarrow> (\<forall>i<5. liveAt w i)"

definition rollOK :: "nat \<Rightarrow> world \<Rightarrow> bool" where
  "rollOK T w \<longleftrightarrow>
     (if isRolling (cont w) then \<exists>t\<in>set (pending (timers w)). cb t = RollingClearCb
      else T + 4000 \<le> clock w)"

definition valuesOK :: "world \<Rightarrow> bool" where
  "valuesOK w \<longleftrightarrow>
     (\<forall>i<5. isLocked (dices w ! i) \<longrightarrow>
        valAt (diceValues (cont w)) i = Some (finalValue (dices w ! i))
      \<and> finalValue (dices w ! i) \<in> {1..6})"

definition rollInv :: "nat \<Rightarrow> world \<Rightarrow> bool" where
  "rollInv T w \<longleftrightarrow>
     staticOK w \<and> timersOK T w \<and> idsOK w \<and> liveOK w \<and> rollOK T w \<and> valuesOK w"

text \<open>The page at rest, ready for a click: no roll under way, no timer pending, five dice
  mounted with their handles.\<close>

definition quiescent :: "world \<Rightarrow> bool" where
  "quiescent w \<longleftrightarrow>
     pending (timers w) = []
   \<and> \<not> isRolling (cont w) \<and> \<not> needsRender (cont w)
   \<and> map index (dices w) = [0, 1, 2, 3, 4]
   \<and> (\<forall>d\<in>set (dices w).
         diceRef d \<noteq> None \<and> hasOnStable d \<and> startDelay d = 100
       \<and> lastResetCount d \<le> resetCount (cont w)
       \<and> (\<forall>i\<in>refIds d. i < nextId (timers w)))"

text \<open>No start timer is pending (so it is once a timer of another kind is the next to fire).\<close>

definition noStart :: "world \<Rightarrow> bool" where
  "noStart w \<longleftrightarrow> (\<forall>u\<in>set (pending (timers w)). \<forall>i. cb u \<noteq> StartCb i)"

definition lockOutcome :: "dice \<Rightarrow> dice \<times> (nat \<times> int) list \<Rightarrow> bool" where
  "lockOutcome d r \<longleftrightarrow>
     index (fst r) = index d \<and> hasOnStable (fst r) = hasOnStable d
   \<and> lastResetCount (fst r) = lastResetCount d \<and> diceRef (fst r) \<noteq> None
   \<and> refIds (fst r) = refIds d
   \<and> ((snd r = [] \<and> isLocked (fst r) = isLocked d \<and> finalValue (fst r) = finalValue d)
      \<or> (\<not> isLocked d \<and> isLocked (fst r) \<and> snd r = [(index d, finalValue (fst r))]
          \<and> finalValue (fst r) \<in> {1..6}))"

text \<open>
  How many more handlers a pending timer can cause up to the time \<open>H\<close>, itself included:
  an interval due at \<open>d\<close> fires \<open>ticks H d\<close> times, the 1500 ms timer fires and starts two
  intervals, the start timer fires and starts the 1500 ms timer and the forced lock.
\<close>

definition ticks :: "nat \<Rightarrow> nat \<Rightarrow> nat" where
  "ticks H d = (if d \<le> H then (H - d) div 100 + 1 else 0)"

definition weight :: "nat \<Rightarrow> timer \<Rightarrow> nat" where
  "weight H t =
     (case cb t of
        StartCb _ \<Rightarrow> 3 + 2 * ticks H (due t + 1600)
      | StabilityCb _ \<Rightarrow> 1 + 2 * ticks H (due t + 100)
      | DampingCb _ \<Rightarrow> ticks H (due t)
      | CheckCb _ \<Rightarrow> ticks H (due t)
      | _ \<Rightarrow> 1)"

definition load :: "nat \<Rightarrow> timer_table \<Rightarrow> nat" where
  "load H tt = sum_list (map (weight H) (pending tt))"

text \<open>The measure counts the completion timer that may still be scheduled.\<close>

definition potential :: "nat \<Rightarrow> container \<times> timer_table \<Rightarrow> nat" where
  "potential H s = load H (snd s) + (if hasCalculatedPoints (fst s) then 0 else 1)"

text \<open>Surroundings in which the bodies do not move and every respawn draws the same values.\<close>

definition stillEnv :: env where
  "stillEnv =
     \<lparr>physics = (\<lambda>i rb. rb),
      draws = \<lparr>jitterX = 0.5, jitterZ = 0.5, spawnRotation = Quaternion 0 0 0 1,
               torque = Vector3 0 0 0\<rparr>\<rparr>"

section \<open>The timers a die holds in its refs\<close>

text \<open>
  Further invariants of a roll, used to show that no timer is left when the rolling flag
  has been cleared. The refs of a die are filled in the order start timer, 1500 ms
  timer, intervals; every pending timer that a ref is meant for is the one the ref holds.
\<close>

definition refPhase :: "dice \<Rightarrow> bool" where
  "refPhase d \<longleftrightarrow>
     (timerRef d \<noteq> None \<longrightarrow>
        stabilityTimerRef d = None \<and> gradualDampingRef d = None \<and> stabilityCheckRef d = None)
   \<and> (stabilityTimerRef d \<noteq> None \<longrightarrow>
        gradualDampingRef d = None \<and> stabilityCheckRef d = None)"

definition covered :: "world \<Rightarrow> timer \<Rightarrow> bool" where
  "covered w u =
     (case cb u of
        RollingClearCb \<Rightarrow> resetTimerRef (cont w) = Some (tid u)
      | CompletionCb \<Rightarrow> True
      | StartCb i \<Rightarrow> i < 5 \<and> timerRef (dices w ! i) = Some (tid u)
      | StabilityCb i \<Rightarrow> i < 5 \<and> stabilityTimerRef (dices w ! i) = Some (tid u)
      | DampingCb i \<Rightarrow> i < 5 \<and> gradualDampingRef (dices w ! i) = Some (tid u)
      | CheckCb i \<Rightarrow> i < 5 \<and> stabilityCheckRef (dices w ! i) = Some (tid u)
      | ForceLockCb i \<Rightarrow> True)"

definition tidy :: "world \<Rightarrow> bool" where
  "tidy w \<longleftrightarrow>
     (\<forall>d\<in>set (dices w). startDelay d = 100 \<and> refPhase d)
   \<and> distinct (map tid (pending (timers w)))
   \<and> (\<forall>u\<in>set (pending (timers w)). covered w u)
   \<and> (\<not> isRolling (cont w) \<longrightarrow> resetTimerRef (cont w) = None)"

text \<open>Between two handlers, when the flag is clear no timer is pending.\<close>

definition restOK :: "world \<Rightarrow> bool" where
  "restOK w \<longleftrightarrow> (\<not> isRolling (cont w) \<longrightarrow> pending (timers w) = [])"

section \<open>A session on the page\<close>

text \<open>
  What can happen on the mounted page: the user clicks the button, the event loop runs
  the timer that is due next, or time passes without a handler. Time passes at most
  until the next pending timer is due; that timer is then served by the next turn of
  the event loop.
\<close>

datatype event = Click | Turn env | Idle nat

definition idle :: "nat \<Rightarrow> world \<Rightarrow> world" where
  "idle n w =
     (case nextTimer (timers w) of
        None \<Rightarrow> w\<lparr>clock := clock w + n\<rparr>
      | Some t \<Rightarrow> w\<lparr>clock := max (clock w) (min (clock w + n) (due t))\<rparr>)"

definition handle :: "world \<Rightarrow> event \<Rightarrow> world" where
  "handle w ev = (case ev of Click \<Rightarrow> click w | Turn e \<Rightarrow> step w e | Idle n \<Rightarrow> idle n w)"

definition play :: "world \<Rightarrow> event list \<Rightarrow> world" where
  "play w evs = foldl handle w evs"

section \<open>The stability check\<close>

lemma stableLoop_char:
  "stableLoop h i \<longleftrightarrow>
     (\<forall>j. i \<le> j \<and> j < 5 \<longrightarrow> distanceTo (fst (h ! (length h - j - 1))) (fst (h ! (length h - j))) \<le> 0.0001)"
proof (induction h i rule: stableLoop.induct)
  case (1 h i)
  show ?case
  proof (cases "i < 5")
    case False
    then show ?thesis by (subst stableLoop.simps) auto
  next
    case True
    let ?D = "\<lambda>j. distanceTo (fst (h ! (length h - j - 1))) (fst (h ! (length h - j)))"
    show ?thesis
    proof (cases "?D i > 0.0001")
      case far: True
      have "\<not> stableLoop h i"
        using True far by (subst stableLoop.simps) (simp add: Let_def)
      moreover have "\<not> (\<forall>j. i \<le> j \<and> j < 5 \<longrightarrow> ?D j \<le> 0.0001)"
        using True far by (auto intro!: exI[of _ i])
      ultimately show ?thesis by blast
    next
      case near: False
      have "stableLoop h i = stableLoop h (i + 1)"
        using True near by (subst stableLoop.simps) (simp add: Let_def)
      also have "\<dots> \<longleftrightarrow> (\<forall>j. i + 1 \<le> j \<and> j < 5 \<longrightarrow> ?D j \<le> 0.0001)"
        using "1.IH"[OF True refl refl] near by simp
      also have "\<dots> \<longleftrightarrow> (\<forall>j. i \<le> j \<and> j < 5 \<longrightarrow> ?D j \<le> 0.0001)"
      proof
        assume a: "\<forall>j. i + 1 \<le> j \<and> j < 5 \<longrightarrow> ?D j \<le> 0.0001"
        show "\<forall>j. i \<le> j \<and> j < 5 \<longrightarrow> ?D j \<le> 0.0001"
        proof (intro allI impI)
          fix j assume "i \<le> j \<and> j < 5"
          then consider "j = i" | "i + 1 \<le> j \<and> j < 5" by linarith
          then show "?D j \<le> 0.0001" using a near by cases auto
        qed
      qed auto
      finally show ?thesis .
    qed
  qed
qed

lemma stableLoop_recent:
  "stableLoop h 1 \<longleftrightarrow> (\<forall>k<4. recentStep h k \<le> 0.0001)"
proof -
  have eq: "\<And>k. recentStep h k
      = distanceTo (fst (h ! (length h - (k + 1) - 1))) (fst (h ! (length h - (k + 1))))"
    by (simp add: recentStep_def)
  show ?thesis
  proof
    assume s: "stableLoop h 1"
    show "\<forall>k<4. recentStep h k \<le> 0.0001"
    proof (intro allI impI)
      fix k :: nat assume "k < 4"
      then have "1 \<le> k + 1 \<and> k + 1 < 5" by simp
      with s show "recentStep h k \<le> 0.0001"
        unfolding eq stableLoop_char by blast
    qed
  next
    assume r: "\<forall>k<4. recentStep h k \<le> 0.0001"
    show "stableLoop h 1"
      unfolding stableLoop_char
    proof (intro allI impI)
      fix j :: nat assume j: "1 \<le> j \<and> j < 5"
      then obtain k where k: "j = k + 1" "k < 4"
        by (cases j) auto
      with r have "recentStep h k \<le> 0.0001" by blast
      then show "distanceTo (fst (h ! (length h - j - 1))) (fst (h ! (length h - j))) \<le> 0.0001"
        unfolding eq k by simp
    qed
  qed
qed


lemma checkStability_eq0:
  assumes "diceRef d = Some rb" "\<not> isLocked d"
  shows "checkStability now d =
          (if 5 \<le> length (pushed d rb now) then
             (if (if stableLoop (pushed d rb now) 1
                  then \<not> (magnitude (linvel rb) > 0.005 \<or> magnitude (angvel rb) > 0.005)
                  else False)
              then lockDicePhysics (d\<lparr>positionHistory := pushed d rb now\<rparr>)
              else (d\<lparr>positionHistory := pushed d rb now\<rparr>, []))
           else (d\<lparr>positionHistory := pushed d rb now\<rparr>, []))"
proof -
  have h: "(if length (positionHistory d @ [(translation rb, now)]) > 10
            then tl (positionHistory d @ [(translation rb, now)])
            else positionHistory d @ [(translation rb, now)]) = pushed d rb now"
    by (simp add: pushed_def)
  show ?thesis
    apply (simp only: checkStability_def Let_def assms option.case if_False)
    apply (simp only: h)
    done
qed

lemma lockDicePhysics_fresh:
  assumes "diceRef d = Some rb" "\<not> isLocked d"
  shows "isLocked (fst (lockDicePhysics d))"
    and "positionHistory (fst (lockDicePhysics d)) = positionHistory d"
    and "snd (lockDicePhysics d)
          = (if hasOnStable d then [(index d, getDiceValueFromRotation (rotation rb))] else [])"
  using assms by (simp_all add: lockDicePhysics_def Let_def)


lemma checkStability_eq:
  assumes "diceRef d = Some rb" "\<not> isLocked d"
  shows "checkStability now d =
           (if 5 \<le> length (pushed d rb now)
               \<and> (\<forall>k<4. recentStep (pushed d rb now) k \<le> 0.0001)
               \<and> magnitude (linvel rb) \<le> 0.005 \<and> magnitude (angvel rb) \<le> 0.005
            then lockDicePhysics (d\<lparr>positionHistory := pushed d rb now\<rparr>)
            else (d\<lparr>positionHistory := pushed d rb now\<rparr>, []))"
  apply (subst checkStability_eq0[OF assms])
  apply (simp only: stableLoop_recent)
  apply (auto simp add: not_less)
  done

lemma checkStability_history:
  assumes "diceRef d = Some rb" "\<not> isLocked d"
  shows "positionHistory (fst (checkStability now d)) = pushed d rb now"
  unfolding checkStability_eq[OF assms] using assms
  by (simp add: lockDicePhysics_def Let_def)

lemma checkStability_handle:
  assumes "diceRef d = Some rb"
  shows "diceRef (fst (checkStability now d)) \<noteq> None"
  using assms
  by (simp add: checkStability_def Let_def lockDicePhysics_def)

lemma checkStability_locks_iff:
  assumes "diceRef d = Some rb" "\<not> isLocked d"
  shows "isLocked (fst (checkStability now d)) \<longleftrightarrow>
           5 \<le> length (pushed d rb now)
         \<and> (\<forall>k<4. recentStep (pushed d rb now) k \<le> 0.0001)
         \<and> magnitude (linvel rb) \<le> 0.005 \<and> magnitude (angvel rb) \<le> 0.005"
    (is "_ \<longleftrightarrow> ?P")
proof -
  let ?d1 = "d\<lparr>positionHistory := pushed d rb now\<rparr>"
  have d1: "diceRef ?d1 = Some rb" "\<not> isLocked ?d1" using assms by simp_all
  have lk: "isLocked (fst (lockDicePhysics ?d1))" by (rule lockDicePhysics_fresh(1)[OF d1])
  show ?thesis
  proof (cases ?P)
    case True
    have "checkStability now d = lockDicePhysics ?d1"
      by (subst checkStability_eq[OF assms]) (rule if_P[OF True])
    then show ?thesis using lk True by simp
  next
    case False
    have "checkStability now d = (?d1, [])"
      by (subst checkStability_eq[OF assms]) (rule if_not_P[OF False])
    then show ?thesis using False assms(2) by simp
  qed
qed

lemma checkStability_notifies:
  assumes "diceRef d = Some rb" "\<not> isLocked d"
  shows "snd (checkStability now d)
          = (if isLocked (fst (checkStability now d)) \<and> hasOnStable d
             then [(index d, getDiceValueFromRotation (rotation rb))] else [])"
proof -
  let ?P = "5 \<le> length (pushed d rb now)
         \<and> (\<forall>k<4. recentStep (pushed d rb now) k \<le> 0.0001)
         \<and> magnitude (linvel rb) \<le> 0.005 \<and> magnitude (angvel rb) \<le> 0.005"
  let ?d1 = "d\<lparr>positionHistory := pushed d rb now\<rparr>"
  have d1: "diceRef ?d1 = Some rb" "\<not> isLocked ?d1" using assms by simp_all
  have lk: "isLocked (fst (lockDicePhysics ?d1))" by (rule lockDicePhysics_fresh(1)[OF d1])
  have sn: "snd (lockDicePhysics ?d1)
          = (if hasOnStable d then [(index d, getDiceValueFromRotation (rotation rb))] else [])"
    using lockDicePhysics_fresh(3)[OF d1] by simp
  show ?thesis
  proof (cases ?P)
    case True
    have "checkStability now d = lockDicePhysics ?d1"
      by (subst checkStability_eq[OF assms]) (rule if_P[OF True])
    then show ?thesis using lk sn by simp
  next
    case False
    have "checkStability now d = (?d1, [])"
      by (subst checkStability_eq[OF assms]) (rule if_not_P[OF False])
    then show ?thesis using assms(2) by simp
  qed
qed

lemma observe_unlocked:
  assumes "diceRef d = Some rb" "\<not> isLocked d"
  shows "diceRef (withSample sm d)
           = Some (rb\<lparr>translation := samplePos sm, linvel := sampleLinvel sm, angvel := sampleAngvel sm\<rparr>)"
    and "\<not> isLocked (withSample sm d)"
    and "positionHistory (withSample sm d) = positionHistory d"
  using assms by (simp_all add: withSample_def)

lemma observe_short:
  assumes "diceRef d = Some rb" "\<not> isLocked d" "length (positionHistory d) + 1 < 5"
  shows "\<not> isLocked (observe d sm)"
    and "diceRef (observe d sm) \<noteq> None"
    and "positionHistory (observe d sm) = positionHistory d @ [(samplePos sm, sampleTime sm)]"
proof -
  let ?rb = "rb\<lparr>translation := samplePos sm, linvel := sampleLinvel sm, angvel := sampleAngvel sm\<rparr>"
  note w = observe_unlocked[OF assms(1,2), of sm]
  have p: "pushed (withSample sm d) ?rb (sampleTime sm)
            = positionHistory d @ [(samplePos sm, sampleTime sm)]"
    using assms(3) by (simp add: pushed_def w(3))
  show "\<not> isLocked (observe d sm)"
    unfolding observe_def checkStability_locks_iff[OF w(1,2)] p using assms(3) by simp
  show "diceRef (observe d sm) \<noteq> None"
    unfolding observe_def by (rule checkStability_handle[OF w(1)])
  show "positionHistory (observe d sm) = positionHistory d @ [(samplePos sm, sampleTime sm)]"
    unfolding observe_def checkStability_history[OF w(1,2)] p ..
qed

lemma observe_many_short:
  assumes "diceRef d \<noteq> None" "\<not> isLocked d" "length (positionHistory d) + length ss < 5"
  shows "\<not> isLocked (foldl observe d ss)
       \<and> diceRef (foldl observe d ss) \<noteq> None
       \<and> positionHistory (foldl observe d ss)
           = positionHistory d @ map (\<lambda>sm. (samplePos sm, sampleTime sm)) ss"
  using assms
proof (induction ss arbitrary: d)
  case Nil
  then show ?case by simp
next
  case (Cons sm ss)
  from Cons.prems(1) obtain rb where rb: "diceRef d = Some rb" by auto
  have len: "length (positionHistory d) + 1 < 5" using Cons.prems(3) by simp
  note o = observe_short[OF rb Cons.prems(2) len, of sm]
  have "length (positionHistory (observe d sm)) + length ss < 5"
    using Cons.prems(3) by (simp add: o(3))
  from Cons.IH[OF o(2) o(1) this] show ?case by (simp add: o(3))
qed

lemma magnitude_zero: "magnitude (Vector3 0 0 0) = 0"
  by (simp add: magnitude_def Vector3_def)

lemma observe_fifth:
  assumes d: "diceRef d \<noteq> None" "\<not> isLocked d" "positionHistory d = []"
    and len: "length ss = 5"
    and near: "\<forall>a\<in>set ss. \<forall>b\<in>set ss. distanceTo (samplePos a) (samplePos b) \<le> 0.00001"
    and still: "\<forall>a\<in>set ss. sampleLinvel a = Vector3 0 0 0 \<and> sampleAngvel a = Vector3 0 0 0"
  shows "isLocked (foldl observe d ss)"
proof -
  let ?f = "\<lambda>sm. (samplePos sm, sampleTime sm)"
  obtain xs x where ss: "ss = xs @ [x]" and lxs: "length xs = 4"
    using len by (cases ss rule: rev_cases) auto
  let ?d4 = "foldl observe d xs"
  have "length (positionHistory d) + length xs < 5" using d(3) lxs by simp
  from observe_many_short[OF d(1,2) this]
  have d4: "\<not> isLocked ?d4" "diceRef ?d4 \<noteq> None" "positionHistory ?d4 = map ?f xs"
    using d(3) by simp_all
  from d4(2) obtain rb where rb: "diceRef ?d4 = Some rb" by auto
  let ?rb = "rb\<lparr>translation := samplePos x, linvel := sampleLinvel x, angvel := sampleAngvel x\<rparr>"
  note w = observe_unlocked[OF rb d4(1), of x]
  have p: "pushed (withSample x ?d4) ?rb (sampleTime x) = map ?f ss"
    using lxs by (simp add: pushed_def w(3) d4(3) ss)
  have steps: "\<forall>k<4. recentStep (map ?f ss) k \<le> 0.0001"
  proof (intro allI impI)
    fix k :: nat assume k: "k < 4"
    have i1: "length (map ?f ss) - k - 2 < length ss" and i2: "length (map ?f ss) - k - 1 < length ss"
      using len k by simp_all
    have "recentStep (map ?f ss) k
            = distanceTo (samplePos (ss ! (length (map ?f ss) - k - 2)))
                         (samplePos (ss ! (length (map ?f ss) - k - 1)))"
      unfolding recentStep_def using i1 i2 by (simp only: nth_map fst_conv)
    also have "\<dots> \<le> 0.00001"
      using near i1 i2 nth_mem by blast
    finally show "recentStep (map ?f ss) k \<le> 0.0001" by simp
  qed
  have x: "x \<in> set ss" by (simp add: ss)
  have vel: "magnitude (linvel ?rb) \<le> 0.005" "magnitude (angvel ?rb) \<le> 0.005"
    using still x by (simp_all add: magnitude_zero)
  have "isLocked (observe ?d4 x)"
    unfolding observe_def checkStability_locks_iff[OF w(1,2)] p
    using steps vel len by simp
  then show ?thesis by (simp add: ss)
qed

lemma sqrt_le_iff_square:
  assumes "0 \<le> (c::real)"
  shows "sqrt x \<le> c \<longleftrightarrow> x \<le> c\<^sup>2"
proof -
  have "sqrt x \<le> c \<longleftrightarrow> sqrt x \<le> sqrt (c\<^sup>2)" using assms by simp
  also have "\<dots> \<longleftrightarrow> x \<le> c\<^sup>2" by (rule real_sqrt_le_iff)
  finally show ?thesis .
qed

lemma sqrt_times_le_one:
  assumes "0 < (c::real)"
  shows "sqrt x * c \<le> 1 \<longleftrightarrow> x \<le> (1 / c)\<^sup>2"
proof -
  have "sqrt x * c \<le> 1 \<longleftrightarrow> sqrt x \<le> 1 / c" using assms by (simp add: field_simps)
  also have "\<dots> \<longleftrightarrow> x \<le> (1 / c)\<^sup>2" using assms by (intro sqrt_le_iff_square) simp
  finally show ?thesis .
qed

lemma all_less_4: "(\<forall>k<4::nat. P k) \<longleftrightarrow> P 0 \<and> P 1 \<and> P 2 \<and> P 3"
proof
  assume a: "\<forall>k<4. P k"
  show "P 0 \<and> P 1 \<and> P 2 \<and> P 3" using a by simp
next
  assume b: "P 0 \<and> P 1 \<and> P 2 \<and> P 3"
  show "\<forall>k<4. P k"
  proof (intro allI impI)
    fix k :: nat assume "k < 4"
    then consider "k = 0" | "k = 1" | "k = 2" | "k = 3" by linarith
    then show "P k" using b by cases simp_all
  qed
qed

lemma driftingDice_simps:
  "diceRef (driftingDice x w)
     = Some (restingBody\<lparr>translation := Vector3 x 4 0, linvel := Vector3 0.003 0.004 w,
                         angvel := Vector3 0 0 0.005\<rparr>)"
  "\<not> isLocked (driftingDice x w)"
  "pushed (driftingDice x w)
       (restingBody\<lparr>translation := Vector3 x 4 0, linvel := Vector3 0.003 0.004 w,
                    angvel := Vector3 0 0 0.005\<rparr>) now
     = [(Vector3 0 4 0, 1700), (Vector3 0.00006 4 0, 1800), (Vector3 0.00012 4 0, 1900),
        (Vector3 0.00018 4 0, 2000), (Vector3 x 4 0, now)]"
  by (simp_all add: driftingDice_def initialDice_def pushed_def)

text \<open>
  Claim C1. For a die whose handle is present and which is not locked, one call of
  \<^verbatim>\<open>checkStability\<close> locks the die (and reports it through \<^verbatim>\<open>onStable\<close>) if and only
  if the history, after the new position was pushed, holds at least 5 entries, each of
  the 4 displacements between consecutive entries among the 5 most recent is at most
  0.0001, and the magnitudes of the linear and of the angular velocity are both at most
  0.005; the displacements and the magnitudes are written out as the square roots the
  code computes. Starting from the empty history of a respawn, fewer than 5 checks never lock;
  5 samples that are pairwise within 0.00001 of each other, with zero velocities, lock on
  the 5th check and on none before.
\<close>

theorem checkStability_settles_iff:
  assumes "diceRef d = Some rb" and "\<not> isLocked d"
  shows "positionHistory (fst (checkStability now d)) = pushed d rb now
       \<and> (isLocked (fst (checkStability now d)) \<longleftrightarrow>
            5 \<le> length (pushed d rb now)
          \<and> (\<forall>k<4.
                sqrt ((vx (fst (pushed d rb now ! (length (pushed d rb now) - k - 2)))
                        - vx (fst (pushed d rb now ! (length (pushed d rb now) - k - 1))))\<^sup>2
                    + (vy (fst (pushed d rb now ! (length (pushed d rb now) - k - 2)))
                        - vy (fst (pushed d rb now ! (length (pushed d rb now) - k - 1))))\<^sup>2
                    + (vz (fst (pushed d rb now ! (length (pushed d rb now) - k - 2)))
                        - vz (fst (pushed d rb now ! (length (pushed d rb now) - k - 1))))\<^sup>2)
                  \<le> 0.0001)
          \<and> sqrt ((vx (linvel rb))\<^sup>2 + (vy (linvel rb))\<^sup>2 + (vz (linvel rb))\<^sup>2) \<le> 0.005
          \<and> sqrt ((vx (angvel rb))\<^sup>2 + (vy (angvel rb))\<^sup>2 + (vz (angvel rb))\<^sup>2) \<le> 0.005)
       \<and> snd (checkStability now d)
            = (if isLocked (fst (checkStability now d)) \<and> hasOnStable d
               then [(index d, getDiceValueFromRotation (rotation rb))] else [])
       \<and> (positionHistory d = [] \<longrightarrow> length ss < 5 \<longrightarrow> \<not> isLocked (foldl observe d ss))
       \<and> (positionHistory d = [] \<longrightarrow> length ss = 5 \<longrightarrow>
            (\<forall>a\<in>set ss. \<forall>b\<in>set ss.
               sqrt ((vx (samplePos a) - vx (samplePos b))\<^sup>2
                   + (vy (samplePos a) - vy (samplePos b))\<^sup>2
                   + (vz (samplePos a) - vz (samplePos b))\<^sup>2) \<le> 0.00001) \<longrightarrow>
            (\<forall>a\<in>set ss. sampleLinvel a = Vector3 0 0 0 \<and> sampleAngvel a = Vector3 0 0 0) \<longrightarrow>
            isLocked (foldl observe d ss) \<and> (\<forall>n<5. \<not> isLocked (foldl observe d (take n ss))))"
proof (intro conjI impI)
  have h: "diceRef d \<noteq> None" using assms(1) by simp
  show "positionHistory (fst (checkStability now d)) = pushed d rb now"
    by (rule checkStability_history[OF assms])
  show "isLocked (fst (checkStability now d)) \<longleftrightarrow>
            5 \<le> length (pushed d rb now)
          \<and> (\<forall>k<4.
                sqrt ((vx (fst (pushed d rb now ! (length (pushed d rb now) - k - 2)))
                        - vx (fst (pushed d rb now ! (length (pushed d rb now) - k - 1))))\<^sup>2
                    + (vy (fst (pushed d rb now ! (length (pushed d rb now) - k - 2)))
                        - vy (fst (pushed d rb now ! (length (pushed d rb now) - k - 1))))\<^sup>2
                    + (vz (fst (pushed d rb now ! (length (pushed d rb now) - k - 2)))
                        - vz (fst (pushed d rb now ! (length (pushed d rb now) - k - 1))))\<^sup>2)
                  \<le> 0.0001)
          \<and> sqrt ((vx (linvel rb))\<^sup>2 + (vy (linvel rb))\<^sup>2 + (vz (linvel rb))\<^sup>2) \<le> 0.005
          \<and> sqrt ((vx (angvel rb))\<^sup>2 + (vy (angvel rb))\<^sup>2 + (vz (angvel rb))\<^sup>2) \<le> 0.005"
    using checkStability_locks_iff[OF assms, of now]
    unfolding recentStep_def distanceTo_def magnitude_def .
  show "snd (checkStability now d)
            = (if isLocked (fst (checkStability now d)) \<and> hasOnStable d
               then [(index d, getDiceValueFromRotation (rotation rb))] else [])"
    by (rule checkStability_notifies[OF assms])
  {
    assume e: "positionHistory d = []" and l: "length ss < 5"
    then have "length (positionHistory d) + length ss < 5" by simp
    from observe_many_short[OF h assms(2) this]
    show "\<not> isLocked (foldl observe d ss)" by simp
  }
  {
    assume e: "positionHistory d = []" and l: "length ss = 5"
      and near0: "\<forall>a\<in>set ss. \<forall>b\<in>set ss.
               sqrt ((vx (samplePos a) - vx (samplePos b))\<^sup>2
                   + (vy (samplePos a) - vy (samplePos b))\<^sup>2
                   + (vz (samplePos a) - vz (samplePos b))\<^sup>2) \<le> 0.00001"
      and still: "\<forall>a\<in>set ss. sampleLinvel a = Vector3 0 0 0 \<and> sampleAngvel a = Vector3 0 0 0"
    from near0 have near: "\<forall>a\<in>set ss. \<forall>b\<in>set ss. distanceTo (samplePos a) (samplePos b) \<le> 0.00001"
      unfolding distanceTo_def .
    show "isLocked (foldl observe d ss)"
      by (rule observe_fifth[OF h assms(2) e l near still])
    show "\<forall>n<5. \<not> isLocked (foldl observe d (take n ss))"
    proof (intro allI impI)
      fix n :: nat assume "n < 5"
      then have "length (positionHistory d) + length (take n ss) < 5" using e l by simp
      from observe_many_short[OF h assms(2) this]
      show "\<not> isLocked (foldl observe d (take n ss))" by simp
    qed
  }
qed

theorem checkStability_settles_iff_witness:
  "diceRef (initialDice 0) = Some restingBody \<and> \<not> isLocked (initialDice 0)
   \<and> isLocked (foldl observe (initialDice 0) (map stillSample [1700, 1800, 1900, 2000, 2100]))
   \<and> \<not> isLocked (foldl observe (initialDice 0) (map stillSample [1700, 1800, 1900, 2000]))
   \<and> \<not> isLocked (fst (checkStability 1700 (initialDice 0)))
   \<and> \<not> isLocked (driftingDice 0.00024 0)
   \<and> isLocked (fst (checkStability 2100 (driftingDice 0.00024 0)))
   \<and> \<not> isLocked (fst (checkStability 2100 (driftingDice 0.00024 0.001)))
   \<and> \<not> isLocked (fst (checkStability 2100 (driftingDice 0.0003 0)))"
proof -
  let ?ss = "map stillSample [1700, 1800, 1900, 2000, 2100]"
  have a: "diceRef (initialDice 0) = Some restingBody" "\<not> isLocked (initialDice 0)"
    by (simp_all add: initialDice_def)
  have e: "positionHistory (initialDice 0) = []" by (simp add: initialDice_def)
  have l: "length ?ss = 5" by simp
  have near: "\<forall>a\<in>set ?ss. \<forall>b\<in>set ?ss.
               sqrt ((vx (samplePos a) - vx (samplePos b))\<^sup>2
                   + (vy (samplePos a) - vy (samplePos b))\<^sup>2
                   + (vz (samplePos a) - vz (samplePos b))\<^sup>2) \<le> 0.00001"
    by (simp add: stillSample_def)
  have still: "\<forall>a\<in>set ?ss. sampleLinvel a = Vector3 0 0 0 \<and> sampleAngvel a = Vector3 0 0 0"
    by (simp add: stillSample_def)
  note t = checkStability_settles_iff[OF a, of 1700 ?ss]
  have p: "length (pushed (initialDice 0) restingBody 1700) = 1"
    by (simp add: pushed_def initialDice_def)
  from t e l near still have "isLocked (foldl observe (initialDice 0) ?ss)"
    and n: "\<forall>n<5. \<not> isLocked (foldl observe (initialDice 0) (take n ?ss))"
    by blast+
  moreover have "(4::nat) < 5" by simp
  from n[rule_format, OF this] have "\<not> isLocked (foldl observe (initialDice 0) (map stillSample [1700, 1800, 1900, 2000]))"
    by simp
  moreover from t p have "\<not> isLocked (fst (checkStability 1700 (initialDice 0)))"
    by simp
  moreover have "isLocked (fst (checkStability 2100 (driftingDice 0.00024 0)))"
    using checkStability_settles_iff[OF driftingDice_simps(1)[of "0.00024" "0"] driftingDice_simps(2), of 2100 "[]"]
    unfolding driftingDice_simps(3) all_less_4
    by (simp add: Vector3_def sqrt_le_iff_square sqrt_times_le_one power2_eq_square)
  moreover have "\<not> isLocked (fst (checkStability 2100 (driftingDice 0.00024 0.001)))"
    using checkStability_settles_iff[OF driftingDice_simps(1)[of "0.00024" "0.001"] driftingDice_simps(2), of 2100 "[]"]
    unfolding driftingDice_simps(3) all_less_4
    by (simp add: Vector3_def sqrt_le_iff_square sqrt_times_le_one power2_eq_square)
  moreover have "\<not> isLocked (fst (checkStability 2100 (driftingDice 0.0003 0)))"
    using checkStability_settles_iff[OF driftingDice_simps(1)[of "0.0003" "0"] driftingDice_simps(2), of 2100 "[]"]
    unfolding driftingDice_simps(3) all_less_4
    by (simp add: Vector3_def sqrt_le_iff_square sqrt_times_le_one power2_eq_square)
  ultimately show ?thesis using a driftingDice_simps(2)[of "0.00024" 0] by simp
qed

section \<open>The orientation resolver\<close>

lemma faceStep_first_max:
  assumes "fs \<noteq> []"
  shows "\<exists>k<length fs.
           foldl (faceStep q) (None, d) fs = (Some (alignment q (fs ! k)), fvalue (fs ! k))
         \<and> (\<forall>j<length fs. alignment q (fs ! j) \<le> alignment q (fs ! k))
         \<and> (\<forall>j<k. alignment q (fs ! j) < alignment q (fs ! k))"
  using assms
proof (induction fs rule: rev_induct)
  case Nil
  then show ?case by simp
next
  case (snoc x xs)
  show ?case
  proof (cases "xs = []")
    case True
    then show ?thesis by (simp add: faceStep_def)
  next
    case False
    with snoc.IH obtain k where k: "k < length xs"
      and fk: "foldl (faceStep q) (None, d) xs = (Some (alignment q (xs ! k)), fvalue (xs ! k))"
      and mx: "\<forall>j<length xs. alignment q (xs ! j) \<le> alignment q (xs ! k)"
      and fst: "\<forall>j<k. alignment q (xs ! j) < alignment q (xs ! k)"
      by blast
    show ?thesis
    proof (cases "alignment q x > alignment q (xs ! k)")
      case True
      have "foldl (faceStep q) (None, d) (xs @ [x]) = (Some (alignment q x), fvalue x)"
        using fk True by (simp add: faceStep_def)
      moreover have "\<forall>j<length (xs @ [x]). alignment q ((xs @ [x]) ! j) \<le> alignment q x"
        using mx True by (auto simp: nth_append less_Suc_eq)
      moreover have "\<forall>j<length xs. alignment q ((xs @ [x]) ! j) < alignment q x"
        using mx True by (auto simp: nth_append)
      ultimately show ?thesis
        by (intro exI[of _ "length xs"]) simp
    next
      case False
      have "foldl (faceStep q) (None, d) (xs @ [x]) = (Some (alignment q (xs ! k)), fvalue (xs ! k))"
        using fk False by (simp add: faceStep_def)
      moreover have "\<forall>j<length (xs @ [x]). alignment q ((xs @ [x]) ! j) \<le> alignment q (xs ! k)"
        using mx False by (auto simp: nth_append less_Suc_eq)
      moreover have "\<forall>j<k. alignment q ((xs @ [x]) ! j) < alignment q (xs ! k)"
        using fst k by (auto simp: nth_append)
      ultimately show ?thesis
        using k by (intro exI[of _ k]) (simp add: nth_append)
    qed
  qed
qed

lemma faces_values: "k < length faces \<Longrightarrow> fvalue (faces ! k) = int k + 1"
  by (auto simp: faces_def less_Suc_eq numeral_eq_Suc)

lemma canon:
  "getDiceValueFromRotation rotY_up = 3"
  "getDiceValueFromRotation rotYneg_up = 6"
  "getDiceValueFromRotation rotZ_up = 1"
  "getDiceValueFromRotation rotZneg_up = 4"
  "getDiceValueFromRotation rotX_up = 2"
  "getDiceValueFromRotation rotXneg_up = 5"
  by (simp_all add: getDiceValueFromRotation_def faces_def faceStep_def alignment_def
      applyQuaternion_def dot_def worldUp_def Vector3_def Quaternion_def
      rotY_up_def rotYneg_up_def rotZ_up_def rotZneg_up_def rotX_up_def rotXneg_up_def Let_def)

text \<open>
  Claim C2. For every quaternion, \<^verbatim>\<open>getDiceValueFromRotation\<close> returns the value of a
  face whose rotated normal has the greatest dot product with the world up axis (0,1,0),
  and of the first such face in the order of the source array (every face before it has
  a strictly smaller dot product). The array assigns Z+ to 1, X+ to 2, Y+ to 3, Z- to 4,
  X- to 5 and Y- to 6, so the result lies in 1..6, and each of the six axis-aligned
  rotations gives the value of the face it turns upwards.
\<close>

theorem getDiceValueFromRotation_first_max:
  "(\<exists>k<6. getDiceValueFromRotation q = fvalue (faces ! k)
        \<and> (\<forall>j<6. alignment q (faces ! j) \<le> alignment q (faces ! k))
        \<and> (\<forall>j<k. alignment q (faces ! j) < alignment q (faces ! k)))
   \<and> getDiceValueFromRotation q \<in> {1..6}
   \<and> map (\<lambda>f. (vx (normal f), vy (normal f), vz (normal f), fvalue f)) faces
        = [(0, 0, 1, 1), (1, 0, 0, 2), (0, 1, 0, 3), (0, 0, -1, 4), (-1, 0, 0, 5), (0, -1, 0, 6)]
   \<and> getDiceValueFromRotation rotZ_up = 1
   \<and> getDiceValueFromRotation rotX_up = 2
   \<and> getDiceValueFromRotation rotY_up = 3
   \<and> getDiceValueFromRotation rotZneg_up = 4
   \<and> getDiceValueFromRotation rotXneg_up = 5
   \<and> getDiceValueFromRotation rotYneg_up = 6"
proof -
  have l: "length faces = 6" by (simp add: faces_def)
  have ne: "faces \<noteq> []" by (simp add: faces_def)
  from faceStep_first_max[OF ne, of q 1] obtain k where k: "k < length faces"
    and f: "foldl (faceStep q) (None, 1) faces = (Some (alignment q (faces ! k)), fvalue (faces ! k))"
    and m: "\<forall>j<length faces. alignment q (faces ! j) \<le> alignment q (faces ! k)"
    and s: "\<forall>j<k. alignment q (faces ! j) < alignment q (faces ! k)"
    by blast
  have v: "getDiceValueFromRotation q = fvalue (faces ! k)"
    by (simp add: getDiceValueFromRotation_def f)
  have first: "\<exists>k<6. getDiceValueFromRotation q = fvalue (faces ! k)
        \<and> (\<forall>j<6. alignment q (faces ! j) \<le> alignment q (faces ! k))
        \<and> (\<forall>j<k. alignment q (faces ! j) < alignment q (faces ! k))"
    using k v m s unfolding l by blast
  have range: "getDiceValueFromRotation q \<in> {1..6}"
    using faces_values[OF k] k v l by simp
  have table: "map (\<lambda>f. (vx (normal f), vy (normal f), vz (normal f), fvalue f)) faces
        = [(0, 0, 1, 1), (1, 0, 0, 2), (0, 1, 0, 3), (0, 0, -1, 4), (-1, 0, 0, 5), (0, -1, 0, 6)]"
    by (simp add: faces_def Vector3_def)
  show ?thesis
    using first range table canon by (simp only: simp_thms)
qed

theorem getDiceValueFromRotation_first_max_witness:
  "getDiceValueFromRotation rotYneg_up \<in> {1..6}
   \<and> (\<exists>k. k < 6 \<and> getDiceValueFromRotation rotYneg_up = fvalue (faces ! k)
          \<and> alignment rotYneg_up (faces ! 2) \<le> alignment rotYneg_up (faces ! k))"
proof -
  note t = getDiceValueFromRotation_first_max[of rotYneg_up]
  from t obtain k where k: "k < 6" "getDiceValueFromRotation rotYneg_up = fvalue (faces ! k)"
    and m: "\<forall>j<6. alignment rotYneg_up (faces ! j) \<le> alignment rotYneg_up (faces ! k)"
    by blast
  have "(2::nat) < 6" by simp
  with m have "alignment rotYneg_up (faces ! 2) \<le> alignment rotYneg_up (faces ! k)" by blast
  with k t show ?thesis by blast
qed

text \<open>
  Claim C7 says that the resolver gives, for every quaternion \<open>q\<close> and positive scale
  \<open>s\<close>, the face value of the normalised \<open>q\<close>. The code does not normalise: half of the
  half-turn quaternion (1,0,0,0) resolves to 3, the normalised quaternion to 6.
\<close>

lemma qlength_qscale: "qlength (qscale s q) = \<bar>s\<bar> * qlength q"
proof -
  have "(s * qx q)\<^sup>2 + (s * qy q)\<^sup>2 + (s * qz q)\<^sup>2 + (s * qw q)\<^sup>2
          = s\<^sup>2 * ((qx q)\<^sup>2 + (qy q)\<^sup>2 + (qz q)\<^sup>2 + (qw q)\<^sup>2)"
    by (simp add: power_mult_distrib distrib_left)
  then show ?thesis
    by (simp add: qlength_def qscale_def real_sqrt_mult)
qed

theorem scaled_quaternion_counterexample:
  "(0::real) < 1 / 2
   \<and> getDiceValueFromRotation (qscale (1 / 2) rotYneg_up)
       \<noteq> getDiceValueFromRotation (qnormalize rotYneg_up)"
  by (simp add: getDiceValueFromRotation_def faces_def faceStep_def alignment_def
      applyQuaternion_def dot_def worldUp_def Vector3_def Quaternion_def qscale_def
      qnormalize_def qlength_def rotYneg_up_def Let_def)

lemma alignment_qscale:
  "alignment (qscale c q) f = (1 - c\<^sup>2) * vy (normal f) + c\<^sup>2 * alignment q f"
  by (simp add: alignment_def applyQuaternion_def dot_def worldUp_def Vector3_def qscale_def
      Let_def power2_eq_square algebra_simps)

lemma qscale_qscale: "qscale a (qscale b q) = qscale (a * b) q"
  by (simp add: qscale_def)

lemma qlength_nonneg: "0 \<le> qlength q"
  by (simp add: qlength_def)

lemma alignment_zero:
  assumes "qlength q = 0"
  shows "alignment (qscale s q) f = vy (normal f)"
proof -
  have "(qx q)\<^sup>2 + (qy q)\<^sup>2 + (qz q)\<^sup>2 + (qw q)\<^sup>2 = 0"
    using assms by (simp add: qlength_def)
  then have "qx q = 0 \<and> qy q = 0 \<and> qz q = 0 \<and> qw q = 0"
    by (simp add: add_nonneg_eq_0_iff)
  then show ?thesis
    by (simp add: alignment_def applyQuaternion_def dot_def worldUp_def Vector3_def qscale_def
        Let_def)
qed

lemma alignment_identity: "alignment (Quaternion 0 0 0 1) f = vy (normal f)"
  by (simp add: alignment_def applyQuaternion_def dot_def worldUp_def Vector3_def
      Quaternion_def Let_def)

lemma alignment_scaled:
  assumes "0 < s"
  shows "alignment (qscale s q) f
           = (1 - (qlength (qscale s q))\<^sup>2) * vy (normal f)
             + (qlength (qscale s q))\<^sup>2 * alignment (qnormalize q) f"
proof (cases "qlength q = 0")
  case True
  then show ?thesis
    by (simp add: alignment_zero qlength_qscale qnormalize_def alignment_identity)
next
  case False
  let ?l = "qlength q"
  have n: "qnormalize q = qscale (1 / ?l) q" using False by (simp add: qnormalize_def Let_def)
  have "qscale s q = qscale (s * ?l) (qscale (1 / ?l) q)"
    using False by (simp add: qscale_qscale)
  then have "alignment (qscale s q) f
      = (1 - (s * ?l)\<^sup>2) * vy (normal f) + (s * ?l)\<^sup>2 * alignment (qscale (1 / ?l) q) f"
    using alignment_qscale[of "s * ?l" "qscale (1 / ?l) q" f] by simp
  moreover have "qlength (qscale s q) = s * ?l" using assms by (simp add: qlength_qscale)
  ultimately show ?thesis by (simp add: n)
qed

lemma resolved_iff:
  assumes "k < 6"
  shows "getDiceValueFromRotation q = fvalue (faces ! k)
     \<longleftrightarrow> (\<forall>j<6. alignment q (faces ! j) \<le> alignment q (faces ! k))
       \<and> (\<forall>j<k. alignment q (faces ! j) < alignment q (faces ! k))"
proof -
  have l: "length faces = 6" by (simp add: faces_def)
  have ne: "faces \<noteq> []" by (simp add: faces_def)
  from faceStep_first_max[OF ne, of q 1] obtain m where m: "m < 6"
    and f: "foldl (faceStep q) (None, 1) faces = (Some (alignment q (faces ! m)), fvalue (faces ! m))"
    and mx: "\<forall>j<6. alignment q (faces ! j) \<le> alignment q (faces ! m)"
    and s: "\<forall>j<m. alignment q (faces ! j) < alignment q (faces ! m)"
    unfolding l by blast
  have v: "getDiceValueFromRotation q = fvalue (faces ! m)"
    by (simp add: getDiceValueFromRotation_def f)
  show ?thesis
  proof
    assume "getDiceValueFromRotation q = fvalue (faces ! k)"
    with v have e: "fvalue (faces ! m) = fvalue (faces ! k)" by simp
    have lm: "m < length faces" and lk: "k < length faces" using m assms unfolding l by blast+
    have "fvalue (faces ! m) = int m + 1" "fvalue (faces ! k) = int k + 1"
      using faces_values[OF lm] faces_values[OF lk] by blast+
    with e have "int m = int k" by linarith
    then have "m = k" by (rule int_int_eq[THEN iffD1])
    with mx s show "(\<forall>j<6. alignment q (faces ! j) \<le> alignment q (faces ! k))
       \<and> (\<forall>j<k. alignment q (faces ! j) < alignment q (faces ! k))" by simp
  next
    assume a: "(\<forall>j<6. alignment q (faces ! j) \<le> alignment q (faces ! k))
       \<and> (\<forall>j<k. alignment q (faces ! j) < alignment q (faces ! k))"
    have "m = k"
    proof (rule ccontr)
      assume "m \<noteq> k"
      then consider "m < k" | "k < m" by linarith
      then show False
      proof cases
        case 1
        with a have "alignment q (faces ! m) < alignment q (faces ! k)" by blast
        moreover from mx assms have "alignment q (faces ! k) \<le> alignment q (faces ! m)" by blast
        ultimately show ?thesis by simp
      next
        case 2
        with s have "alignment q (faces ! k) < alignment q (faces ! m)" by blast
        moreover from a m have "alignment q (faces ! m) \<le> alignment q (faces ! k)" by blast
        ultimately show ?thesis by simp
      qed
    qed
    with v show "getDiceValueFromRotation q = fvalue (faces ! k)" by simp
  qed
qed

lemma all_less_6: "(\<forall>j<6::nat. P j) \<longleftrightarrow> P 0 \<and> P 1 \<and> P 2 \<and> P 3 \<and> P 4 \<and> P 5"
proof
  assume a: "\<forall>j<6. P j"
  show "P 0 \<and> P 1 \<and> P 2 \<and> P 3 \<and> P 4 \<and> P 5" using a by simp
next
  assume b: "P 0 \<and> P 1 \<and> P 2 \<and> P 3 \<and> P 4 \<and> P 5"
  show "\<forall>j<6. P j"
  proof (intro allI impI)
    fix j :: nat assume "j < 6"
    then consider "j = 0" | "j = 1" | "j = 2" | "j = 3" | "j = 4" | "j = 5" by linarith
    then show "P j" using b by cases simp_all
  qed
qed

lemma faces_vy:
  "vy (normal (faces ! 0)) = 0" "vy (normal (faces ! 1)) = 0" "vy (normal (faces ! 2)) = 1"
  "vy (normal (faces ! 3)) = 0" "vy (normal (faces ! 4)) = 0" "vy (normal (faces ! 5)) = -1"
  "fvalue (faces ! 2) = 3" "fvalue (faces ! 5) = 6"
  by (simp_all add: faces_def Vector3_def)


lemma all_less_small:
  "(\<forall>j<1::nat. P j) \<longleftrightarrow> P 0"
  "(\<forall>j<2::nat. P j) \<longleftrightarrow> P 0 \<and> P 1"
  "(\<forall>j<3::nat. P j) \<longleftrightarrow> P 0 \<and> P 1 \<and> P 2"
  "(\<forall>j<4::nat. P j) \<longleftrightarrow> P 0 \<and> P 1 \<and> P 2 \<and> P 3"
  "(\<forall>j<5::nat. P j) \<longleftrightarrow> P 0 \<and> P 1 \<and> P 2 \<and> P 3 \<and> P 4"
proof -
  have s: "(\<forall>j<Suc n. P j) \<longleftrightarrow> (\<forall>j<n. P j) \<and> P n" for n
    by (auto simp add: less_Suc_eq)
  show 1: "(\<forall>j<1::nat. P j) \<longleftrightarrow> P 0" by simp
  have "(\<forall>j<2::nat. P j) \<longleftrightarrow> (\<forall>j<Suc 1. P j)" by (simp only: Suc_1)
  then show 2: "(\<forall>j<2::nat. P j) \<longleftrightarrow> P 0 \<and> P 1" unfolding s 1 .
  have "(3::nat) = Suc 2" by simp
  then have "(\<forall>j<3::nat. P j) \<longleftrightarrow> (\<forall>j<Suc 2. P j)" by (simp only:)
  then show 3: "(\<forall>j<3::nat. P j) \<longleftrightarrow> P 0 \<and> P 1 \<and> P 2" unfolding s 2 by (simp only: conj_assoc)
  have "(4::nat) = Suc 3" by simp
  then have "(\<forall>j<4::nat. P j) \<longleftrightarrow> (\<forall>j<Suc 3. P j)" by (simp only:)
  then show 4: "(\<forall>j<4::nat. P j) \<longleftrightarrow> P 0 \<and> P 1 \<and> P 2 \<and> P 3"
    unfolding s 3 by (simp only: conj_assoc)
  have "(5::nat) = Suc 4" by simp
  then have "(\<forall>j<5::nat. P j) \<longleftrightarrow> (\<forall>j<Suc 4. P j)" by (simp only:)
  then show "(\<forall>j<5::nat. P j) \<longleftrightarrow> P 0 \<and> P 1 \<and> P 2 \<and> P 3 \<and> P 4"
    unfolding s 4 by (simp only: conj_assoc)
qed

lemma scaled_alignments:
  fixes s :: real and q :: quat
  assumes "0 < s"
  defines "N \<equiv> (qlength (qscale s q))\<^sup>2"
  defines "a \<equiv> (\<lambda>j. alignment (qnormalize q) (faces ! j))"
  shows "alignment (qscale s q) (faces ! 0) = N * a 0"
    and "alignment (qscale s q) (faces ! 1) = N * a 1"
    and "alignment (qscale s q) (faces ! 2) = (1 - N) + N * a 2"
    and "alignment (qscale s q) (faces ! 3) = N * a 3"
    and "alignment (qscale s q) (faces ! 4) = N * a 4"
    and "alignment (qscale s q) (faces ! 5) = (N - 1) + N * a 5"
proof -
  have b: "alignment (qscale s q) (faces ! j) = (1 - N) * vy (normal (faces ! j)) + N * a j" for j
    unfolding N_def a_def by (rule alignment_scaled[OF assms(1)])
  show "alignment (qscale s q) (faces ! 0) = N * a 0" unfolding b faces_vy by simp
  show "alignment (qscale s q) (faces ! 1) = N * a 1" unfolding b faces_vy by simp
  show "alignment (qscale s q) (faces ! 2) = (1 - N) + N * a 2" unfolding b faces_vy by simp
  show "alignment (qscale s q) (faces ! 3) = N * a 3" unfolding b faces_vy by simp
  show "alignment (qscale s q) (faces ! 4) = N * a 4" unfolding b faces_vy by simp
  show "alignment (qscale s q) (faces ! 5) = (N - 1) + N * a 5" unfolding b faces_vy by simp
qed

lemma scaled_top:
  fixes s :: real and q :: quat
  assumes s: "0 < s" and n: "qlength (qscale s q) \<le> 1"
    and r: "getDiceValueFromRotation (qnormalize q) = 3"
  shows "getDiceValueFromRotation (qscale s q) = 3"
proof -
  define N where "N = (qlength (qscale s q))\<^sup>2"
  let ?a = "\<lambda>j. alignment (qnormalize q) (faces ! j)"
  note b = scaled_alignments[OF s, of q, folded N_def]
  have N0: "0 \<le> N" by (simp add: N_def)
  have N1: "N \<le> 1" using n qlength_nonneg[of "qscale s q"] by (simp add: N_def power_le_one)
  have k: "(2::nat) < 6" by simp
  from r have "getDiceValueFromRotation (qnormalize q) = fvalue (faces ! 2)" by (simp add: faces_vy)
  then have m: "?a 0 < ?a 2" "?a 1 < ?a 2" "?a 3 \<le> ?a 2" "?a 4 \<le> ?a 2" "?a 5 \<le> ?a 2"
    unfolding resolved_iff[OF k] all_less_6 all_less_small by simp_all
  have le: "N * ?a j \<le> N * ?a 2" if "?a j \<le> ?a 2" for j
    using that N0 by (rule mult_left_mono)
  have lt: "N * ?a j < (1 - N) + N * ?a 2" if "?a j < ?a 2" for j
  proof (cases "N = 0")
    case True
    then show ?thesis by simp
  next
    case False
    with N0 have "0 < N" by simp
    with that have "N * ?a j < N * ?a 2" by (simp add: mult_strict_left_mono)
    with N1 show ?thesis by simp
  qed
  have "getDiceValueFromRotation (qscale s q) = fvalue (faces ! 2)"
    unfolding resolved_iff[OF k] all_less_6 all_less_small b
    using lt[OF m(1)] lt[OF m(2)] le[OF m(3)] le[OF m(4)] le[OF m(5)] N1 by (intro conjI; linarith)
  then show ?thesis by (simp add: faces_vy)
qed

lemma scaled_bottom:
  fixes s :: real and q :: quat
  assumes s: "0 < s" and n: "1 \<le> qlength (qscale s q)"
    and r: "getDiceValueFromRotation (qnormalize q) = 6"
  shows "getDiceValueFromRotation (qscale s q) = 6"
proof -
  define N where "N = (qlength (qscale s q))\<^sup>2"
  let ?a = "\<lambda>j. alignment (qnormalize q) (faces ! j)"
  note b = scaled_alignments[OF s, of q, folded N_def]
  have N1: "1 \<le> N" using n by (simp add: N_def)
  then have Np: "0 < N" by simp
  have k: "(5::nat) < 6" by simp
  from r have "getDiceValueFromRotation (qnormalize q) = fvalue (faces ! 5)" by (simp add: faces_vy)
  then have m: "?a 0 < ?a 5" "?a 1 < ?a 5" "?a 2 < ?a 5" "?a 3 < ?a 5" "?a 4 < ?a 5"
    unfolding resolved_iff[OF k] all_less_6 all_less_small by simp_all
  have lt: "N * ?a j < N * ?a 5" if "?a j < ?a 5" for j
    using that Np by (simp add: mult_strict_left_mono)
  have "getDiceValueFromRotation (qscale s q) = fvalue (faces ! 5)"
    unfolding resolved_iff[OF k] all_less_6 all_less_small b
    using lt[OF m(1)] lt[OF m(2)] lt[OF m(3)] lt[OF m(4)] lt[OF m(5)] N1 by (intro conjI; linarith)
  then show ?thesis by (simp add: faces_vy)
qed

lemma scaled_side:
  fixes s :: real and q :: quat
  assumes s: "0 < s" and nz: "0 < qlength q" and k: "k \<in> {0, 1, 3, 4}"
    and r: "getDiceValueFromRotation (qnormalize q) = fvalue (faces ! k)"
    and top: "1 - (qlength (qscale s q))\<^sup>2
                < (qlength (qscale s q))\<^sup>2
                  * (alignment (qnormalize q) (faces ! k) - alignment (qnormalize q) (faces ! 2))"
    and bot: "(qlength (qscale s q))\<^sup>2 - 1
                < (qlength (qscale s q))\<^sup>2
                  * (alignment (qnormalize q) (faces ! k) - alignment (qnormalize q) (faces ! 5))"
  shows "getDiceValueFromRotation (qscale s q) = fvalue (faces ! k)"
proof -
  define N where "N = (qlength (qscale s q))\<^sup>2"
  let ?a = "\<lambda>j. alignment (qnormalize q) (faces ! j)"
  note b = scaled_alignments[OF s, of q, folded N_def]
  have "0 < qlength (qscale s q)" using s nz by (simp add: qlength_qscale)
  then have Np: "0 < N" by (simp add: N_def)
  have t: "1 - N < N * ?a k - N * ?a 2" using top by (simp add: N_def algebra_simps)
  have u: "N - 1 < N * ?a k - N * ?a 5" using bot by (simp add: N_def algebra_simps)
  have le: "N * ?a i \<le> N * ?a j" if "?a i \<le> ?a j" for i j
    using that Np by (simp add: mult_left_mono)
  have lt: "N * ?a i < N * ?a j" if "?a i < ?a j" for i j
    using that Np by (simp add: mult_strict_left_mono)
  from k consider "k = 0" | "k = 1" | "k = 3" | "k = 4" by blast
  then show ?thesis
  proof cases
    case 1
    have k6: "(0::nat) < 6" by simp
    from r have m: "?a 1 \<le> ?a 0" "?a 3 \<le> ?a 0" "?a 4 \<le> ?a 0"
      unfolding 1 resolved_iff[OF k6] all_less_6 by simp_all
    show ?thesis
      unfolding 1 resolved_iff[OF k6] all_less_6 b
      using le[OF m(1)] le[OF m(2)] le[OF m(3)] t u unfolding 1 by (intro conjI; linarith)
  next
    case 2
    have k6: "(1::nat) < 6" by simp
    from r have m: "?a 0 < ?a 1" "?a 3 \<le> ?a 1" "?a 4 \<le> ?a 1"
      unfolding 2 resolved_iff[OF k6] all_less_6 all_less_small by simp_all
    show ?thesis
      unfolding 2 resolved_iff[OF k6] all_less_6 all_less_small b
      using lt[OF m(1)] le[OF m(2)] le[OF m(3)] t u unfolding 2 by (intro conjI; linarith)
  next
    case 3
    have k6: "(3::nat) < 6" by simp
    from r have m: "?a 0 < ?a 3" "?a 1 < ?a 3" "?a 4 \<le> ?a 3"
      unfolding 3 resolved_iff[OF k6] all_less_6 all_less_small by simp_all
    show ?thesis
      unfolding 3 resolved_iff[OF k6] all_less_6 all_less_small b
      using lt[OF m(1)] lt[OF m(2)] le[OF m(3)] t u unfolding 3 by (intro conjI; linarith)
  next
    case 4
    have k6: "(4::nat) < 6" by simp
    from r have m: "?a 0 < ?a 4" "?a 1 < ?a 4" "?a 3 < ?a 4"
      unfolding 4 resolved_iff[OF k6] all_less_6 all_less_small by simp_all
    show ?thesis
      unfolding 4 resolved_iff[OF k6] all_less_6 all_less_small b
      using lt[OF m(1)] lt[OF m(2)] lt[OF m(3)] t u unfolding 4 by (intro conjI; linarith)
  qed
qed

text \<open>
  Claim C7, amended. The resolver applies the rotation formula to the quaternion as it
  is given, without normalising. For a quaternion \<open>s \<cdot> q\<close> with \<open>s > 0\<close> and length
  \<open>n\<close>, the alignment of a face is \<open>(1 - n\<^sup>2)\<close> times the y component of the face's own
  normal plus \<open>n\<^sup>2\<close> times its alignment under the normalised \<open>q\<close>: against the
  normalised quaternion the side faces keep their order, the top face (3) gains
  \<open>1 - n\<^sup>2\<close> and the bottom face (6) loses it. So the face value of \<open>s \<cdot> q\<close> is that
  of the normalised \<open>q\<close> when \<open>n = 1\<close>; when the normalised \<open>q\<close> resolves to 3 and
  \<open>n \<le> 1\<close>; when it resolves to 6 and \<open>n \<ge> 1\<close>; and when it resolves to a side face
  whose lead over the top face, times \<open>n\<^sup>2\<close>, is more than \<open>1 - n\<^sup>2\<close> and whose lead over
  the bottom face, times \<open>n\<^sup>2\<close>, is more than \<open>n\<^sup>2 - 1\<close>.
\<close>

theorem scaled_quaternion_resolved:
  assumes "0 < s"
  shows "alignment (qscale s q) f
           = (1 - (qlength (qscale s q))\<^sup>2) * vy (normal f)
             + (qlength (qscale s q))\<^sup>2 * alignment (qnormalize q) f
       \<and> (qlength (qscale s q) = 1 \<longrightarrow>
            getDiceValueFromRotation (qscale s q) = getDiceValueFromRotation (qnormalize q))
       \<and> (qlength (qscale s q) \<le> 1 \<longrightarrow> getDiceValueFromRotation (qnormalize q) = 3 \<longrightarrow>
            getDiceValueFromRotation (qscale s q) = 3)
       \<and> (1 \<le> qlength (qscale s q) \<longrightarrow> getDiceValueFromRotation (qnormalize q) = 6 \<longrightarrow>
            getDiceValueFromRotation (qscale s q) = 6)
       \<and> (k \<in> {0, 1, 3, 4} \<longrightarrow> 0 < qlength q \<longrightarrow>
            getDiceValueFromRotation (qnormalize q) = fvalue (faces ! k) \<longrightarrow>
            1 - (qlength (qscale s q))\<^sup>2
              < (qlength (qscale s q))\<^sup>2
                * (alignment (qnormalize q) (faces ! k) - alignment (qnormalize q) (faces ! 2)) \<longrightarrow>
            (qlength (qscale s q))\<^sup>2 - 1
              < (qlength (qscale s q))\<^sup>2
                * (alignment (qnormalize q) (faces ! k) - alignment (qnormalize q) (faces ! 5)) \<longrightarrow>
            getDiceValueFromRotation (qscale s q) = fvalue (faces ! k))"
proof (intro conjI impI)
  show "alignment (qscale s q) f
           = (1 - (qlength (qscale s q))\<^sup>2) * vy (normal f)
             + (qlength (qscale s q))\<^sup>2 * alignment (qnormalize q) f"
    by (rule alignment_scaled[OF assms])
  show "getDiceValueFromRotation (qscale s q) = getDiceValueFromRotation (qnormalize q)"
    if u: "qlength (qscale s q) = 1"
  proof -
    have sl: "s * qlength q = 1" using assms u by (simp add: qlength_qscale)
    then have nz: "qlength q \<noteq> 0" by auto
    from sl nz have "1 / qlength q = s" by (simp add: field_simps)
    then have "qnormalize q = qscale s q"
      using nz by (simp add: qnormalize_def Let_def)
    then show ?thesis by simp
  qed
  show "getDiceValueFromRotation (qscale s q) = 3"
    if "qlength (qscale s q) \<le> 1" "getDiceValueFromRotation (qnormalize q) = 3"
    using assms that by (rule scaled_top)
  show "getDiceValueFromRotation (qscale s q) = 6"
    if "1 \<le> qlength (qscale s q)" "getDiceValueFromRotation (qnormalize q) = 6"
    using assms that by (rule scaled_bottom)
  show "getDiceValueFromRotation (qscale s q) = fvalue (faces ! k)"
    if "k \<in> {0, 1, 3, 4}" "0 < qlength q"
      "getDiceValueFromRotation (qnormalize q) = fvalue (faces ! k)"
      "1 - (qlength (qscale s q))\<^sup>2
              < (qlength (qscale s q))\<^sup>2
                * (alignment (qnormalize q) (faces ! k) - alignment (qnormalize q) (faces ! 2))"
      "(qlength (qscale s q))\<^sup>2 - 1
              < (qlength (qscale s q))\<^sup>2
                * (alignment (qnormalize q) (faces ! k) - alignment (qnormalize q) (faces ! 5))"
    using assms that(2,1,3,4,5) by (rule scaled_side)
qed

lemma qnormalize_unit: "qlength q = 1 \<Longrightarrow> qnormalize q = q"
  by (simp add: qnormalize_def qscale_def)

lemma canon_length:
  "qlength rotY_up = 1" "qlength rotYneg_up = 1" "qlength rotZ_up = 1"
  by (simp_all add: qlength_def rotY_up_def rotYneg_up_def rotZ_up_def Quaternion_def
      power_divide)

lemma rotZ_up_alignments:
  "alignment rotZ_up (faces ! 0) = 1" "alignment rotZ_up (faces ! 2) = 0"
  "alignment rotZ_up (faces ! 5) = 0"
  by (simp_all add: alignment_def applyQuaternion_def dot_def worldUp_def Vector3_def
      Quaternion_def rotZ_up_def faces_def Let_def)

theorem scaled_quaternion_resolved_witness:
  "(0::real) < 1 / 2 \<and> qlength (qscale (1 / 2) rotY_up) \<le> 1
   \<and> getDiceValueFromRotation (qnormalize rotY_up) = 3
   \<and> getDiceValueFromRotation (qscale (1 / 2) rotY_up) = 3
   \<and> (0::real) < 2 \<and> 1 \<le> qlength (qscale 2 rotYneg_up)
   \<and> getDiceValueFromRotation (qnormalize rotYneg_up) = 6
   \<and> getDiceValueFromRotation (qscale 2 rotYneg_up) = 6
   \<and> (0::nat) \<in> {0, 1, 3, 4} \<and> 0 < qlength rotZ_up
   \<and> getDiceValueFromRotation (qnormalize rotZ_up) = fvalue (faces ! 0)
   \<and> getDiceValueFromRotation (qscale 2 rotZ_up) = 1"
proof -
  have h: "(0::real) < 1 / 2" and t: "(0::real) < 2" by simp_all
  have n: "qnormalize rotY_up = rotY_up" "qnormalize rotYneg_up = rotYneg_up"
    "qnormalize rotZ_up = rotZ_up"
    by (simp_all add: qnormalize_unit canon_length)
  have l: "qlength (qscale (1 / 2) rotY_up) = 1 / 2" "qlength (qscale 2 rotYneg_up) = 2"
    "qlength (qscale 2 rotZ_up) = 2"
    by (simp_all add: qlength_qscale canon_length)
  have v: "fvalue (faces ! 0) = 1" by (simp add: faces_def)
  have a: "getDiceValueFromRotation (qscale (1 / 2) rotY_up) = 3"
    using scaled_quaternion_resolved[OF h, of rotY_up] by (simp add: l n canon)
  have b: "getDiceValueFromRotation (qscale 2 rotYneg_up) = 6"
    using scaled_quaternion_resolved[OF t, of rotYneg_up] by (simp add: l n canon)
  have c: "getDiceValueFromRotation (qscale 2 rotZ_up) = 1"
    using scaled_quaternion_resolved[OF t, of rotZ_up _ 0]
    by (simp add: l n canon canon_length rotZ_up_alignments v)
  from a b c show ?thesis by (simp add: l n canon canon_length v)
qed

section \<open>The container: counting settled dice\<close>

lemma handleDiceStable_count:
  "stableDiceCount (fst (handleDiceStable now i v s)) = stableDiceCount (fst s) + 1"
  by (simp add: handleDiceStable_def Let_def)

lemma coordStep_count:
  "stableDiceCount (fst (fst (coordStep r e)))
     = stableDiceCount (fst (fst r)) + (if isSettled e then 1 else 0)"
proof (cases r)
  case (Pair s n)
  then show ?thesis
    by (cases e)
       (simp_all add: isSettled_def handleDiceStable_count completionCb_def split: list.split)
qed

lemma coordRun_count:
  "stableDiceCount (fst (fst (coordRun s es)))
     = stableDiceCount (fst s) + length (filter isSettled es)"
proof (induction es rule: rev_induct)
  case Nil
  then show ?case by (simp add: coordRun_def)
next
  case (snoc e es)
  have "coordRun s (es @ [e]) = coordStep (coordRun s es) e"
    by (simp add: coordRun_def)
  then show ?case using snoc by (simp add: coordStep_count)
qed

text \<open>
  Claim C3 says that a second \<^verbatim>\<open>settled\<close> notification for the same index is ignored.
  \<^verbatim>\<open>handleDiceStable\<close> has no guard on the index: two notifications of die 0 count 2,
  and five notifications of die 0 alone schedule the completion.
\<close>

theorem handleDiceStable_duplicate_counterexample:
  "stableDiceCount (fst (fst (coordRun (handleReset 0 (initialContainer, noTimers))
      [Settled 2100 0 3, Settled 2100 0 3]))) = 2
   \<and> card (settledIndex ` set [Settled 2100 0 3, Settled 2100 0 3]) = 1
   \<and> completionTimers (snd (fst (coordRun (handleReset 0 (initialContainer, noTimers))
      [Settled 2100 0 3, Settled 2100 0 3, Settled 2100 0 3, Settled 2100 0 3, Settled 2100 0 3])))
      \<noteq> []"
  by (simp add: coordRun_def handleReset_def handleDiceStable_def initialContainer_def
      noTimers_def clearRef_def setTimeout_def Let_def diceCount_def settledIndex_def
      completionTimers_def)

text \<open>
  Claim C3, amended. Within one session the settled count grows by exactly one with
  every \<^verbatim>\<open>settled\<close> notification that is delivered; the container keeps no record of
  which indices have reported. The count therefore equals the number of distinct bodies
  that have settled whenever no index is notified twice (each die calls \<^verbatim>\<open>onStable\<close> at
  most once per roll, by its lock flag).
\<close>

theorem stableDiceCount_counts_notifications:
  "stableDiceCount (fst (fst (coordRun s es)))
     = stableDiceCount (fst s) + length (filter isSettled es)
   \<and> (distinct (map settledIndex (filter isSettled es)) \<longrightarrow>
        stableDiceCount (fst (fst (coordRun s es)))
          = stableDiceCount (fst s) + card (settledIndex ` set (filter isSettled es)))"
proof (intro conjI impI)
  show "stableDiceCount (fst (fst (coordRun s es)))
     = stableDiceCount (fst s) + length (filter isSettled es)"
    by (rule coordRun_count)
next
  assume d: "distinct (map settledIndex (filter isSettled es))"
  have "card (settledIndex ` set (filter isSettled es))
          = length (map settledIndex (filter isSettled es))"
    using distinct_card[OF d] by simp
  then show "stableDiceCount (fst (fst (coordRun s es)))
          = stableDiceCount (fst s) + card (settledIndex ` set (filter isSettled es))"
    by (simp add: coordRun_count)
qed

theorem stableDiceCount_counts_notifications_witness:
  "distinct (map settledIndex (filter isSettled [Settled 2100 3 6, CompletionFires, Settled 2200 1 2]))
   \<and> stableDiceCount (fst (fst (coordRun (handleReset 0 (initialContainer, noTimers))
        [Settled 2100 3 6, CompletionFires, Settled 2200 1 2]))) = 2
   \<and> card (settledIndex ` set (filter isSettled [Settled 2100 3 6, CompletionFires, Settled 2200 1 2])) = 2"
proof -
  let ?es = "[Settled 2100 3 6, CompletionFires, Settled 2200 1 2]"
  have d: "distinct (map settledIndex (filter isSettled ?es))"
    by (simp add: isSettled_def settledIndex_def)
  have z: "stableDiceCount (fst (handleReset 0 (initialContainer, noTimers))) = 0"
    by (simp add: handleReset_def initialContainer_def Let_def)
  have c: "card (settledIndex ` set (filter isSettled ?es)) = 2"
    by (simp add: isSettled_def settledIndex_def)
  from stableDiceCount_counts_notifications[of "handleReset 0 (initialContainer, noTimers)" ?es] d
  have "stableDiceCount (fst (fst (coordRun (handleReset 0 (initialContainer, noTimers)) ?es)))
          = stableDiceCount (fst (handleReset 0 (initialContainer, noTimers)))
            + card (settledIndex ` set (filter isSettled ?es))"
    by blast
  with d z c show ?thesis by simp
qed

section \<open>The container: the completion fires once\<close>

lemma isSettled_simps:
  "isSettled (Settled now i v)" "\<not> isSettled CompletionFires"
  by (simp_all add: isSettled_def)

lemma completionTimers_setTimeout:
  "completionTimers (snd (setTimeout c delay now tt))
     = completionTimers tt @
         (if c = CompletionCb
          then [\<lparr>tid = nextId tt, due = now + delay, period = None, cb = c\<rparr>] else [])"
  by (simp add: completionTimers_def setTimeout_def)

lemma handleDiceStable_fifth:
  assumes "stableDiceCount (fst s) = 4" "\<not> hasCalculatedPoints (fst s)"
  shows "completionTimers (snd (handleDiceStable now i v s))
           = completionTimers (snd s)
             @ [\<lparr>tid = nextId (snd s), due = now + 100, period = None, cb = CompletionCb\<rparr>]"
    and "hasCalculatedPoints (fst (handleDiceStable now i v s))"
  using assms
  by (simp_all add: handleDiceStable_def Let_def diceCount_def completionTimers_setTimeout)

lemma handleDiceStable_other:
  assumes "stableDiceCount (fst s) \<noteq> 4 \<or> hasCalculatedPoints (fst s)"
  shows "snd (handleDiceStable now i v s) = snd s"
    and "hasCalculatedPoints (fst (handleDiceStable now i v s)) = hasCalculatedPoints (fst s)"
  using assms
  by (auto simp add: handleDiceStable_def Let_def diceCount_def)

lemma sessionInv_settled:
  assumes "sessionInv (s, k) n"
  shows "sessionInv (coordStep (s, k) (Settled now i v)) (n + 1)"
proof (cases "n = 4")
  case True
  with assms have a: "stableDiceCount (fst s) = 4" "\<not> hasCalculatedPoints (fst s)"
    and z: "k + length (completionTimers (snd s)) = 0"
    by (simp_all add: sessionInv_def)
  show ?thesis
    using True z handleDiceStable_fifth[OF a, of now i v]
    by (simp add: sessionInv_def handleDiceStable_count a(1))
next
  case False
  with assms have a: "stableDiceCount (fst s) \<noteq> 4 \<or> hasCalculatedPoints (fst s)"
    by (simp add: sessionInv_def)
  show ?thesis
    using False assms handleDiceStable_other[OF a, of now i v]
    by (auto simp add: sessionInv_def handleDiceStable_count)
qed

lemma completionTimers_clear_single:
  assumes "completionTimers tt = [t]"
  shows "completionTimers (clearTimer (tid t) tt) = []"
proof -
  have "filter (\<lambda>u. tid u \<noteq> tid t) (completionTimers tt) = []"
    using assms by simp
  then show ?thesis
    by (simp add: completionTimers_def clearTimer_def conj_commute)
qed

lemma sessionInv_fires:
  assumes "sessionInv (s, k) n"
  shows "sessionInv (coordStep (s, k) CompletionFires) n"
proof (cases "completionTimers (snd s)")
  case Nil
  then show ?thesis using assms by simp
next
  case (Cons t ts)
  with assms have "ts = []" and k: "k = 0" and n: "5 \<le> n"
    by (auto simp add: sessionInv_def split: if_splits)
  with Cons have single: "completionTimers (snd s) = [t]" by simp
  show ?thesis
    using assms single completionTimers_clear_single[OF single] k n
    by (simp add: sessionInv_def completionCb_def)
qed

lemma sessionInv_run:
  assumes "sessionInv (s, 0) n"
  shows "sessionInv (coordRun s es) (n + length (filter isSettled es))"
proof (induction es rule: rev_induct)
  case Nil
  then show ?case using assms by (simp add: coordRun_def)
next
  case (snoc e es)
  obtain s' k where r: "coordRun s es = (s', k)" by (cases "coordRun s es")
  have step: "coordRun s (es @ [e]) = coordStep (s', k) e"
    using r by (simp add: coordRun_def)
  show ?case
  proof (cases e)
    case (Settled now i v)
    then show ?thesis
      using snoc r step sessionInv_settled[of s' k "n + length (filter isSettled es)" now i v]
      by (simp add: isSettled_simps)
  next
    case CompletionFires
    then show ?thesis
      using snoc r step sessionInv_fires[of s' k "n + length (filter isSettled es)"]
      by (simp add: isSettled_simps)
  qed
qed

lemma coordRun_snoc: "coordRun s (es @ [e]) = coordStep (coordRun s es) e"
  by (simp add: coordRun_def)



section \<open>One die: the lock is one-shot\<close>

lemma locked_noop:
  assumes "isLocked d"
  shows "lockDicePhysics d = (d, [])" and "checkStability now d = (d, [])"
    and "forceLockCb d = (d, [])" and "dampingCb (d, tt) = (d, tt)"
  using assms
  by (simp_all add: lockDicePhysics_def checkStability_def forceLockCb_def dampingCb_def
      split: option.split)

lemma lockDicePhysics_once:
  "snd (lockDicePhysics d) = [] \<or> (isLocked (fst (lockDicePhysics d)) \<and> length (snd (lockDicePhysics d)) = 1)"
  by (simp add: lockDicePhysics_def Let_def split: option.split)

lemma checkStability_once:
  "snd (checkStability now d) = []
   \<or> (isLocked (fst (checkStability now d)) \<and> length (snd (checkStability now d)) = 1)"
proof (cases "diceRef d")
  case None
  then show ?thesis by (simp add: checkStability_def)
next
  case (Some rb)
  show ?thesis
  proof (cases "isLocked d")
    case True
    then show ?thesis by (simp add: locked_noop)
  next
    case False
    show ?thesis
      unfolding checkStability_notifies[OF Some False] by simp
  qed
qed

lemma forceLockCb_once:
  "snd (forceLockCb d) = [] \<or> (isLocked (fst (forceLockCb d)) \<and> length (snd (forceLockCb d)) = 1)"
  using lockDicePhysics_once[of d] by (simp add: forceLockCb_def)

lemma bodyStep_locked:
  assumes "isLocked (fst s)"
  shows "isLocked (fst (fst (bodyStep s e)))" and "snd (bodyStep s e) = []"
proof -
  obtain d tt where s: "s = (d, tt)" by (cases s)
  with assms have l: "isLocked d" by simp
  show "isLocked (fst (fst (bodyStep s e)))"
    using l by (cases e) (simp_all add: s locked_noop)
  show "snd (bodyStep s e) = []"
    using l by (cases e) (simp_all add: s locked_noop)
qed

lemma bodyStep_once:
  "snd (bodyStep s e) = [] \<or> (isLocked (fst (fst (bodyStep s e))) \<and> length (snd (bodyStep s e)) = 1)"
proof -
  obtain d tt where s: "s = (d, tt)" by (cases s)
  show ?thesis
  proof (cases e)
    case (Moves f)
    then show ?thesis by (simp add: s)
  next
    case (CheckTick now)
    then show ?thesis using checkStability_once[of now d] by (simp add: s Let_def)
  next
    case DampingTick
    then show ?thesis by (simp add: s)
  next
    case ForcedTimeout
    then show ?thesis using forceLockCb_once[of d] by (simp add: s Let_def)
  next
    case Freeze
    then show ?thesis using lockDicePhysics_once[of d] by (simp add: s Let_def)
  qed
qed

lemma bodyRun_locked:
  "isLocked (fst s) \<Longrightarrow> snd (bodyRun s es) = [] \<and> isLocked (fst (fst (bodyRun s es)))"
proof (induction es arbitrary: s)
  case Nil
  then show ?case by simp
next
  case (Cons e es)
  from bodyStep_locked[OF Cons.prems, of e]
  have l: "isLocked (fst (fst (bodyStep s e)))" and n: "snd (bodyStep s e) = []" by simp_all
  from Cons.IH[OF l] n show ?case by (simp add: Let_def)
qed

lemma bodyRun_once: "length (snd (bodyRun s es)) \<le> 1"
proof (induction es arbitrary: s)
  case Nil
  then show ?case by simp
next
  case (Cons e es)
  from bodyStep_once[of s e] show ?case
  proof
    assume "snd (bodyStep s e) = []"
    then show ?thesis using Cons.IH[of "fst (bodyStep s e)"] by (simp add: Let_def)
  next
    assume a: "isLocked (fst (fst (bodyStep s e))) \<and> length (snd (bodyStep s e)) = 1"
    then have "snd (bodyRun (fst (bodyStep s e)) es) = []"
      using bodyRun_locked by blast
    with a show ?thesis by (simp add: Let_def)
  qed
qed

text \<open>
  Claim C6. Once the lock flag of a die is set, \<^verbatim>\<open>lockDicePhysics\<close>, \<^verbatim>\<open>checkStability\<close>
  and the callback of the forced timeout leave the die as it is and call \<^verbatim>\<open>onStable\<close>
  no more. Whatever the engine does, and in whatever order the check interval, the
  damping interval, the forced timeout and direct calls of \<^verbatim>\<open>lockDicePhysics\<close> run
  after a respawn, \<^verbatim>\<open>onStable\<close> is called at most once, and not at all when the die
  was locked already: the detector and the timeout never both report.
\<close>

theorem lock_is_one_shot:
  "(isLocked d \<longrightarrow>
       lockDicePhysics d = (d, []) \<and> checkStability now d = (d, []) \<and> forceLockCb d = (d, []))
   \<and> length (snd (bodyRun (d, tt) es)) \<le> 1
   \<and> (isLocked d \<longrightarrow> snd (bodyRun (d, tt) es) = [])"
  using locked_noop(1)[of d] locked_noop(2)[of d now] locked_noop(3)[of d] bodyRun_once[of "(d, tt)" es] bodyRun_locked[of "(d, tt)" es]
  by simp

theorem lock_is_one_shot_witness:
  "isLocked lockedDice
   \<and> lockDicePhysics lockedDice = (lockedDice, [])
   \<and> checkStability 3200 lockedDice = (lockedDice, [])
   \<and> forceLockCb lockedDice = (lockedDice, [])
   \<and> snd (bodyRun (lockedDice, noTimers) [ForcedTimeout, CheckTick 3200, Freeze]) = []"
proof -
  have l: "isLocked lockedDice"
    by (simp add: lockedDice_def lockDicePhysics_def initialDice_def Let_def)
  from lock_is_one_shot[of lockedDice 3200 noTimers "[ForcedTimeout, CheckTick 3200, Freeze]"] l
  show ?thesis by blast
qed

section \<open>One die: the reset effect\<close>

lemma pending_clearRef: "set (pending (clearRef r tt)) \<subseteq> set (pending tt)"
  by (cases r) (auto simp add: clearRef_def clearTimer_def)

lemma nextId_clearRef: "nextId (clearRef r tt) = nextId tt"
  by (cases r) (simp_all add: clearRef_def clearTimer_def)

lemma effectCleanup_keeps:
  "fst (effectCleanup s) = fst s"
  "nextId (snd (effectCleanup s)) = nextId (snd s)"
  "set (pending (snd (effectCleanup s))) \<subseteq> set (pending (snd s))"
proof -
  show "fst (effectCleanup s) = fst s" by (simp add: effectCleanup_def Let_def)
  show "nextId (snd (effectCleanup s)) = nextId (snd s)"
    by (simp add: effectCleanup_def Let_def nextId_clearRef)
  show "set (pending (snd (effectCleanup s))) \<subseteq> set (pending (snd s))"
    unfolding effectCleanup_def Let_def snd_conv
    using pending_clearRef by (meson subset_trans)
qed

lemma resetEffect_same:
  assumes "rc = 0 \<or> rc = lastResetCount (fst s)"
  shows "resetEffect rc now s = s"
  using assms by (auto simp add: resetEffect_def Let_def)

text \<open>
  The reset effect of a die acts only when \<^verbatim>\<open>resetCount\<close> is positive and differs
  from the value it processed last. When the same value is delivered again (or the
  value is 0) the effect body changes nothing; the cleanup of the previous effect
  followed by the effect body leaves every ref of the die as it was, among them the lock
  flag, the position history and the damping, and starts no timer: no identifier is
  handed out and no pending timer is new. When the value is positive and new, the effect
  records it, clears the lock flag and the history and schedules the start timer.
\<close>

lemma resetEffect_guard:
  "(rc = 0 \<or> rc = lastResetCount (fst s) \<longrightarrow>
       resetEffect rc now s = s
     \<and> fst (resetEffect rc now (effectCleanup s)) = fst s
     \<and> nextId (snd (resetEffect rc now (effectCleanup s))) = nextId (snd s)
     \<and> set (pending (snd (resetEffect rc now (effectCleanup s)))) \<subseteq> set (pending (snd s)))
   \<and> (0 < rc \<and> rc \<noteq> lastResetCount (fst s) \<longrightarrow>
       lastResetCount (fst (resetEffect rc now s)) = rc
     \<and> \<not> isLocked (fst (resetEffect rc now s))
     \<and> positionHistory (fst (resetEffect rc now s)) = []
     \<and> last (pending (snd (resetEffect rc now s)))
         = \<lparr>tid = nextId (snd s), due = now + startDelay (fst s), period = None,
            cb = StartCb (index (fst s))\<rparr>)"
proof (intro conjI impI)
  assume a: "rc = 0 \<or> rc = lastResetCount (fst s)"
  then have b: "rc = 0 \<or> rc = lastResetCount (fst (effectCleanup s))"
    by (simp add: effectCleanup_keeps(1))
  show "resetEffect rc now s = s" by (rule resetEffect_same[OF a])
  show "fst (resetEffect rc now (effectCleanup s)) = fst s"
    by (simp add: resetEffect_same[OF b] effectCleanup_keeps(1))
  show "nextId (snd (resetEffect rc now (effectCleanup s))) = nextId (snd s)"
    by (simp add: resetEffect_same[OF b] effectCleanup_keeps(2))
  show "set (pending (snd (resetEffect rc now (effectCleanup s)))) \<subseteq> set (pending (snd s))"
    by (simp add: resetEffect_same[OF b] effectCleanup_keeps(3))
next
  assume a: "0 < rc \<and> rc \<noteq> lastResetCount (fst s)"
  then show "lastResetCount (fst (resetEffect rc now s)) = rc"
    and "\<not> isLocked (fst (resetEffect rc now s))"
    and "positionHistory (fst (resetEffect rc now s)) = []"
    and "last (pending (snd (resetEffect rc now s)))
         = \<lparr>tid = nextId (snd s), due = now + startDelay (fst s), period = None,
            cb = StartCb (index (fst s))\<rparr>"
    by (simp_all add: resetEffect_def Let_def setTimeout_def nextId_clearRef)
qed

lemma checkStability_keeps:
  "timerRef (fst (checkStability now d)) = timerRef d"
  "stabilityTimerRef (fst (checkStability now d)) = stabilityTimerRef d"
  "gradualDampingRef (fst (checkStability now d)) = gradualDampingRef d"
  "stabilityCheckRef (fst (checkStability now d)) = stabilityCheckRef d"
  "lastResetCount (fst (checkStability now d)) = lastResetCount d"
proof -
  have l: "timerRef (fst (lockDicePhysics e)) = timerRef e
     \<and> stabilityTimerRef (fst (lockDicePhysics e)) = stabilityTimerRef e
     \<and> gradualDampingRef (fst (lockDicePhysics e)) = gradualDampingRef e
     \<and> stabilityCheckRef (fst (lockDicePhysics e)) = stabilityCheckRef e
     \<and> lastResetCount (fst (lockDicePhysics e)) = lastResetCount e" for e
    by (simp add: lockDicePhysics_def Let_def split: option.split)
  have "timerRef (fst (checkStability now d)) = timerRef d
     \<and> stabilityTimerRef (fst (checkStability now d)) = stabilityTimerRef d
     \<and> gradualDampingRef (fst (checkStability now d)) = gradualDampingRef d
     \<and> stabilityCheckRef (fst (checkStability now d)) = stabilityCheckRef d
     \<and> lastResetCount (fst (checkStability now d)) = lastResetCount d"
  proof (cases "isLocked d")
    case True
    then show ?thesis by (simp add: locked_noop)
  next
    case False
    show ?thesis
    proof (cases "diceRef d")
      case None
      then show ?thesis by (simp add: checkStability_def)
    next
      case (Some rb)
      let ?d1 = "d\<lparr>positionHistory := pushed d rb now\<rparr>"
      have "checkStability now d = lockDicePhysics ?d1 \<or> checkStability now d = (?d1, [])"
        unfolding checkStability_eq[OF Some False] by (meson if_P if_not_P)
      then show ?thesis
      proof
        assume "checkStability now d = lockDicePhysics ?d1"
        then show ?thesis using l[of ?d1] by simp
      next
        assume "checkStability now d = (?d1, [])"
        then show ?thesis by simp
      qed
    qed
  qed
  then show "timerRef (fst (checkStability now d)) = timerRef d"
    "stabilityTimerRef (fst (checkStability now d)) = stabilityTimerRef d"
    "gradualDampingRef (fst (checkStability now d)) = gradualDampingRef d"
    "stabilityCheckRef (fst (checkStability now d)) = stabilityCheckRef d"
    "lastResetCount (fst (checkStability now d)) = lastResetCount d"
    by blast+
qed

lemma rollingDice_table:
  "snd rollingDice
     = \<lparr>pending = [\<lparr>tid = 3, due = 3100, period = None, cb = ForceLockCb 0\<rparr>,
                   \<lparr>tid = 4, due = 1700, period = Some 100, cb = DampingCb 0\<rparr>,
                   \<lparr>tid = 5, due = 1800, period = Some 100, cb = CheckCb 0\<rparr>],
        nextId = 6\<rparr>"
  by (simp add: rollingDice_def resetEffect_def startCb_def stabilityCb_def
      initialDice_def noTimers_def setTimeout_def setInterval_def
      clearRef_def rearm_def Let_def restingBody_def)

lemma rollingDice_refs:
  "timerRef (fst rollingDice) = None" "stabilityTimerRef (fst rollingDice) = None"
  "gradualDampingRef (fst rollingDice) = Some 4" "stabilityCheckRef (fst rollingDice) = Some 5"
  "lastResetCount (fst rollingDice) = 1"
  by (simp_all add: rollingDice_def checkStability_keeps resetEffect_def startCb_def
      stabilityCb_def initialDice_def noTimers_def setTimeout_def setInterval_def
      clearRef_def rearm_def Let_def restingBody_def)

text \<open>
  Claim C10 says that delivering an unchanged \<^verbatim>\<open>resetCount\<close> to a die again, by a
  repeated render, is a no-op. The effect body is (it is guarded by the comparison with
  the count processed last), but React runs the cleanup of the previous effect before
  it, whenever a dependency has changed, and the container passes a fresh
  \<^verbatim>\<open>position\<close> array with every render. The cleanup, which its comment describes as
  clearing the timers when the component is unmounted, cancels the timers held in the
  refs. For the first die in the middle of its roll, a render with the same count
  cancels the damping and the check interval and leaves only the forced lock; for a die
  that waits for its start timer, it cancels the start timer, and nothing is pending any
  more. The refs, the lock flag and the history stay as they are.
\<close>

theorem rerender_same_count_cancels_timers:
  "lastResetCount (fst rollingDice) = 1
   \<and> map cb (pending (snd rollingDice)) = [ForceLockCb 0, DampingCb 0, CheckCb 0]
   \<and> map cb (pending (snd (resetEffect 1 1750 (effectCleanup rollingDice)))) = [ForceLockCb 0]
   \<and> fst (resetEffect 1 1750 (effectCleanup rollingDice)) = fst rollingDice
   \<and> lastResetCount (fst (resetEffect 1 0 (initialDice 0, noTimers))) = 1
   \<and> map cb (pending (snd (resetEffect 1 0 (initialDice 0, noTimers)))) = [StartCb 0]
   \<and> pending (snd (resetEffect 1 50 (effectCleanup (resetEffect 1 0 (initialDice 0, noTimers)))))
       = []"
proof -
  have c: "effectCleanup rollingDice
      = (fst rollingDice,
         \<lparr>pending = [\<lparr>tid = 3, due = 3100, period = None, cb = ForceLockCb 0\<rparr>], nextId = 6\<rparr>)"
    by (simp add: effectCleanup_def Let_def rollingDice_refs rollingDice_table clearRef_def
        clearTimer_def)
  have r: "resetEffect 1 1750 (effectCleanup rollingDice) = effectCleanup rollingDice"
    by (rule resetEffect_same) (simp add: c rollingDice_refs)
  have s: "resetEffect 1 0 (initialDice 0, noTimers)
      = ((initialDice 0)\<lparr>lastResetCount := 1, timerRef := Some 1, isResetting := True\<rparr>,
         \<lparr>pending = [\<lparr>tid = 1, due = 100, period = None, cb = StartCb 0\<rparr>], nextId = 2\<rparr>)"
    by (simp add: resetEffect_def initialDice_def noTimers_def setTimeout_def clearRef_def
        Let_def)
  have e: "effectCleanup (resetEffect 1 0 (initialDice 0, noTimers))
      = ((initialDice 0)\<lparr>lastResetCount := 1, timerRef := Some 1, isResetting := True\<rparr>,
         \<lparr>pending = [], nextId = 2\<rparr>)"
    unfolding s by (simp add: effectCleanup_def Let_def initialDice_def clearRef_def clearTimer_def)
  have t: "pending (snd (resetEffect 1 50 (effectCleanup (resetEffect 1 0 (initialDice 0, noTimers))))) = []"
    unfolding e by (simp add: resetEffect_same)
  have 1: "lastResetCount (fst rollingDice) = 1" by (rule rollingDice_refs(5))
  have 2: "map cb (pending (snd rollingDice)) = [ForceLockCb 0, DampingCb 0, CheckCb 0]"
    unfolding rollingDice_table by simp
  have rc: "resetEffect 1 1750 (effectCleanup rollingDice)
      = (fst rollingDice,
         \<lparr>pending = [\<lparr>tid = 3, due = 3100, period = None, cb = ForceLockCb 0\<rparr>], nextId = 6\<rparr>)"
    using r c by (rule trans)
  have 3: "map cb (pending (snd (resetEffect 1 1750 (effectCleanup rollingDice)))) = [ForceLockCb 0]"
    unfolding rc by simp
  have 4: "fst (resetEffect 1 1750 (effectCleanup rollingDice)) = fst rollingDice"
    unfolding rc by simp
  have 5: "lastResetCount (fst (resetEffect 1 0 (initialDice 0, noTimers))) = 1"
    unfolding s by simp
  have 6: "map cb (pending (snd (resetEffect 1 0 (initialDice 0, noTimers)))) = [StartCb 0]"
    unfolding s by simp
  from 1 2 3 4 5 6 t show ?thesis by (intro conjI)
qed

section \<open>The total\<close>

lemma length_spread: "length (spread xs) = length xs"
  by (simp add: spread_def)

lemma valAt_spread: "valAt (spread xs) j = valAt xs j"
  by (simp add: valAt_def spread_def split: slot.split)

lemma length_assignIndex: "length (assignIndex xs i v) = max (length xs) (i + 1)"
  by (simp add: assignIndex_def)

lemma valAt_assignIndex: "valAt (assignIndex xs i v) j = (if j = i then Some v else valAt xs j)"
proof (cases "i < length xs")
  case True
  then show ?thesis by (simp add: valAt_def assignIndex_def nth_list_update)
next
  case False
  then show ?thesis
    by (auto simp add: valAt_def assignIndex_def nth_append nth_Cons' not_less)
qed

lemma handleDiceStable_values:
  "diceValues (fst (handleDiceStable now i v s)) = assignIndex (spread (diceValues (fst s))) i v"
  by (simp add: handleDiceStable_def Let_def)

lemma coordRun_settledAll_values:
  "length (diceValues (fst (fst (coordRun s (settledAll ts vs is)))))
      = fold (\<lambda>i n. max n (i + 1)) is (length (diceValues (fst s)))
   \<and> (\<forall>j. valAt (diceValues (fst (fst (coordRun s (settledAll ts vs is))))) j
          = (if j \<in> set is then Some (vs ! j) else valAt (diceValues (fst s)) j))"
proof (induction "is" rule: rev_induct)
  case Nil
  then show ?case by (simp add: settledAll_def coordRun_def)
next
  case (snoc i "is")
  obtain s' k where r: "coordRun s (settledAll ts vs is) = (s', k)"
    by (cases "coordRun s (settledAll ts vs is)")
  have step: "coordRun s (settledAll ts vs (is @ [i])) = (handleDiceStable (ts i) i (vs ! i) s', k)"
    using r by (simp add: settledAll_def coordRun_def)
  show ?case
    using snoc r
    by (simp add: step handleDiceStable_values length_assignIndex length_spread
        valAt_assignIndex valAt_spread)
qed

lemma fold_max_bound:
  "\<forall>i\<in>set is. i < (n::nat) \<Longrightarrow> m \<le> n \<Longrightarrow> fold (\<lambda>i n. max n (i + 1)) is m \<le> n"
proof (induction "is" arbitrary: m)
  case Nil
  then show ?case by simp
next
  case (Cons a "is")
  then have "max m (a + 1) \<le> n" by (auto simp add: max_def)
  with Cons show ?case by simp
qed

lemma values_complete:
  assumes "length xs \<le> length vs" and "\<forall>j<length vs. valAt xs j = Some (vs ! j)"
  shows "xs = map Val vs"
proof (rule nth_equalityI)
  show len: "length xs = length (map Val vs)"
  proof (rule ccontr)
    assume "length xs \<noteq> length (map Val vs)"
    with assms(1) have lt: "length xs < length vs" by simp
    with assms(2) have "valAt xs (length xs) = Some (vs ! length xs)" by blast
    then show False by (simp add: valAt_def)
  qed
  fix j assume "j < length xs"
  with len have j: "j < length vs" by simp
  with assms(2) have "valAt xs j = Some (vs ! j)" by blast
  then show "xs ! j = map Val vs ! j"
    using j by (auto simp add: valAt_def split: if_splits slot.splits)
qed

lemma foldl_addSlot_vals: "foldl addSlot (Num a) (map Val vs) = Num (a + sum_list vs)"
  by (induction vs arbitrary: a) (simp_all add: addSlot_def add.assoc)

lemma reduceSum_vals: "reduceSum (map Val vs) = Num (sum_list vs)"
  by (simp add: reduceSum_def foldl_addSlot_vals)

lemma concat_shown:
  "\<forall>v\<in>set vs. 0 < v \<Longrightarrow>
   concat (map (\<lambda>s. case s of Val v \<Rightarrow> (if v > 0 then [v] else []) | _ \<Rightarrow> []) (map Val vs)) = vs"
  by (induction vs) simp_all

lemma shownValues_vals:
  "\<forall>v\<in>set vs. 0 < v \<Longrightarrow> diceValues c = map Val vs \<Longrightarrow> shownValues c = vs"
  unfolding shownValues_def using concat_shown by simp

lemma foldl_readDie:
  "foldl readDie acc (map Some bodies)
     = (fst acc @ map (\<lambda>rb. getDiceValueFromRotation (rotation rb)) bodies,
        snd acc + sum_list (map (\<lambda>rb. getDiceValueFromRotation (rotation rb)) bodies))"
  by (induction bodies arbitrary: acc) (simp_all add: readDie_def Let_def add.assoc)

lemma isSettled_settledAll: "filter isSettled (settledAll ts vs is) = settledAll ts vs is"
  by (induction "is") (simp_all add: settledAll_def isSettled_simps)

lemma length_settledAll: "length (settledAll ts vs is) = length is"
  by (simp add: settledAll_def)

lemma coordRun_settledAll_fired: "snd (coordRun s (settledAll ts vs is)) = 0"
proof (induction "is" rule: rev_induct)
  case Nil
  then show ?case by (simp add: settledAll_def coordRun_def)
next
  case (snoc i "is")
  obtain s' k where r: "coordRun s (settledAll ts vs is) = (s', k)"
    by (cases "coordRun s (settledAll ts vs is)")
  have "coordRun s (settledAll ts vs (is @ [i])) = (handleDiceStable (ts i) i (vs ! i) s', k)"
    using r by (simp add: settledAll_def coordRun_def)
  with snoc r show ?case by simp
qed

lemma handleReset_accepted:
  assumes "\<not> isRolling (fst s)"
  shows "stableDiceCount (fst (handleReset now s)) = 0"
    and "\<not> hasCalculatedPoints (fst (handleReset now s))"
    and "diceValues (fst (handleReset now s)) = []"
    and "isRolling (fst (handleReset now s))"
    and "resetCount (fst (handleReset now s)) = resetCount (fst s) + 1"
    and "completionTimers (snd (handleReset now s))
           = completionTimers (clearRef (resetTimerRef (fst s)) (snd s))"
  using assms by (simp_all add: handleReset_def Let_def completionTimers_setTimeout)

lemma completionTimers_clearRef_empty:
  "completionTimers tt = [] \<Longrightarrow> completionTimers (clearRef r tt) = []"
  by (cases r) (auto simp add: completionTimers_def clearRef_def clearTimer_def filter_empty_conv)

lemma session_total:
  assumes fresh: "\<not> isRolling (fst s)" "completionTimers (snd s) = []"
    and perm: "distinct is" "set is = {0..<5}"
    and len: "length vs = 5"
  shows "snd (coordRun (handleReset t0 s) (settledAll ts vs is @ [CompletionFires])) = 1"
    and "diceValues (fst (fst (coordRun (handleReset t0 s) (settledAll ts vs is @ [CompletionFires]))))
           = map Val vs"
    and "totalPoints (fst (fst (coordRun (handleReset t0 s) (settledAll ts vs is @ [CompletionFires]))))
           = Num (sum_list vs)"
proof -
  let ?s1 = "handleReset t0 s"
  let ?r = "coordRun ?s1 (settledAll ts vs is)"
  note h = handleReset_accepted[OF fresh(1), of t0]
  have ct: "completionTimers (snd ?s1) = []"
    using h(6) completionTimers_clearRef_empty[OF fresh(2)] by simp
  have n: "length is = 5"
    using distinct_card[OF perm(1)] perm(2) by simp
  have inv0: "sessionInv (?s1, 0) 0" using h ct by (simp add: sessionInv_def)
  from sessionInv_run[OF inv0, of "settledAll ts vs is"]
  have inv: "sessionInv ?r 5"
    by (simp add: isSettled_settledAll length_settledAll n)
  have fired: "snd ?r = 0" by (rule coordRun_settledAll_fired)
  with inv have "length (completionTimers (snd (fst ?r))) = 1"
    by (simp add: sessionInv_def)
  then obtain t where t: "completionTimers (snd (fst ?r)) = [t]"
    by (cases "completionTimers (snd (fst ?r))") auto
  obtain s' k where r: "?r = (s', k)" by (cases ?r)
  have step: "coordRun ?s1 (settledAll ts vs is @ [CompletionFires])
                = ((completionCb (fst s'), clearTimer (tid t) (snd s')), 1)"
    using r t fired by (simp add: coordRun_snoc)
  from coordRun_settledAll_values[of ?s1 ts vs "is"]
  have l: "length (diceValues (fst s')) = fold (\<lambda>i n. max n (i + 1)) is 0"
    and v: "\<forall>j. valAt (diceValues (fst s')) j
               = (if j \<in> set is then Some (vs ! j) else valAt [] j)"
    using r h(3) by simp_all
  have "\<forall>i\<in>set is. i < (5::nat)" using perm(2) by simp
  from fold_max_bound[OF this, of 0] l have l5: "length (diceValues (fst s')) \<le> length vs"
    using len by simp
  have "\<forall>j<length vs. valAt (diceValues (fst s')) j = Some (vs ! j)"
    using v perm(2) len by simp
  from values_complete[OF l5 this] have dv: "diceValues (fst s') = map Val vs" .
  show "snd (coordRun ?s1 (settledAll ts vs is @ [CompletionFires])) = 1"
    by (simp add: step)
  show "diceValues (fst (fst (coordRun ?s1 (settledAll ts vs is @ [CompletionFires])))) = map Val vs"
    by (simp add: step completionCb_def dv)
  show "totalPoints (fst (fst (coordRun ?s1 (settledAll ts vs is @ [CompletionFires]))))
           = Num (sum_list vs)"
    by (simp add: step completionCb_def dv reduceSum_vals)
qed

text \<open>
  Claim C9. When a session completes, the total is computed afresh from the complete
  values of the dice. In the container: after an accepted reset and one notification
  from each of the 5 dice, in any order, the completion callback runs once; the values
  array then holds the value of die 0 to die 4 in that order, the total is their sum
  (from 0, by \<^verbatim>\<open>reduce\<close>), and the values shown are the same list when all are positive.
  In the Points component: when the update trigger is positive and the container is not
  rolling, the values are the face values of the dice in the order of the handles and
  the total is their sum. For the values 3, 5, 1, 6, 2 the total is 17.
\<close>

theorem total_is_sum_of_values:
  "(\<not> isRolling (fst s) \<longrightarrow> completionTimers (snd s) = [] \<longrightarrow>
      distinct is \<longrightarrow> set is = {0..<5} \<longrightarrow> length vs = 5 \<longrightarrow>
        snd (coordRun (handleReset t0 s) (settledAll ts vs is @ [CompletionFires])) = 1
      \<and> diceValues (fst (fst (coordRun (handleReset t0 s) (settledAll ts vs is @ [CompletionFires]))))
           = map Val vs
      \<and> totalPoints (fst (fst (coordRun (handleReset t0 s) (settledAll ts vs is @ [CompletionFires]))))
           = Num (sum_list vs)
      \<and> ((\<forall>v\<in>set vs. 0 < v) \<longrightarrow>
           shownValues (fst (fst (coordRun (handleReset t0 s) (settledAll ts vs is @ [CompletionFires]))))
             = vs))
   \<and> (0 < trigger \<longrightarrow>
        pointsValues (pointsUpdate trigger False (map Some bodies) p)
          = map (\<lambda>rb. getDiceValueFromRotation (rotation rb)) bodies
      \<and> pointsTotal (pointsUpdate trigger False (map Some bodies) p)
          = sum_list (map (\<lambda>rb. getDiceValueFromRotation (rotation rb)) bodies))
   \<and> sum_list [3, 5, 1, 6, 2 :: int] = 17
   \<and> pointsValues (pointsUpdate 1 False
         (map (\<lambda>q. Some (bodyWith q)) [rotY_up, rotXneg_up, rotZ_up, rotYneg_up, rotX_up])
         \<lparr>pointsTotal = 0, pointsValues = []\<rparr>) = [3, 5, 1, 6, 2]
   \<and> pointsTotal (pointsUpdate 1 False
         (map (\<lambda>q. Some (bodyWith q)) [rotY_up, rotXneg_up, rotZ_up, rotYneg_up, rotX_up])
         \<lparr>pointsTotal = 0, pointsValues = []\<rparr>) = 17"
proof (intro conjI impI)
  assume a: "\<not> isRolling (fst s)" "completionTimers (snd s) = []" "distinct is"
    "set is = {0..<5}" "length vs = 5"
  note st = session_total[OF a, of t0 ts]
  show "snd (coordRun (handleReset t0 s) (settledAll ts vs is @ [CompletionFires])) = 1"
    by (rule st(1))
  show dv: "diceValues (fst (fst (coordRun (handleReset t0 s) (settledAll ts vs is @ [CompletionFires]))))
           = map Val vs"
    by (rule st(2))
  show "totalPoints (fst (fst (coordRun (handleReset t0 s) (settledAll ts vs is @ [CompletionFires]))))
           = Num (sum_list vs)"
    by (rule st(3))
  assume "\<forall>v\<in>set vs. 0 < v"
  from shownValues_vals[OF this dv]
  show "shownValues (fst (fst (coordRun (handleReset t0 s) (settledAll ts vs is @ [CompletionFires]))))
             = vs" .
next
  assume "0 < trigger"
  then show "pointsValues (pointsUpdate trigger False (map Some bodies) p)
          = map (\<lambda>rb. getDiceValueFromRotation (rotation rb)) bodies"
    and "pointsTotal (pointsUpdate trigger False (map Some bodies) p)
          = sum_list (map (\<lambda>rb. getDiceValueFromRotation (rotation rb)) bodies)"
    by (simp_all add: pointsUpdate_def Let_def foldl_readDie)
next
  show "sum_list [3, 5, 1, 6, 2 :: int] = 17" by simp
next
  show "pointsValues (pointsUpdate 1 False
         (map (\<lambda>q. Some (bodyWith q)) [rotY_up, rotXneg_up, rotZ_up, rotYneg_up, rotX_up])
         \<lparr>pointsTotal = 0, pointsValues = []\<rparr>) = [3, 5, 1, 6, 2]"
    by (simp add: pointsUpdate_def Let_def readDie_def bodyWith_def canon)
  show "pointsTotal (pointsUpdate 1 False
         (map (\<lambda>q. Some (bodyWith q)) [rotY_up, rotXneg_up, rotZ_up, rotYneg_up, rotX_up])
         \<lparr>pointsTotal = 0, pointsValues = []\<rparr>) = 17"
    by (simp add: pointsUpdate_def Let_def readDie_def bodyWith_def canon)
qed

theorem total_is_sum_of_values_witness:
  "\<not> isRolling (fst (initialContainer, noTimers))
   \<and> completionTimers (snd (initialContainer, noTimers)) = []
   \<and> distinct [4, 2, 0, 1, 3 :: nat] \<and> set [4, 2, 0, 1, 3 :: nat] = {0..<5}
   \<and> length [3, 5, 1, 6, 2 :: int] = 5
   \<and> diceValues (fst (fst (coordRun (handleReset 0 (initialContainer, noTimers))
        (settledAll (\<lambda>i. 2100 + 100 * i) [3, 5, 1, 6, 2] [4, 2, 0, 1, 3] @ [CompletionFires]))))
        = [Val 3, Val 5, Val 1, Val 6, Val 2]
   \<and> totalPoints (fst (fst (coordRun (handleReset 0 (initialContainer, noTimers))
        (settledAll (\<lambda>i. 2100 + 100 * i) [3, 5, 1, 6, 2] [4, 2, 0, 1, 3] @ [CompletionFires]))))
        = Num 17
   \<and> shownValues (fst (fst (coordRun (handleReset 0 (initialContainer, noTimers))
        (settledAll (\<lambda>i. 2100 + 100 * i) [3, 5, 1, 6, 2] [4, 2, 0, 1, 3] @ [CompletionFires]))))
        = [3, 5, 1, 6, 2]
   \<and> 0 < (1::nat)
   \<and> pointsTotal (pointsUpdate 1 False (map Some [bodyWith rotYneg_up, bodyWith rotZ_up])
        \<lparr>pointsTotal = 0, pointsValues = []\<rparr>) = 7"
proof -
  let ?s = "(initialContainer, noTimers)"
  let ?is = "[4, 2, 0, 1, 3 :: nat]"
  let ?vs = "[3, 5, 1, 6, 2 :: int]"
  have a: "\<not> isRolling (fst ?s)" "completionTimers (snd ?s) = []"
    by (simp_all add: initialContainer_def noTimers_def completionTimers_def)
  have b: "distinct ?is" "length ?vs = 5" "\<forall>v\<in>set ?vs. 0 < v" "0 < (1::nat)" by simp_all
  have c: "set ?is = {0..<5}" by (auto simp add: atLeastLessThan_def numeral_eq_Suc less_Suc_eq)
  note t = total_is_sum_of_values[of ?s ?is ?vs 0 "\<lambda>i. 2100 + 100 * i" 1
      "[bodyWith rotYneg_up, bodyWith rotZ_up]" "\<lparr>pointsTotal = 0, pointsValues = []\<rparr>"]
  from t a b c
  have "diceValues (fst (fst (coordRun (handleReset 0 ?s)
          (settledAll (\<lambda>i. 2100 + 100 * i) ?vs ?is @ [CompletionFires])))) = map Val ?vs"
    and "totalPoints (fst (fst (coordRun (handleReset 0 ?s)
          (settledAll (\<lambda>i. 2100 + 100 * i) ?vs ?is @ [CompletionFires])))) = Num (sum_list ?vs)"
    and "shownValues (fst (fst (coordRun (handleReset 0 ?s)
          (settledAll (\<lambda>i. 2100 + 100 * i) ?vs ?is @ [CompletionFires])))) = ?vs"
    and "pointsTotal (pointsUpdate 1 False (map Some [bodyWith rotYneg_up, bodyWith rotZ_up])
          \<lparr>pointsTotal = 0, pointsValues = []\<rparr>)
          = sum_list (map (\<lambda>rb. getDiceValueFromRotation (rotation rb))
              [bodyWith rotYneg_up, bodyWith rotZ_up])"
    by blast+
  with a b c show ?thesis by (simp add: bodyWith_def canon)
qed

section \<open>The container: a reset while rolling\<close>

lemma handleReset_rolling: "isRolling (fst s) \<Longrightarrow> handleReset now s = s"
  by (simp add: handleReset_def Let_def)

lemma click_rolling:
  assumes "isRolling (cont w)" "\<not> needsRender (cont w)"
  shows "click w = w"
  using assms by (simp add: click_def handleReset_def Let_def afterHandler_def)

text \<open>
  Claim C5 says that a call of the reset handler while a roll is in flight reports that
  it was not accepted (the specification has it return false). \<^verbatim>\<open>handleReset\<close> returns
  nothing: the refused call evaluates to \<^verbatim>\<open>undefined\<close>, as the accepted call does.
\<close>

theorem handleReset_reports_nothing_counterexample:
  "isRolling (fst (handleReset 0 (initialContainer, noTimers)))
   \<and> handleResetResult 500 (handleReset 0 (initialContainer, noTimers)) \<noteq> Some False
   \<and> \<not> isRolling (fst (initialContainer, noTimers))
   \<and> handleResetResult 500 (handleReset 0 (initialContainer, noTimers))
       = handleResetResult 0 (initialContainer, noTimers)"
  by (simp add: handleResetResult_def handleReset_def initialContainer_def Let_def)

text \<open>
  Claim C5, amended. \<^verbatim>\<open>handleReset\<close> called while the rolling flag is set changes
  nothing: the roll counter, the settled count, the stored values, the timers and every
  other field stay as they are, and since no state setter was called no render follows,
  so no die is respawned. The call returns no value, whether the roll is accepted or
  not; that the roll was not accepted shows only in the unchanged state. A call changes
  the roll counter only when the flag is not set, and then it sets the flag, adds one to
  the counter and clears count and values.
\<close>

theorem handleReset_while_rolling_noop:
  "(isRolling (fst s) \<longrightarrow> handleReset now s = s)
   \<and> (isRolling (cont w) \<longrightarrow> \<not> needsRender (cont w) \<longrightarrow> click w = w)
   \<and> handleResetResult now s = None
   \<and> (resetCount (fst (handleReset now s)) \<noteq> resetCount (fst s) \<longrightarrow> \<not> isRolling (fst s))
   \<and> (\<not> isRolling (fst s) \<longrightarrow>
         isRolling (fst (handleReset now s))
       \<and> resetCount (fst (handleReset now s)) = resetCount (fst s) + 1
       \<and> stableDiceCount (fst (handleReset now s)) = 0
       \<and> diceValues (fst (handleReset now s)) = [])"
proof (intro conjI impI)
  show "handleReset now s = s" if "isRolling (fst s)"
    using that by (rule handleReset_rolling)
  show "click w = w" if "isRolling (cont w)" "\<not> needsRender (cont w)"
    using that by (rule click_rolling)
  show "handleResetResult now s = None" by (simp add: handleResetResult_def)
  show "\<not> isRolling (fst s)" if "resetCount (fst (handleReset now s)) \<noteq> resetCount (fst s)"
    using that handleReset_rolling[of s now] by auto
  assume a: "\<not> isRolling (fst s)"
  note h = handleReset_accepted[OF a, of now]
  show "isRolling (fst (handleReset now s))" by (rule h(4))
  show "resetCount (fst (handleReset now s)) = resetCount (fst s) + 1" by (rule h(5))
  show "stableDiceCount (fst (handleReset now s)) = 0" by (rule h(1))
  show "diceValues (fst (handleReset now s)) = []" by (rule h(3))
qed

lemma click_initial_cont:
  "cont (click initialWorld) =
     \<lparr>resetCount = 1, isRolling = True, resetTimerRef = Some 1, stableDiceCount = 0,
      hasCalculatedPoints = False, diceValues = [], totalPoints = Num 0, needsRender = False\<rparr>"
  by (simp add: click_def initialWorld_def handleReset_def initialContainer_def noTimers_def
      clearRef_def setTimeout_def Let_def afterHandler_def render_def)

theorem handleReset_while_rolling_noop_witness:
  "isRolling (fst (handleReset 0 (initialContainer, noTimers)))
   \<and> handleReset 500 (handleReset 0 (initialContainer, noTimers))
       = handleReset 0 (initialContainer, noTimers)
   \<and> handleResetResult 500 (handleReset 0 (initialContainer, noTimers)) = None
   \<and> isRolling (cont (click initialWorld)) \<and> \<not> needsRender (cont (click initialWorld))
   \<and> click (click initialWorld) = click initialWorld
   \<and> \<not> isRolling (fst (initialContainer, noTimers))
   \<and> resetCount (fst (handleReset 0 (initialContainer, noTimers))) = 1
   \<and> resetCount (fst (handleReset 0 (initialContainer, noTimers)))
       \<noteq> resetCount (fst (initialContainer, noTimers))"
proof -
  let ?ini = "(initialContainer, noTimers)"
  let ?s = "handleReset 0 ?ini"
  have a: "\<not> isRolling (fst ?ini)" by (simp add: initialContainer_def)
  have z: "resetCount (fst ?ini) = 0" by (simp add: initialContainer_def)
  from handleReset_while_rolling_noop[of ?ini 0 initialWorld] a
  have r: "isRolling (fst ?s)" and c: "resetCount (fst ?s) = resetCount (fst ?ini) + 1"
    by blast+
  have w: "isRolling (cont (click initialWorld))" "\<not> needsRender (cont (click initialWorld))"
    by (simp_all add: click_initial_cont)
  from handleReset_while_rolling_noop[of ?s 500 "click initialWorld"] r w
  have "handleReset 500 ?s = ?s" and "click (click initialWorld) = click initialWorld"
    and "handleResetResult 500 ?s = None"
    by blast+
  with a r c w z show ?thesis by simp
qed

section \<open>A roll from click to clear\<close>

subsection \<open>Timer table primitives\<close>

lemma setTimeout_simps:
  "fst (setTimeout c delay now tt) = nextId tt"
  "nextId (snd (setTimeout c delay now tt)) = nextId tt + 1"
  "pending (snd (setTimeout c delay now tt))
     = pending tt @ [\<lparr>tid = nextId tt, due = now + delay, period = None, cb = c\<rparr>]"
  by (simp_all add: setTimeout_def)

lemma setInterval_simps:
  "fst (setInterval c delay now tt) = nextId tt"
  "nextId (snd (setInterval c delay now tt)) = nextId tt + 1"
  "pending (snd (setInterval c delay now tt))
     = pending tt @ [\<lparr>tid = nextId tt, due = now + delay, period = Some delay, cb = c\<rparr>]"
  by (simp_all add: setInterval_def)

lemma clearRef_simps:
  "nextId (clearRef r tt) = nextId tt"
  "set (pending (clearRef r tt)) = {t \<in> set (pending tt). Some (tid t) \<noteq> r}"
  by (cases r; auto simp add: clearRef_def clearTimer_def)+

lemma nextTimer_None: "nextTimer tt = None \<longleftrightarrow> pending tt = []"
  by (simp add: nextTimer_def split: list.split)

lemma foldl_earlier:
  "foldl earlier t ts \<in> set (t # ts) \<and> (\<forall>u\<in>set (t # ts). due (foldl earlier t ts) \<le> due u)"
proof (induction ts arbitrary: t)
  case Nil
  then show ?case by simp
next
  case (Cons a ts)
  from Cons[of "earlier t a"] show ?case
    by (auto simp add: earlier_def split: if_splits)
qed

lemma nextTimer_Some:
  assumes "nextTimer tt = Some t"
  shows "t \<in> set (pending tt)" and "\<forall>u\<in>set (pending tt). due t \<le> due u"
proof -
  from assms obtain a ts where p: "pending tt = a # ts" and t: "t = foldl earlier a ts"
    by (auto simp add: nextTimer_def split: list.splits)
  from foldl_earlier[of a ts] show "t \<in> set (pending tt)"
    and "\<forall>u\<in>set (pending tt). due t \<le> due u"
    unfolding p t by blast+
qed

lemma rearm_simps:
  "nextId (rearm t tt) = nextId tt"
  "period t = None \<Longrightarrow> pending (rearm t tt) = remove1 t (pending tt)"
  "period t = Some p \<Longrightarrow>
     pending (rearm t tt) = map (\<lambda>u. if u = t then t\<lparr>due := due t + p\<rparr> else u) (pending tt)"
  by (simp_all add: rearm_def split: option.split)

subsection \<open>Before the callback runs\<close>

lemma moveBodies_simps:
  "length (moveBodies f ds) = length ds"
  "i < length ds \<Longrightarrow> index (moveBodies f ds ! i) = index (ds ! i)"
  "i < length ds \<Longrightarrow> isLocked (moveBodies f ds ! i) = isLocked (ds ! i)"
  "i < length ds \<Longrightarrow> finalValue (moveBodies f ds ! i) = finalValue (ds ! i)"
  by (simp_all add: moveBodies_def)

lemma moveBodies_set:
  assumes "d' \<in> set (moveBodies f ds)"
  obtains d where "d \<in> set ds" "diceRef d' = map_option (f (index d)) (diceRef d)"
    "hasOnStable d' = hasOnStable d" "lastResetCount d' = lastResetCount d"
    "refIds d' = refIds d"
  using assms by (auto simp add: moveBodies_def refIds_def)

lemma timerOK_rearmed:
  "timerOK T t \<Longrightarrow> period t = Some p \<Longrightarrow> timerOK T (t\<lparr>due := due t + p\<rparr>) \<and> p = 100"
  by (auto simp add: timerOK_def split: callback.splits)

lemma pending_rearm:
  assumes "u \<in> set (pending (rearm t tt))"
  obtains "u \<in> set (pending tt)"
  | p where "period t = Some p" "t \<in> set (pending tt)" "u = t\<lparr>due := due t + p\<rparr>"
  using assms
  by (cases "period t") (auto simp add: rearm_simps dest: notin_set_remove1 split: if_splits)

lemma pending_rearm_other:
  assumes "u \<in> set (pending tt)" "u \<noteq> t"
  shows "u \<in> set (pending (rearm t tt))"
  using assms by (cases "period t") (auto simp add: rearm_simps)

lemma advance_clock:
  assumes "timersOK T w" "nextTimer (timers w) = Some t"
  shows "clock (advance t f w) = due t"
  using assms nextTimer_Some(1)[OF assms(2)]
  by (auto simp add: advance_def timersOK_def max_def)

lemma advance_static:
  assumes "staticOK w"
  shows "staticOK (advance t f w)"
  unfolding staticOK_def
proof (intro conjI ballI allI impI)
  show "length (dices (advance t f w)) = 5"
    using assms by (simp add: advance_def staticOK_def moveBodies_simps)
  fix i :: nat assume "i < 5"
  then show "index (dices (advance t f w) ! i) = i"
    using assms by (simp add: advance_def staticOK_def moveBodies_simps)
next
  fix d' assume "d' \<in> set (dices (advance t f w))"
  then have "d' \<in> set (moveBodies f (dices w))" by (simp add: advance_def)
  then obtain d where d: "d \<in> set (dices w)" "diceRef d' = map_option (f (index d)) (diceRef d)"
    "hasOnStable d' = hasOnStable d" "lastResetCount d' = lastResetCount d"
    by (rule moveBodies_set)
  with assms show "diceRef d' \<noteq> None" "hasOnStable d'"
    "lastResetCount d' = resetCount (cont (advance t f w))"
    by (auto simp add: staticOK_def advance_def)
qed

lemma advance_timers:
  assumes "timersOK T w" "nextTimer (timers w) = Some t"
  shows "timersOK T (advance t f w)"
  unfolding timersOK_def
proof
  fix u assume u: "u \<in> set (pending (timers (advance t f w)))"
  note m = nextTimer_Some[OF assms(2)]
  have c: "clock (advance t f w) = due t" by (rule advance_clock[OF assms])
  from u have "u \<in> set (pending (rearm t (timers w)))" by (simp add: advance_def)
  then show "clock (advance t f w) \<le> due u \<and> tid u < nextId (timers (advance t f w))
             \<and> timerOK T u"
  proof (cases rule: pending_rearm)
    case 1
    with assms(1) m(2) show ?thesis
      by (auto simp add: c timersOK_def advance_def rearm_simps)
  next
    case (2 p)
    with assms(1) have "timerOK T t" "tid t < nextId (timers w)"
      by (auto simp add: timersOK_def)
    with 2 timerOK_rearmed[of T t p] have "due t \<le> due u" "tid u < nextId (timers w)" "timerOK T u"
      by auto
    then show ?thesis
      unfolding c by (simp add: advance_def rearm_simps)
  qed
qed

lemma rearm_keeps_cb:
  assumes "u \<in> set (pending (rearm t tt))"
  shows "\<exists>u'\<in>set (pending tt). cb u' = cb u \<and> tid u' = tid u"
  using assms by (cases rule: pending_rearm) auto

lemma advance_ids:
  assumes "idsOK w"
  shows "idsOK (advance t f w)"
  unfolding idsOK_def
proof (intro ballI conjI impI)
  fix d' i assume "d' \<in> set (dices (advance t f w))" and i: "i \<in> refIds d'"
  then have "d' \<in> set (moveBodies f (dices w))" by (simp add: advance_def)
  then obtain d where d: "d \<in> set (dices w)" "refIds d' = refIds d"
    by (rule moveBodies_set)
  with i assms show "i < nextId (timers (advance t f w))"
    by (auto simp add: idsOK_def advance_def rearm_simps)
  fix u assume "u \<in> set (pending (timers (advance t f w)))" and a: "anonymous (cb u)"
  then have "u \<in> set (pending (rearm t (timers w)))" by (simp add: advance_def)
  from rearm_keeps_cb[OF this] obtain u' where "u' \<in> set (pending (timers w))"
    "cb u' = cb u" "tid u' = tid u" by blast
  with a i d assms show "tid u \<noteq> i" by (auto simp add: idsOK_def)
qed

lemma advance_live:
  assumes "staticOK w" "liveAt w i" "i < 5" "cb t \<noteq> StartCb i" "cb t \<noteq> ForceLockCb i"
  shows "liveAt (advance t f w) i"
proof (cases "isLocked (dices w ! i)")
  case True
  with assms show ?thesis
    by (simp add: liveAt_def advance_def staticOK_def moveBodies_simps)
next
  case False
  with assms(2) obtain u where u: "u \<in> set (pending (timers w))"
    "cb u = StartCb i \<or> cb u = ForceLockCb i"
    by (auto simp add: liveAt_def)
  with assms(4,5) have "u \<noteq> t" by auto
  from pending_rearm_other[OF u(1) this] u(2) show ?thesis
    by (auto simp add: liveAt_def advance_def)
qed

lemma advance_values:
  assumes "staticOK w" "valuesOK w"
  shows "valuesOK (advance t f w)"
  using assms by (simp add: valuesOK_def advance_def staticOK_def moveBodies_simps)

lemma advance_roll:
  assumes "timersOK T w" "rollOK T w" "nextTimer (timers w) = Some t" "cb t \<noteq> RollingClearCb"
  shows "rollOK T (advance t f w)"
proof (cases "isRolling (cont w)")
  case True
  with assms(2) obtain u where u: "u \<in> set (pending (timers w))" "cb u = RollingClearCb"
    by (auto simp add: rollOK_def)
  with assms(4) have "u \<noteq> t" by auto
  from pending_rearm_other[OF u(1) this] u(2) True show ?thesis
    by (auto simp add: rollOK_def advance_def)
next
  case False
  have "clock w \<le> due t"
    using assms(1) nextTimer_Some(1)[OF assms(3)] by (simp add: timersOK_def)
  with False assms(2) show ?thesis
    by (simp add: rollOK_def advance_def)
qed

lemma timerOK_late:
  "timerOK T t \<Longrightarrow> (\<forall>i. cb t \<noteq> StartCb i) \<Longrightarrow> T + 100 < due t"
  by (auto simp add: timerOK_def split: callback.splits)

lemma advance_noStart:
  assumes "timersOK T w" "nextTimer (timers w) = Some t" "\<forall>i. cb t \<noteq> StartCb i"
  shows "noStart (advance t f w)"
  unfolding noStart_def
proof (intro ballI allI notI)
  fix u i assume u: "u \<in> set (pending (timers (advance t f w)))" and s: "cb u = StartCb i"
  note m = nextTimer_Some[OF assms(2)]
  from assms(1) m(1) have "timerOK T t" by (simp add: timersOK_def)
  from timerOK_late[OF this assms(3)] have late: "T + 100 < due t" .
  from u have "u \<in> set (pending (rearm t (timers w)))" by (simp add: advance_def)
  from rearm_keeps_cb[OF this] obtain u' where u': "u' \<in> set (pending (timers w))"
    "cb u' = cb u" by blast
  with assms(1) s have "due u' = T + 100" by (auto simp add: timersOK_def timerOK_def)
  with m(2) u'(1) late show False by auto
qed

subsection \<open>Rendering\<close>

lemma effectCleanup_pending:
  "set (pending (snd (effectCleanup (d, tt)))) = {t \<in> set (pending tt). tid t \<notin> refIds d}"
  "nextId (snd (effectCleanup (d, tt))) = nextId tt"
  by (auto simp add: effectCleanup_def Let_def clearRef_simps refIds_def)

lemma cleanupAll_simps:
  "nextId (cleanupAll ds tt) = nextId tt"
  "set (pending (cleanupAll ds tt)) = {t \<in> set (pending tt). \<forall>d\<in>set ds. tid t \<notin> refIds d}"
proof (induction ds arbitrary: tt)
  case Nil
  { case 1 show ?case by simp }
  { case 2 show ?case by simp }
next
  case (Cons d ds)
  { case 1 show ?case by (simp add: Cons.IH(1) effectCleanup_pending) }
  { case 2 show ?case by (auto simp add: Cons.IH(2) effectCleanup_pending) }
qed

lemma effectAll_same:
  "\<forall>d\<in>set ds. lastResetCount d = rc \<Longrightarrow> effectAll rc now ds tt = (ds, tt)"
  by (induction ds arbitrary: tt) (simp_all add: resetEffect_def Let_def)

lemma render_eq:
  assumes "staticOK w"
  shows "render w = w\<lparr>cont := (cont w)\<lparr>needsRender := False\<rparr>,
                     timers := cleanupAll (dices w) (timers w)\<rparr>"
proof -
  have "\<forall>d\<in>set (dices w). lastResetCount d = resetCount (cont w)"
    using assms by (simp add: staticOK_def)
  from effectAll_same[OF this] show ?thesis
    by (simp add: render_def Let_def)
qed

lemma render_fields:
  assumes "staticOK w"
  shows "dices (render w) = dices w" and "clock (render w) = clock w"
    and "nextId (timers (render w)) = nextId (timers w)"
    and "set (pending (timers (render w)))
          = {t \<in> set (pending (timers w)). \<forall>d\<in>set (dices w). tid t \<notin> refIds d}"
    and "cont (render w) = (cont w)\<lparr>needsRender := False\<rparr>"
  by (simp_all add: render_eq[OF assms] cleanupAll_simps)

lemma render_inv:
  assumes "staticOK w" "timersOK T w" "idsOK w" "liveOK w" "rollOK T w" "valuesOK w" "noStart w"
  shows "rollInv T (render w)" and "\<not> needsRender (cont (render w))"
    and "isRolling (cont (render w)) = isRolling (cont w)"
proof -
  let ?w = "render w"
  note r = render_fields[OF assms(1)]
  have kept: "u \<in> set (pending (timers ?w))"
    if u: "u \<in> set (pending (timers w))" and a: "anonymous (cb u)" for u
  proof -
    have "\<forall>d\<in>set (dices w). tid u \<notin> refIds d"
      using assms(3) u a unfolding idsOK_def by blast
    with u show ?thesis unfolding r(4) by simp
  qed
  have sub: "u \<in> set (pending (timers w))" if "u \<in> set (pending (timers ?w))" for u
    using that unfolding r(4) by simp
  have 1: "staticOK ?w" using assms(1) unfolding staticOK_def r by simp
  have 2: "timersOK T ?w"
    using assms(2) sub unfolding timersOK_def r(2,3) by blast
  have 3: "idsOK ?w"
    using assms(3) sub unfolding idsOK_def r(1,3) by blast
  have 4: "liveOK ?w"
    unfolding liveOK_def
  proof (intro allI impI)
    fix i :: nat assume "i < 5"
    with assms(4) have l: "liveAt w i" by (simp add: liveOK_def)
    show "liveAt ?w i"
    proof (cases "isLocked (dices w ! i)")
      case True
      then show ?thesis unfolding liveAt_def r(1) by simp
    next
      case False
      with l assms(7) obtain u where u: "u \<in> set (pending (timers w))" "cb u = ForceLockCb i"
        unfolding liveAt_def noStart_def by blast
      then have "anonymous (cb u)" by (simp add: anonymous_def)
      from kept[OF u(1) this] u(2) show ?thesis unfolding liveAt_def by blast
    qed
  qed
  have 5: "rollOK T ?w"
  proof (cases "isRolling (cont w)")
    case True
    with assms(5) obtain u where u: "u \<in> set (pending (timers w))" "cb u = RollingClearCb"
      by (auto simp add: rollOK_def)
    then have "anonymous (cb u)" by (simp add: anonymous_def)
    from kept[OF u(1) this] u(2) have "\<exists>t\<in>set (pending (timers ?w)). cb t = RollingClearCb"
      by blast
    with True show ?thesis unfolding rollOK_def r(5) by simp
  next
    case False
    with assms(5) show ?thesis unfolding rollOK_def r(2,5) by simp
  qed
  have 6: "valuesOK ?w" using assms(6) unfolding valuesOK_def r(1,5) by simp
  from 1 2 3 4 5 6 show "rollInv T ?w" by (simp add: rollInv_def)
  show "\<not> needsRender (cont ?w)" by (simp add: r(5))
  show "isRolling (cont ?w) = isRolling (cont w)" by (simp add: r(5))
qed

subsection \<open>Callbacks of a die that work on the timer table\<close>

lemma set_update_cases:
  assumes "x \<in> set (xs[i := y])"
  shows "x = y \<or> x \<in> set xs"
  using assms set_update_subset_insert[of xs i y] by auto

lemma runDiceCb_inv:
  assumes st: "staticOK w" and tm: "timersOK T w" and ids: "idsOK w" and ro: "rollOK T w"
    and va: "valuesOK w" and i: "i < 5"
    and f: "f (dices w ! i, timers w) = (d', tt')"
    and frame: "index d' = index (dices w ! i)" "hasOnStable d'"
      "lastResetCount d' = lastResetCount (dices w ! i)" "diceRef d' \<noteq> None"
      "isLocked d' = isLocked (dices w ! i)" "finalValue d' = finalValue (dices w ! i)"
    and nx: "nextId (timers w) \<le> nextId tt'"
    and new: "\<forall>u\<in>set (pending tt'). u \<in> set (pending (timers w))
               \<or> (nextId (timers w) \<le> tid u \<and> tid u < nextId tt' \<and> clock w \<le> due u \<and> timerOK T u)"
    and refs: "\<forall>k\<in>refIds d'. k \<in> refIds (dices w ! i)
               \<or> (nextId (timers w) \<le> k \<and> k < nextId tt'
                   \<and> (\<forall>u\<in>set (pending tt'). anonymous (cb u) \<longrightarrow> tid u \<noteq> k))"
    and kept: "\<forall>u\<in>set (pending (timers w)).
                 (\<exists>j. cb u = StartCb j \<or> cb u = ForceLockCb j) \<or> cb u = RollingClearCb
                 \<longrightarrow> u \<in> set (pending tt')"
  shows "staticOK (runDiceCb f i w)" and "timersOK T (runDiceCb f i w)"
    and "idsOK (runDiceCb f i w)" and "rollOK T (runDiceCb f i w)"
    and "valuesOK (runDiceCb f i w)"
    and "\<forall>j<5. liveAt w j \<longrightarrow> liveAt (runDiceCb f i w) j"
    and "cont (runDiceCb f i w) = cont w"
    and "timers (runDiceCb f i w) = tt'"
proof -
  let ?w = "runDiceCb f i w"
  have len: "length (dices w) = 5" using st by (simp add: staticOK_def)
  have di: "dices w ! i \<in> set (dices w)" using i len by simp
  have w: "?w = w\<lparr>dices := (dices w)[i := d'], timers := tt'\<rparr>"
    using i len f by (simp add: runDiceCb_def Let_def)
  have fld: "dices ?w = (dices w)[i := d']" "timers ?w = tt'" "cont ?w = cont w"
    "clock ?w = clock w"
    by (simp_all add: w)
  have nth: "dices ?w ! j = (if j = i then d' else dices w ! j)" if "j < 5" for j
    using that len i by (simp add: fld nth_list_update)
  show "cont ?w = cont w" by (rule fld(3))
  show "timers ?w = tt'" by (rule fld(2))
  show "staticOK ?w"
    unfolding staticOK_def fld
  proof (intro conjI allI impI ballI)
    show "length ((dices w)[i := d']) = 5" using len by simp
    fix j :: nat assume "j < 5"
    then show "index ((dices w)[i := d'] ! j) = j"
      using st frame(1) len i by (auto simp add: staticOK_def nth_list_update)
  next
    fix d assume "d \<in> set ((dices w)[i := d'])"
    then have "d = d' \<or> d \<in> set (dices w)" by (rule set_update_cases)
    then show "diceRef d \<noteq> None" "hasOnStable d" "lastResetCount d = resetCount (cont w)"
      using st frame(2,3,4) di by (auto simp add: staticOK_def)
  qed
  show "timersOK T ?w"
    unfolding timersOK_def fld
  proof
    fix u assume "u \<in> set (pending tt')"
    with new have "u \<in> set (pending (timers w))
               \<or> (nextId (timers w) \<le> tid u \<and> tid u < nextId tt' \<and> clock w \<le> due u \<and> timerOK T u)"
      by blast
    then show "clock w \<le> due u \<and> tid u < nextId tt' \<and> timerOK T u"
      using tm nx by (auto simp add: timersOK_def)
  qed
  show "idsOK ?w"
    unfolding idsOK_def fld
  proof (intro ballI conjI impI)
    fix d k assume d: "d \<in> set ((dices w)[i := d'])" and k: "k \<in> refIds d"
    from d have "d = d' \<or> d \<in> set (dices w)" by (rule set_update_cases)
    with k refs di have c: "(\<exists>d0\<in>set (dices w). k \<in> refIds d0)
        \<or> (nextId (timers w) \<le> k \<and> k < nextId tt'
                   \<and> (\<forall>u\<in>set (pending tt'). anonymous (cb u) \<longrightarrow> tid u \<noteq> k))"
      by blast
    have old: "k0 < nextId (timers w)" if "d0 \<in> set (dices w)" "k0 \<in> refIds d0" for d0 k0
      using ids that unfolding idsOK_def by blast
    from c show "k < nextId tt'"
      using old nx by (elim disjE bexE) (force, simp)
    fix u assume u: "u \<in> set (pending tt')" and a: "anonymous (cb u)"
    from c show "tid u \<noteq> k"
    proof
      assume "\<exists>d0\<in>set (dices w). k \<in> refIds d0"
      then obtain d0 where d0: "d0 \<in> set (dices w)" "k \<in> refIds d0" by blast
      from new u have "u \<in> set (pending (timers w)) \<or> nextId (timers w) \<le> tid u" by blast
      then show ?thesis
      proof
        assume "u \<in> set (pending (timers w))"
        with ids d0 a show ?thesis unfolding idsOK_def by blast
      next
        assume "nextId (timers w) \<le> tid u"
        moreover from ids d0 have "k < nextId (timers w)" unfolding idsOK_def by blast
        ultimately show ?thesis by simp
      qed
    next
      assume "nextId (timers w) \<le> k \<and> k < nextId tt'
                   \<and> (\<forall>u\<in>set (pending tt'). anonymous (cb u) \<longrightarrow> tid u \<noteq> k)"
      with u a show ?thesis by blast
    qed
  qed
  show "rollOK T ?w"
  proof (cases "isRolling (cont w)")
    case True
    with ro obtain u where "u \<in> set (pending (timers w))" "cb u = RollingClearCb"
      by (auto simp add: rollOK_def)
    with kept have "\<exists>t\<in>set (pending tt'). cb t = RollingClearCb" by blast
    with True show ?thesis unfolding rollOK_def fld by simp
  next
    case False
    with ro show ?thesis unfolding rollOK_def fld by simp
  qed
  show "valuesOK ?w"
    unfolding valuesOK_def fld(3)
  proof (intro allI impI)
    fix j :: nat assume j: "j < 5" and l: "isLocked (dices ?w ! j)"
    from l have "isLocked (dices w ! j)" using nth[OF j] frame(5) by (simp split: if_splits)
    with va j have "valAt (diceValues (cont w)) j = Some (finalValue (dices w ! j))
      \<and> finalValue (dices w ! j) \<in> {1..6}" by (simp add: valuesOK_def)
    moreover have "finalValue (dices ?w ! j) = finalValue (dices w ! j)"
      using nth[OF j] frame(6) by simp
    ultimately show "valAt (diceValues (cont w)) j = Some (finalValue (dices ?w ! j))
      \<and> finalValue (dices ?w ! j) \<in> {1..6}" by simp
  qed
  show "\<forall>j<5. liveAt w j \<longrightarrow> liveAt ?w j"
  proof (intro allI impI)
    fix j :: nat assume j: "j < 5" and l: "liveAt w j"
    have lk: "isLocked (dices ?w ! j) = isLocked (dices w ! j)"
      using nth[OF j] frame(5) by simp
    from l show "liveAt ?w j"
      unfolding liveAt_def lk fld(2) using kept by blast
  qed
qed

lemma startCb_props:
  assumes "diceRef d \<noteq> None"
  shows "index (fst (startCb now rnd (d, tt))) = index d"
    and "hasOnStable (fst (startCb now rnd (d, tt))) = hasOnStable d"
    and "lastResetCount (fst (startCb now rnd (d, tt))) = lastResetCount d"
    and "diceRef (fst (startCb now rnd (d, tt))) \<noteq> None"
    and "isLocked (fst (startCb now rnd (d, tt))) = isLocked d"
    and "finalValue (fst (startCb now rnd (d, tt))) = finalValue d"
    and "nextId (snd (startCb now rnd (d, tt))) = nextId tt + 2"
    and "pending (snd (startCb now rnd (d, tt)))
          = pending tt @ [\<lparr>tid = nextId tt, due = now + 1500, period = None, cb = StabilityCb (index d)\<rparr>,
                          \<lparr>tid = nextId tt + 1, due = now + 3000, period = None, cb = ForceLockCb (index d)\<rparr>]"
    and "refIds (fst (startCb now rnd (d, tt))) \<subseteq> refIds d \<union> {nextId tt}"
  using assms
  by (auto simp add: startCb_def Let_def setTimeout_simps refIds_def split: option.splits)

lemma stabilityCb_props:
  assumes "diceRef d \<noteq> None"
  shows "index (fst (stabilityCb now (d, tt))) = index d"
    and "hasOnStable (fst (stabilityCb now (d, tt))) = hasOnStable d"
    and "lastResetCount (fst (stabilityCb now (d, tt))) = lastResetCount d"
    and "diceRef (fst (stabilityCb now (d, tt))) \<noteq> None"
    and "isLocked (fst (stabilityCb now (d, tt))) = isLocked d"
    and "finalValue (fst (stabilityCb now (d, tt))) = finalValue d"
    and "nextId (snd (stabilityCb now (d, tt))) = nextId tt + 2"
    and "pending (snd (stabilityCb now (d, tt)))
          = pending tt @ [\<lparr>tid = nextId tt, due = now + 100, period = Some 100, cb = DampingCb (index d)\<rparr>,
                          \<lparr>tid = nextId tt + 1, due = now + 100, period = Some 100, cb = CheckCb (index d)\<rparr>]"
    and "refIds (fst (stabilityCb now (d, tt))) \<subseteq> refIds d \<union> {nextId tt, nextId tt + 1}"
  using assms
  by (auto simp add: stabilityCb_def Let_def setInterval_simps refIds_def split: option.splits)

lemma dampingCb_props:
  assumes "diceRef d \<noteq> None"
  shows "index (fst (dampingCb (d, tt))) = index d"
    and "hasOnStable (fst (dampingCb (d, tt))) = hasOnStable d"
    and "lastResetCount (fst (dampingCb (d, tt))) = lastResetCount d"
    and "diceRef (fst (dampingCb (d, tt))) \<noteq> None"
    and "isLocked (fst (dampingCb (d, tt))) = isLocked d"
    and "finalValue (fst (dampingCb (d, tt))) = finalValue d"
    and "nextId (snd (dampingCb (d, tt))) = nextId tt"
    and "set (pending (snd (dampingCb (d, tt)))) \<subseteq> set (pending tt)"
    and "\<forall>u\<in>set (pending tt). tid u \<notin> refIds d \<longrightarrow> u \<in> set (pending (snd (dampingCb (d, tt))))"
    and "refIds (fst (dampingCb (d, tt))) \<subseteq> refIds d"
  using assms
  by (auto simp add: dampingCb_def Let_def clearRef_simps refIds_def split: option.splits)

lemma static_nth:
  assumes "staticOK w" "i < 5"
  shows "dices w ! i \<in> set (dices w)" and "index (dices w ! i) = i"
    and "diceRef (dices w ! i) \<noteq> None" and "hasOnStable (dices w ! i)"
    and "lastResetCount (dices w ! i) = resetCount (cont w)"
proof -
  have len: "length (dices w) = 5" using assms(1) by (simp add: staticOK_def)
  then show m: "dices w ! i \<in> set (dices w)" using assms(2) by simp
  show "index (dices w ! i) = i" using assms by (simp add: staticOK_def)
  show "diceRef (dices w ! i) \<noteq> None" "hasOnStable (dices w ! i)"
    "lastResetCount (dices w ! i) = resetCount (cont w)"
    using assms(1) m unfolding staticOK_def by blast+
qed

lemma timerOK_new:
  "d = T + 1600 \<Longrightarrow> timerOK T \<lparr>tid = k, due = d, period = None, cb = StabilityCb i\<rparr>"
  "d = T + 3100 \<Longrightarrow> timerOK T \<lparr>tid = k, due = d, period = None, cb = ForceLockCb i\<rparr>"
  "T + 100 < d \<Longrightarrow> timerOK T \<lparr>tid = k, due = d, period = Some 100, cb = DampingCb i\<rparr>"
  "T + 100 < d \<Longrightarrow> timerOK T \<lparr>tid = k, due = d, period = Some 100, cb = CheckCb i\<rparr>"
  "T + 100 < d \<Longrightarrow> d \<le> T + 3200
     \<Longrightarrow> timerOK T \<lparr>tid = k, due = d, period = None, cb = CompletionCb\<rparr>"
  by (simp_all add: timerOK_def)

lemma fire_StartCb:
  assumes st: "staticOK w" and tm: "timersOK T w" and ids: "idsOK w" and ro: "rollOK T w"
    and va: "valuesOK w" and i: "i < 5" and c: "clock w = T + 100"
  shows "staticOK (fire rnd (StartCb i) w)" and "timersOK T (fire rnd (StartCb i) w)"
    and "idsOK (fire rnd (StartCb i) w)" and "rollOK T (fire rnd (StartCb i) w)"
    and "valuesOK (fire rnd (StartCb i) w)"
    and "\<forall>j<5. liveAt w j \<longrightarrow> liveAt (fire rnd (StartCb i) w) j"
    and "liveAt (fire rnd (StartCb i) w) i"
    and "cont (fire rnd (StartCb i) w) = cont w"
proof -
  let ?d = "dices w ! i" and ?tt = "timers w"
  let ?r = "startCb (clock w) rnd (?d, ?tt)"
  note n = static_nth[OF st i]
  note p = startCb_props[OF n(3), of "clock w" rnd ?tt]
  have f: "startCb (clock w) rnd (?d, ?tt) = (fst ?r, snd ?r)" by simp
  have old: "\<forall>u\<in>set (pending ?tt). tid u < nextId ?tt"
    using tm by (simp add: timersOK_def)
  have new: "\<forall>u\<in>set (pending (snd ?r)). u \<in> set (pending ?tt)
               \<or> (nextId ?tt \<le> tid u \<and> tid u < nextId (snd ?r) \<and> clock w \<le> due u \<and> timerOK T u)"
    unfolding p(7,8) using c by (auto simp add: timerOK_new)
  have refs: "\<forall>k\<in>refIds (fst ?r). k \<in> refIds ?d
               \<or> (nextId ?tt \<le> k \<and> k < nextId (snd ?r)
                   \<and> (\<forall>u\<in>set (pending (snd ?r)). anonymous (cb u) \<longrightarrow> tid u \<noteq> k))"
  proof
    fix k assume "k \<in> refIds (fst ?r)"
    with p(9) have "k \<in> refIds ?d \<or> k = nextId ?tt" by blast
    then show "k \<in> refIds ?d
               \<or> (nextId ?tt \<le> k \<and> k < nextId (snd ?r)
                   \<and> (\<forall>u\<in>set (pending (snd ?r)). anonymous (cb u) \<longrightarrow> tid u \<noteq> k))"
    proof
      assume "k = nextId ?tt"
      then have "nextId ?tt \<le> k \<and> k < nextId (snd ?r)
                   \<and> (\<forall>u\<in>set (pending (snd ?r)). anonymous (cb u) \<longrightarrow> tid u \<noteq> k)"
        unfolding p(7,8) using old by (fastforce simp add: anonymous_def)
      then show ?thesis ..
    qed simp
  qed
  have kept: "\<forall>u\<in>set (pending ?tt).
                 (\<exists>j. cb u = StartCb j \<or> cb u = ForceLockCb j) \<or> cb u = RollingClearCb
                 \<longrightarrow> u \<in> set (pending (snd ?r))"
    unfolding p(8) by simp
  have nx: "nextId ?tt \<le> nextId (snd ?r)" unfolding p(7) by simp
  have hs: "hasOnStable (fst ?r)" using p(2) n(4) by simp
  note inv = runDiceCb_inv[where f = "startCb (clock w) rnd",
      OF st tm ids ro va i f p(1) hs p(3) p(4) p(5) p(6) nx new refs kept]
  show "staticOK (fire rnd (StartCb i) w)" using inv(1) by simp
  show "timersOK T (fire rnd (StartCb i) w)" using inv(2) by simp
  show "idsOK (fire rnd (StartCb i) w)" using inv(3) by simp
  show "rollOK T (fire rnd (StartCb i) w)" using inv(4) by simp
  show "valuesOK (fire rnd (StartCb i) w)" using inv(5) by simp
  show "\<forall>j<5. liveAt w j \<longrightarrow> liveAt (fire rnd (StartCb i) w) j" using inv(6) by simp
  show "cont (fire rnd (StartCb i) w) = cont w" using inv(7) by simp
  have "\<exists>t\<in>set (pending (timers (fire rnd (StartCb i) w))). cb t = ForceLockCb i"
    using inv(8) p(8) n(2) by simp
  then show "liveAt (fire rnd (StartCb i) w) i" unfolding liveAt_def by blast
qed

lemma fire_StabilityCb:
  assumes st: "staticOK w" and tm: "timersOK T w" and ids: "idsOK w" and ro: "rollOK T w"
    and va: "valuesOK w" and i: "i < 5" and c: "clock w = T + 1600"
  shows "staticOK (fire rnd (StabilityCb i) w)" and "timersOK T (fire rnd (StabilityCb i) w)"
    and "idsOK (fire rnd (StabilityCb i) w)" and "rollOK T (fire rnd (StabilityCb i) w)"
    and "valuesOK (fire rnd (StabilityCb i) w)"
    and "\<forall>j<5. liveAt w j \<longrightarrow> liveAt (fire rnd (StabilityCb i) w) j"
    and "cont (fire rnd (StabilityCb i) w) = cont w"
proof -
  let ?d = "dices w ! i" and ?tt = "timers w"
  let ?r = "stabilityCb (clock w) (?d, ?tt)"
  note n = static_nth[OF st i]
  note p = stabilityCb_props[OF n(3), of "clock w" ?tt]
  have f: "stabilityCb (clock w) (?d, ?tt) = (fst ?r, snd ?r)" by simp
  have old: "\<forall>u\<in>set (pending ?tt). tid u < nextId ?tt"
    using tm by (simp add: timersOK_def)
  have new: "\<forall>u\<in>set (pending (snd ?r)). u \<in> set (pending ?tt)
               \<or> (nextId ?tt \<le> tid u \<and> tid u < nextId (snd ?r) \<and> clock w \<le> due u \<and> timerOK T u)"
    unfolding p(7,8) using c by (auto simp add: timerOK_new)
  have refs: "\<forall>k\<in>refIds (fst ?r). k \<in> refIds ?d
               \<or> (nextId ?tt \<le> k \<and> k < nextId (snd ?r)
                   \<and> (\<forall>u\<in>set (pending (snd ?r)). anonymous (cb u) \<longrightarrow> tid u \<noteq> k))"
  proof
    fix k assume "k \<in> refIds (fst ?r)"
    with p(9) have "k \<in> refIds ?d \<or> k = nextId ?tt \<or> k = nextId ?tt + 1" by blast
    then show "k \<in> refIds ?d
               \<or> (nextId ?tt \<le> k \<and> k < nextId (snd ?r)
                   \<and> (\<forall>u\<in>set (pending (snd ?r)). anonymous (cb u) \<longrightarrow> tid u \<noteq> k))"
    proof
      assume "k = nextId ?tt \<or> k = nextId ?tt + 1"
      then have "nextId ?tt \<le> k \<and> k < nextId (snd ?r)
                   \<and> (\<forall>u\<in>set (pending (snd ?r)). anonymous (cb u) \<longrightarrow> tid u \<noteq> k)"
        unfolding p(7,8) using old by (fastforce simp add: anonymous_def)
      then show ?thesis ..
    qed simp
  qed
  have kept: "\<forall>u\<in>set (pending ?tt).
                 (\<exists>j. cb u = StartCb j \<or> cb u = ForceLockCb j) \<or> cb u = RollingClearCb
                 \<longrightarrow> u \<in> set (pending (snd ?r))"
    unfolding p(8) by simp
  have nx: "nextId ?tt \<le> nextId (snd ?r)" unfolding p(7) by simp
  have hs: "hasOnStable (fst ?r)" using p(2) n(4) by simp
  note inv = runDiceCb_inv[where f = "stabilityCb (clock w)",
      OF st tm ids ro va i f p(1) hs p(3) p(4) p(5) p(6) nx new refs kept]
  show "staticOK (fire rnd (StabilityCb i) w)" using inv(1) by simp
  show "timersOK T (fire rnd (StabilityCb i) w)" using inv(2) by simp
  show "idsOK (fire rnd (StabilityCb i) w)" using inv(3) by simp
  show "rollOK T (fire rnd (StabilityCb i) w)" using inv(4) by simp
  show "valuesOK (fire rnd (StabilityCb i) w)" using inv(5) by simp
  show "\<forall>j<5. liveAt w j \<longrightarrow> liveAt (fire rnd (StabilityCb i) w) j" using inv(6) by simp
  show "cont (fire rnd (StabilityCb i) w) = cont w" using inv(7) by simp
qed

lemma fire_DampingCb:
  assumes st: "staticOK w" and tm: "timersOK T w" and ids: "idsOK w" and ro: "rollOK T w"
    and va: "valuesOK w" and i: "i < 5" and ns: "noStart w"
  shows "staticOK (fire rnd (DampingCb i) w)" and "timersOK T (fire rnd (DampingCb i) w)"
    and "idsOK (fire rnd (DampingCb i) w)" and "rollOK T (fire rnd (DampingCb i) w)"
    and "valuesOK (fire rnd (DampingCb i) w)"
    and "\<forall>j<5. liveAt w j \<longrightarrow> liveAt (fire rnd (DampingCb i) w) j"
    and "cont (fire rnd (DampingCb i) w) = cont w"
proof -
  let ?d = "dices w ! i" and ?tt = "timers w"
  let ?r = "dampingCb (?d, ?tt)"
  note n = static_nth[OF st i]
  note p = dampingCb_props[OF n(3), of ?tt]
  have f: "dampingCb (?d, ?tt) = (fst ?r, snd ?r)" by simp
  have new: "\<forall>u\<in>set (pending (snd ?r)). u \<in> set (pending ?tt)
               \<or> (nextId ?tt \<le> tid u \<and> tid u < nextId (snd ?r) \<and> clock w \<le> due u \<and> timerOK T u)"
    using p(8) by blast
  have refs: "\<forall>k\<in>refIds (fst ?r). k \<in> refIds ?d
               \<or> (nextId ?tt \<le> k \<and> k < nextId (snd ?r)
                   \<and> (\<forall>u\<in>set (pending (snd ?r)). anonymous (cb u) \<longrightarrow> tid u \<noteq> k))"
    using p(10) by blast
  have kept: "\<forall>u\<in>set (pending ?tt).
                 (\<exists>j. cb u = StartCb j \<or> cb u = ForceLockCb j) \<or> cb u = RollingClearCb
                 \<longrightarrow> u \<in> set (pending (snd ?r))"
  proof (intro ballI impI)
    fix u assume u: "u \<in> set (pending ?tt)"
      and k: "(\<exists>j. cb u = StartCb j \<or> cb u = ForceLockCb j) \<or> cb u = RollingClearCb"
    from ns u have "\<forall>j. cb u \<noteq> StartCb j" by (simp add: noStart_def)
    with k have "anonymous (cb u)" by (auto simp add: anonymous_def)
    with ids u n(1) have "tid u \<notin> refIds ?d" unfolding idsOK_def by blast
    with p(9) u show "u \<in> set (pending (snd ?r))" by blast
  qed
  have nx: "nextId ?tt \<le> nextId (snd ?r)" unfolding p(7) by simp
  have hs: "hasOnStable (fst ?r)" using p(2) n(4) by simp
  note inv = runDiceCb_inv[where f = dampingCb,
      OF st tm ids ro va i f p(1) hs p(3) p(4) p(5) p(6) nx new refs kept]
  show "staticOK (fire rnd (DampingCb i) w)" using inv(1) by simp
  show "timersOK T (fire rnd (DampingCb i) w)" using inv(2) by simp
  show "idsOK (fire rnd (DampingCb i) w)" using inv(3) by simp
  show "rollOK T (fire rnd (DampingCb i) w)" using inv(4) by simp
  show "valuesOK (fire rnd (DampingCb i) w)" using inv(5) by simp
  show "\<forall>j<5. liveAt w j \<longrightarrow> liveAt (fire rnd (DampingCb i) w) j" using inv(6) by simp
  show "cont (fire rnd (DampingCb i) w) = cont w" using inv(7) by simp
qed

subsection \<open>Callbacks of a die that may lock it\<close>

lemma getDiceValueFromRotation_range: "getDiceValueFromRotation q \<in> {1..6}"
proof -
  have l: "length faces = 6" by (simp add: faces_def)
  have ne: "faces \<noteq> []" by (simp add: faces_def)
  from faceStep_first_max[OF ne, of q 1] obtain k where k: "k < length faces"
    and f: "foldl (faceStep q) (None, 1) faces = (Some (alignment q (faces ! k)), fvalue (faces ! k))"
    by blast
  have "getDiceValueFromRotation q = fvalue (faces ! k)"
    by (simp add: getDiceValueFromRotation_def f)
  with faces_values[OF k] k l show ?thesis by simp
qed

text \<open>What a locking callback does to a die that has its handle and its \<^verbatim>\<open>onStable\<close> prop:
  either the lock state stays and nothing is reported, or the die becomes locked and
  reports its value once.\<close>

lemma lockDicePhysics_outcome:
  assumes "diceRef d \<noteq> None" "hasOnStable d"
  shows "lockOutcome d (lockDicePhysics d)" and "isLocked (fst (lockDicePhysics d))"
  using assms getDiceValueFromRotation_range
  by (auto simp add: lockOutcome_def lockDicePhysics_def Let_def refIds_def split: option.splits)

lemma forceLockCb_outcome:
  assumes "diceRef d \<noteq> None" "hasOnStable d"
  shows "lockOutcome d (forceLockCb d)" and "isLocked (fst (forceLockCb d))"
proof -
  show "lockOutcome d (forceLockCb d)"
  proof (cases "isLocked d")
    case True
    then show ?thesis using assms by (simp add: forceLockCb_def lockOutcome_def)
  next
    case False
    then show ?thesis using assms lockDicePhysics_outcome(1)[OF assms]
      by (simp add: forceLockCb_def)
  qed
  show "isLocked (fst (forceLockCb d))"
    using assms lockDicePhysics_outcome(2)[OF assms] by (simp add: forceLockCb_def)
qed

lemma checkStability_outcome:
  assumes "diceRef d \<noteq> None" "hasOnStable d"
  shows "lockOutcome d (checkStability now d)"
proof (cases "isLocked d")
  case True
  then show ?thesis using assms by (simp add: locked_noop lockOutcome_def)
next
  case False
  from assms(1) obtain rb where rb: "diceRef d = Some rb" by auto
  let ?d1 = "d\<lparr>positionHistory := pushed d rb now\<rparr>"
  have d1: "diceRef ?d1 \<noteq> None" "hasOnStable ?d1" using rb assms by simp_all
  have same: "lockOutcome d r = lockOutcome ?d1 r" for r
    by (simp add: lockOutcome_def refIds_def)
  have "checkStability now d = lockDicePhysics ?d1 \<or> checkStability now d = (?d1, [])"
    unfolding checkStability_eq[OF rb False] by (meson if_P if_not_P)
  then show ?thesis
  proof
    assume "checkStability now d = lockDicePhysics ?d1"
    then show ?thesis using lockDicePhysics_outcome(1)[OF d1] same by simp
  next
    assume "checkStability now d = (?d1, [])"
    then show ?thesis using rb assms by (simp add: lockOutcome_def refIds_def)
  qed
qed

lemma handleDiceStable_props:
  shows "resetCount (fst (handleDiceStable now i v (c, tt))) = resetCount c"
    and "isRolling (fst (handleDiceStable now i v (c, tt))) = isRolling c"
    and "needsRender (fst (handleDiceStable now i v (c, tt)))"
    and "diceValues (fst (handleDiceStable now i v (c, tt))) = assignIndex (spread (diceValues c)) i v"
    and "nextId tt \<le> nextId (snd (handleDiceStable now i v (c, tt)))"
    and "set (pending tt) \<subseteq> set (pending (snd (handleDiceStable now i v (c, tt))))"
    and "\<forall>u\<in>set (pending (snd (handleDiceStable now i v (c, tt)))).
            u \<in> set (pending tt)
          \<or> u = \<lparr>tid = nextId tt, due = now + 100, period = None, cb = CompletionCb\<rparr>
            \<and> nextId tt < nextId (snd (handleDiceStable now i v (c, tt)))"
  by (auto simp add: handleDiceStable_def Let_def setTimeout_simps)

lemma runLockCb_inv:
  assumes st: "staticOK w" and tm: "timersOK T w" and ids: "idsOK w" and ro: "rollOK T w"
    and va: "valuesOK w" and i: "i < 5"
    and lo: "lockOutcome (dices w ! i) (f (dices w ! i))"
    and late: "T + 100 < clock w"
    and early: "\<not> isLocked (dices w ! i) \<longrightarrow> clock w \<le> T + 3100"
  shows "staticOK (runLockCb f i w)" and "timersOK T (runLockCb f i w)"
    and "idsOK (runLockCb f i w)" and "rollOK T (runLockCb f i w)"
    and "valuesOK (runLockCb f i w)"
    and "\<forall>j<5. liveAt w j \<longrightarrow> liveAt (runLockCb f i w) j"
    and "isLocked (fst (f (dices w ! i))) \<longrightarrow> liveAt (runLockCb f i w) i"
    and "isRolling (cont (runLockCb f i w)) = isRolling (cont w)"
proof -
  let ?d = "dices w ! i"
  let ?r = "f ?d"
  let ?s = "notify (clock w) (snd ?r) (cont w, timers w)"
  let ?w = "runLockCb f i w"
  note n = static_nth[OF st i]
  have len: "length (dices w) = 5" using st by (simp add: staticOK_def)
  have fld: "dices ?w = (dices w)[i := fst ?r]" "timers ?w = snd ?s" "cont ?w = fst ?s"
    "clock ?w = clock w"
    using i len by (simp_all add: runLockCb_def Let_def)
  have nth: "dices ?w ! j = (if j = i then fst ?r else dices w ! j)" if "j < 5" for j
    using that len i by (simp add: fld nth_list_update)
  from lo have frame: "index (fst ?r) = index ?d" "hasOnStable (fst ?r)"
    "lastResetCount (fst ?r) = lastResetCount ?d" "diceRef (fst ?r) \<noteq> None"
    "refIds (fst ?r) = refIds ?d"
    using n(4) by (simp_all add: lockOutcome_def)
  \<comment> \<open>the container and the timer table after the notifications\<close>
  have cont_tt: "resetCount (fst ?s) = resetCount (cont w) \<and> isRolling (fst ?s) = isRolling (cont w)
      \<and> nextId (timers w) \<le> nextId (snd ?s)
      \<and> set (pending (timers w)) \<subseteq> set (pending (snd ?s))
      \<and> (\<forall>u\<in>set (pending (snd ?s)). u \<in> set (pending (timers w))
            \<or> u = \<lparr>tid = nextId (timers w), due = clock w + 100, period = None, cb = CompletionCb\<rparr>
              \<and> nextId (timers w) < nextId (snd ?s) \<and> \<not> isLocked ?d)
      \<and> (\<forall>j<5. isLocked (dices ?w ! j) \<longrightarrow>
            valAt (diceValues (fst ?s)) j = Some (finalValue (dices ?w ! j))
          \<and> finalValue (dices ?w ! j) \<in> {1..6})"
  proof -
    from lo consider
      (quiet) "snd ?r = []" "isLocked (fst ?r) = isLocked ?d" "finalValue (fst ?r) = finalValue ?d"
      | (locks) "\<not> isLocked ?d" "isLocked (fst ?r)" "snd ?r = [(index ?d, finalValue (fst ?r))]"
          "finalValue (fst ?r) \<in> {1..6}"
      unfolding lockOutcome_def by blast
    then show ?thesis
    proof cases
      case quiet
      have s: "?s = (cont w, timers w)" by (simp add: notify_def quiet(1))
      have "\<forall>j<5. isLocked (dices ?w ! j) \<longrightarrow>
            valAt (diceValues (cont w)) j = Some (finalValue (dices ?w ! j))
          \<and> finalValue (dices ?w ! j) \<in> {1..6}"
      proof (intro allI impI)
        fix j :: nat assume j: "j < 5" and l: "isLocked (dices ?w ! j)"
        from l have "isLocked (dices w ! j)" using nth[OF j] quiet(2) by (simp split: if_splits)
        with va j have "valAt (diceValues (cont w)) j = Some (finalValue (dices w ! j))
          \<and> finalValue (dices w ! j) \<in> {1..6}" by (simp add: valuesOK_def)
        moreover have "finalValue (dices ?w ! j) = finalValue (dices w ! j)"
          using nth[OF j] quiet(3) by simp
        ultimately show "valAt (diceValues (cont w)) j = Some (finalValue (dices ?w ! j))
          \<and> finalValue (dices ?w ! j) \<in> {1..6}" by simp
      qed
      then show ?thesis unfolding s by simp
    next
      case locks
      let ?v = "finalValue (fst ?r)"
      have s: "?s = handleDiceStable (clock w) i ?v (cont w, timers w)"
        by (simp add: notify_def locks(3) n(2))
      note h = handleDiceStable_props[where now = "clock w" and i = i and v = ?v and c = "cont w"
          and tt = "timers w"]
      have "\<forall>j<5. isLocked (dices ?w ! j) \<longrightarrow>
            valAt (diceValues (fst ?s)) j = Some (finalValue (dices ?w ! j))
          \<and> finalValue (dices ?w ! j) \<in> {1..6}"
      proof (intro allI impI)
        fix j :: nat assume j: "j < 5" and l: "isLocked (dices ?w ! j)"
        show "valAt (diceValues (fst ?s)) j = Some (finalValue (dices ?w ! j))
          \<and> finalValue (dices ?w ! j) \<in> {1..6}"
        proof (cases "j = i")
          case True
          then show ?thesis
            unfolding s h(4) using nth[OF j] locks(4) by (simp add: valAt_assignIndex)
        next
          case False
          with l have "isLocked (dices w ! j)" using nth[OF j] by simp
          with va j have "valAt (diceValues (cont w)) j = Some (finalValue (dices w ! j))
            \<and> finalValue (dices w ! j) \<in> {1..6}" by (simp add: valuesOK_def)
          then show ?thesis
            unfolding s h(4) using nth[OF j] False
            by (simp add: valAt_assignIndex valAt_spread)
        qed
      qed
      then show ?thesis
        unfolding s using h(1,2,5,6,7) locks(1) by auto
    qed
  qed
  show "isRolling (cont ?w) = isRolling (cont w)" using cont_tt by (simp add: fld)
  show "staticOK ?w"
    unfolding staticOK_def fld
  proof (intro conjI allI impI ballI)
    show "length ((dices w)[i := fst ?r]) = 5" using len by simp
    fix j :: nat assume "j < 5"
    then show "index ((dices w)[i := fst ?r] ! j) = j"
      using st frame(1) len i by (auto simp add: staticOK_def nth_list_update)
  next
    fix d assume "d \<in> set ((dices w)[i := fst ?r])"
    then have "d = fst ?r \<or> d \<in> set (dices w)" by (rule set_update_cases)
    then show "diceRef d \<noteq> None" "hasOnStable d" "lastResetCount d = resetCount (fst ?s)"
      using st frame(2,3,4) n(1) cont_tt by (auto simp add: staticOK_def)
  qed
  have newt: "clock w \<le> due u \<and> tid u < nextId (snd ?s) \<and> timerOK T u
              \<and> (anonymous (cb u) \<longrightarrow> (\<forall>d\<in>set (dices w). tid u \<notin> refIds d))"
    if u: "u \<in> set (pending (snd ?s))" for u
  proof -
    from cont_tt u have "u \<in> set (pending (timers w))
            \<or> u = \<lparr>tid = nextId (timers w), due = clock w + 100, period = None, cb = CompletionCb\<rparr>
              \<and> nextId (timers w) < nextId (snd ?s) \<and> \<not> isLocked ?d"
      by blast
    then show ?thesis
    proof
      assume o: "u \<in> set (pending (timers w))"
      with tm cont_tt have "clock w \<le> due u \<and> tid u < nextId (snd ?s) \<and> timerOK T u"
        by (auto simp add: timersOK_def)
      moreover have "anonymous (cb u) \<longrightarrow> (\<forall>d\<in>set (dices w). tid u \<notin> refIds d)"
        using ids o unfolding idsOK_def by blast
      ultimately show ?thesis by blast
    next
      assume c: "u = \<lparr>tid = nextId (timers w), due = clock w + 100, period = None, cb = CompletionCb\<rparr>
              \<and> nextId (timers w) < nextId (snd ?s) \<and> \<not> isLocked ?d"
      with early have e: "clock w \<le> T + 3100" by blast
      have "timerOK T u" using c late e by (simp add: timerOK_new)
      moreover have "\<forall>d\<in>set (dices w). tid u \<notin> refIds d"
        using ids c unfolding idsOK_def by fastforce
      ultimately show ?thesis using c by simp
    qed
  qed
  show "timersOK T ?w"
    unfolding timersOK_def fld using newt by blast
  show "idsOK ?w"
    unfolding idsOK_def fld
  proof (intro ballI conjI impI)
    fix d k assume d: "d \<in> set ((dices w)[i := fst ?r])" and k: "k \<in> refIds d"
    from d have "d = fst ?r \<or> d \<in> set (dices w)" by (rule set_update_cases)
    with k frame(5) n(1) obtain d0 where d0: "d0 \<in> set (dices w)" "k \<in> refIds d0" by auto
    with ids have "k < nextId (timers w)" unfolding idsOK_def by blast
    with cont_tt show "k < nextId (snd ?s)" by simp
    fix u assume "u \<in> set (pending (snd ?s))" "anonymous (cb u)"
    with newt d0 show "tid u \<noteq> k" by blast
  qed
  show "rollOK T ?w"
  proof (cases "isRolling (cont w)")
    case True
    with ro obtain u where "u \<in> set (pending (timers w))" "cb u = RollingClearCb"
      by (auto simp add: rollOK_def)
    with cont_tt have "\<exists>t\<in>set (pending (snd ?s)). cb t = RollingClearCb" by blast
    with True cont_tt show ?thesis unfolding rollOK_def fld by simp
  next
    case False
    with ro cont_tt show ?thesis unfolding rollOK_def fld by simp
  qed
  show "valuesOK ?w"
    unfolding valuesOK_def fld(3) using cont_tt by blast
  have locked_stays: "isLocked (dices ?w ! j)" if "j < 5" "isLocked (dices w ! j)" for j
    using that nth[of j] lo unfolding lockOutcome_def by (cases "j = i") auto
  show "\<forall>j<5. liveAt w j \<longrightarrow> liveAt ?w j"
  proof (intro allI impI)
    fix j :: nat assume j: "j < 5" and l: "liveAt w j"
    from l show "liveAt ?w j"
      unfolding liveAt_def fld(2) using locked_stays[OF j] cont_tt by blast
  qed
  show "isLocked (fst ?r) \<longrightarrow> liveAt ?w i"
    unfolding liveAt_def using nth[OF i] by simp
qed

subsection \<open>One turn of the event loop keeps the invariant\<close>

lemma noStart_late:
  assumes "timersOK T w" "T + 100 < clock w"
  shows "noStart w"
  unfolding noStart_def
proof (intro ballI allI notI)
  fix u i assume "u \<in> set (pending (timers w))" "cb u = StartCb i"
  with assms(1) have "clock w \<le> due u" "due u = T + 100"
    by (auto simp add: timersOK_def timerOK_def)
  with assms(2) show False by simp
qed

lemma afterHandler_inv:
  assumes "staticOK w" "timersOK T w" "idsOK w" "liveOK w" "rollOK T w" "valuesOK w"
    and "needsRender (cont w) \<longrightarrow> noStart w"
  shows "rollInv T (afterHandler w)" and "\<not> needsRender (cont (afterHandler w))"
    and "isRolling (cont (afterHandler w)) = isRolling (cont w)"
proof -
  show "rollInv T (afterHandler w)"
  proof (cases "needsRender (cont w)")
    case True
    with assms(7) have "noStart w" by simp
    from render_inv(1)[OF assms(1-6) this] True show ?thesis by (simp add: afterHandler_def)
  next
    case False
    with assms(1-6) show ?thesis by (simp add: afterHandler_def rollInv_def)
  qed
  show "\<not> needsRender (cont (afterHandler w))"
  proof (cases "needsRender (cont w)")
    case True
    with assms(7) have "noStart w" by simp
    from render_inv(2)[OF assms(1-6) this] True show ?thesis by (simp add: afterHandler_def)
  next
    case False
    then show ?thesis by (simp add: afterHandler_def)
  qed
  show "isRolling (cont (afterHandler w)) = isRolling (cont w)"
  proof (cases "needsRender (cont w)")
    case True
    with assms(7) have "noStart w" by simp
    from render_inv(3)[OF assms(1-6) this] True show ?thesis by (simp add: afterHandler_def)
  next
    case False
    then show ?thesis by (simp add: afterHandler_def)
  qed
qed

lemma advance_cont: "cont (advance t f w) = cont w"
  by (simp add: advance_def)

lemma runDiceCb_out_of_range: "\<not> i < length (dices w) \<Longrightarrow> runDiceCb f i w = w"
  by (simp add: runDiceCb_def)

lemma runLockCb_out_of_range: "\<not> i < length (dices w) \<Longrightarrow> runLockCb f i w = w"
  by (simp add: runLockCb_def)

lemma runLockCb_clock: "clock (runLockCb f i w) = clock w"
  by (simp add: runLockCb_def Let_def)

lemma fire_pieces:
  assumes inv: "rollInv T w" and nr: "\<not> needsRender (cont w)"
    and nt: "nextTimer (timers w) = Some t"
  shows "staticOK (fire rnd (cb t) (advance t f w))
      \<and> timersOK T (fire rnd (cb t) (advance t f w))
      \<and> idsOK (fire rnd (cb t) (advance t f w))
      \<and> liveOK (fire rnd (cb t) (advance t f w))
      \<and> rollOK T (fire rnd (cb t) (advance t f w))
      \<and> valuesOK (fire rnd (cb t) (advance t f w))
      \<and> (needsRender (cont (fire rnd (cb t) (advance t f w)))
           \<longrightarrow> noStart (fire rnd (cb t) (advance t f w)))"
proof -
  let ?a = "advance t f w"
  let ?w = "fire rnd (cb t) ?a"
  from inv have st0: "staticOK w" and tm0: "timersOK T w" and ids0: "idsOK w"
    and lv0: "liveOK w" and ro0: "rollOK T w" and va0: "valuesOK w"
    by (simp_all add: rollInv_def)
  note m = nextTimer_Some[OF nt]
  have tok: "timerOK T t" using tm0 m(1) by (simp add: timersOK_def)
  have st: "staticOK ?a" by (rule advance_static[OF st0])
  have tm: "timersOK T ?a" by (rule advance_timers[OF tm0 nt])
  have ids: "idsOK ?a" by (rule advance_ids[OF ids0])
  have va: "valuesOK ?a" by (rule advance_values[OF st0 va0])
  have ck: "clock ?a = due t" by (rule advance_clock[OF tm0 nt])
  have len: "length (dices ?a) = 5" using st by (simp add: staticOK_def)
  have nra: "\<not> needsRender (cont ?a)" using nr by (simp add: advance_cont)
  have lv: "liveAt ?a j" if "j < 5" "cb t \<noteq> StartCb j" "cb t \<noteq> ForceLockCb j" for j
    using advance_live[OF st0 _ that] lv0 that(1) by (simp add: liveOK_def)
  have ro: "rollOK T ?a" if "cb t \<noteq> RollingClearCb"
    by (rule advance_roll[OF tm0 ro0 nt that])
  show ?thesis
  proof (cases "cb t")
    case RollingClearCb
    have w: "?w = ?a\<lparr>cont := rollingClearCb (cont ?a)\<rparr>" by (simp add: RollingClearCb)
    have d: "clock ?a = T + 4000" using tok ck by (simp add: timerOK_def RollingClearCb)
    have "liveOK ?a" unfolding liveOK_def using lv RollingClearCb by simp
    then have "liveOK ?w" by (simp add: w liveOK_def liveAt_def)
    moreover have "staticOK ?w" using st by (simp add: w staticOK_def rollingClearCb_def)
    moreover have "timersOK T ?w" using tm by (simp add: w timersOK_def)
    moreover have "idsOK ?w" using ids by (simp add: w idsOK_def)
    moreover have "rollOK T ?w" using d by (simp add: w rollOK_def rollingClearCb_def)
    moreover have "valuesOK ?w" using va by (simp add: w valuesOK_def rollingClearCb_def)
    moreover have "noStart ?a" using noStart_late[OF tm] d by simp
    then have "noStart ?w" by (simp add: w noStart_def)
    ultimately show ?thesis by simp
  next
    case CompletionCb
    have w: "?w = ?a\<lparr>cont := completionCb (cont ?a)\<rparr>" by (simp add: CompletionCb)
    have d: "T + 100 < clock ?a" using tok ck by (simp add: timerOK_def CompletionCb)
    have "liveOK ?a" unfolding liveOK_def using lv CompletionCb by simp
    then have "liveOK ?w" by (simp add: w liveOK_def liveAt_def)
    moreover have "staticOK ?w" using st by (simp add: w staticOK_def completionCb_def)
    moreover have "timersOK T ?w" using tm by (simp add: w timersOK_def)
    moreover have "idsOK ?w" using ids by (simp add: w idsOK_def)
    moreover have "rollOK T ?w" using ro CompletionCb by (simp add: w rollOK_def completionCb_def)
    moreover have "valuesOK ?w" using va by (simp add: w valuesOK_def completionCb_def)
    moreover have "noStart ?a" using noStart_late[OF tm] d by simp
    then have "noStart ?w" by (simp add: w noStart_def)
    ultimately show ?thesis by simp
  next
    case (StartCb i)
    have r: "rollOK T ?a" using ro StartCb by simp
    show ?thesis
    proof (cases "i < 5")
      case True
      have c: "clock ?a = T + 100" using tok ck by (simp add: timerOK_def StartCb)
      note fi = fire_StartCb[OF st tm ids r va True c, of rnd]
      have "liveAt ?w j" if j: "j < 5" for j
      proof (cases "j = i")
        case True
        then show ?thesis using fi(7) StartCb by simp
      next
        case False
        with lv[OF j] StartCb have "liveAt ?a j" by simp
        with fi(6) j show ?thesis using StartCb by simp
      qed
      then have "liveOK ?w" by (simp add: liveOK_def)
      moreover have "\<not> needsRender (cont ?w)" using fi(8) nra StartCb by simp
      ultimately show ?thesis using fi(1-5) StartCb by simp
    next
      case False
      then have w: "?w = ?a" using len by (simp add: StartCb runDiceCb_out_of_range)
      have "liveOK ?a" unfolding liveOK_def using lv StartCb False by auto
      with st tm ids r va nra show ?thesis by (simp add: w)
    qed
  next
    case (StabilityCb i)
    have r: "rollOK T ?a" using ro StabilityCb by simp
    have l: "liveOK ?a" unfolding liveOK_def using lv StabilityCb by simp
    show ?thesis
    proof (cases "i < 5")
      case True
      have c: "clock ?a = T + 1600" using tok ck by (simp add: timerOK_def StabilityCb)
      note fi = fire_StabilityCb[OF st tm ids r va True c, of rnd]
      have "liveOK ?w" using fi(6) l StabilityCb by (simp add: liveOK_def)
      moreover have "\<not> needsRender (cont ?w)" using fi(7) nra StabilityCb by simp
      ultimately show ?thesis using fi(1-5) StabilityCb by simp
    next
      case False
      then have w: "?w = ?a" using len by (simp add: StabilityCb runDiceCb_out_of_range)
      with st tm ids r va nra l show ?thesis by (simp add: w)
    qed
  next
    case (DampingCb i)
    have r: "rollOK T ?a" using ro DampingCb by simp
    have l: "liveOK ?a" unfolding liveOK_def using lv DampingCb by simp
    show ?thesis
    proof (cases "i < 5")
      case True
      have c: "T + 100 < clock ?a" using tok ck by (simp add: timerOK_def DampingCb)
      note fi = fire_DampingCb[OF st tm ids r va True noStart_late[OF tm c], of rnd]
      have "liveOK ?w" using fi(6) l DampingCb by (simp add: liveOK_def)
      moreover have "\<not> needsRender (cont ?w)" using fi(7) nra DampingCb by simp
      ultimately show ?thesis using fi(1-5) DampingCb by simp
    next
      case False
      then have w: "?w = ?a" using len by (simp add: DampingCb runDiceCb_out_of_range)
      with st tm ids r va nra l show ?thesis by (simp add: w)
    qed
  next
    case (CheckCb i)
    have r: "rollOK T ?a" using ro CheckCb by simp
    have l: "liveOK ?a" unfolding liveOK_def using lv CheckCb by simp
    have c: "T + 100 < clock ?a" using tok ck by (simp add: timerOK_def CheckCb)
    show ?thesis
    proof (cases "i < 5")
      case True
      note n = static_nth[OF st True]
      have lo: "lockOutcome (dices ?a ! i) (checkStability (clock ?a) (dices ?a ! i))"
        by (rule checkStability_outcome[OF n(3,4)])
      have early: "\<not> isLocked (dices ?a ! i) \<longrightarrow> clock ?a \<le> T + 3100"
      proof
        assume "\<not> isLocked (dices ?a ! i)"
        with l True obtain u where u: "u \<in> set (pending (timers ?a))"
          "cb u = StartCb i \<or> cb u = ForceLockCb i"
          unfolding liveOK_def liveAt_def by blast
        with tm have "clock ?a \<le> due u" "timerOK T u" by (simp_all add: timersOK_def)
        with u(2) show "clock ?a \<le> T + 3100" by (auto simp add: timerOK_def)
      qed
      note fi = runLockCb_inv[where f = "checkStability (clock ?a)",
          OF st tm ids r va True lo c early]
      have "liveOK ?w" using fi(6) l CheckCb by (simp add: liveOK_def)
      moreover have "noStart (runLockCb (checkStability (clock ?a)) i ?a)"
        by (rule noStart_late[OF fi(2)]) (simp add: runLockCb_clock c)
      then have "noStart ?w" using CheckCb by simp
      ultimately show ?thesis using fi(1-5) CheckCb by simp
    next
      case False
      then have w: "?w = ?a" using len by (simp add: CheckCb runLockCb_out_of_range)
      with st tm ids r va nra l show ?thesis by (simp add: w)
    qed
  next
    case (ForceLockCb i)
    have r: "rollOK T ?a" using ro ForceLockCb by simp
    have c: "clock ?a = T + 3100" using tok ck by (simp add: timerOK_def ForceLockCb)
    show ?thesis
    proof (cases "i < 5")
      case True
      note n = static_nth[OF st True]
      note fo = forceLockCb_outcome[OF n(3,4)]
      have late: "T + 100 < clock ?a" using c by simp
      have early: "\<not> isLocked (dices ?a ! i) \<longrightarrow> clock ?a \<le> T + 3100" using c by simp
      note fi = runLockCb_inv[where f = forceLockCb, OF st tm ids r va True fo(1) late early]
      have "liveAt ?w j" if j: "j < 5" for j
      proof (cases "j = i")
        case True
        then show ?thesis using fi(7) fo(2) ForceLockCb by simp
      next
        case False
        with lv[OF j] ForceLockCb have "liveAt ?a j" by simp
        with fi(6) j show ?thesis using ForceLockCb by simp
      qed
      then have "liveOK ?w" by (simp add: liveOK_def)
      moreover have "noStart (runLockCb forceLockCb i ?a)"
        by (rule noStart_late[OF fi(2)]) (simp add: runLockCb_clock late)
      then have "noStart ?w" using ForceLockCb by simp
      ultimately show ?thesis using fi(1-5) ForceLockCb by simp
    next
      case False
      then have w: "?w = ?a" using len by (simp add: ForceLockCb runLockCb_out_of_range)
      have "liveOK ?a" unfolding liveOK_def using lv ForceLockCb False by auto
      with st tm ids r va nra show ?thesis by (simp add: w)
    qed
  qed
qed

lemma fired_inv:
  assumes inv: "rollInv T w" and nr: "\<not> needsRender (cont w)"
    and nt: "nextTimer (timers w) = Some t"
  shows "rollInv T (afterHandler (fire rnd (cb t) (advance t f w)))"
    and "\<not> needsRender (cont (afterHandler (fire rnd (cb t) (advance t f w))))"
    and "isRolling (cont (afterHandler (fire rnd (cb t) (advance t f w))))
          = isRolling (cont (fire rnd (cb t) (advance t f w)))"
proof -
  let ?w = "fire rnd (cb t) (advance t f w)"
  from fire_pieces[OF assms, of rnd f]
  have p: "staticOK ?w" "timersOK T ?w" "idsOK ?w" "liveOK ?w" "rollOK T ?w"
    "valuesOK ?w" "needsRender (cont ?w) \<longrightarrow> noStart ?w"
    by blast+
  show "rollInv T (afterHandler ?w)" by (rule afterHandler_inv(1)[OF p])
  show "\<not> needsRender (cont (afterHandler ?w))" by (rule afterHandler_inv(2)[OF p])
  show "isRolling (cont (afterHandler ?w)) = isRolling (cont ?w)"
    by (rule afterHandler_inv(3)[OF p])
qed

lemma step_inv:
  assumes "rollInv T w" "\<not> needsRender (cont w)"
  shows "rollInv T (step w e)" and "\<not> needsRender (cont (step w e))"
proof -
  show "rollInv T (step w e)"
  proof (cases "nextTimer (timers w)")
    case None
    then show ?thesis using assms by (simp add: step_def)
  next
    case (Some t)
    from fired_inv(1)[OF assms Some] show ?thesis by (simp add: step_def Some)
  qed
  show "\<not> needsRender (cont (step w e))"
  proof (cases "nextTimer (timers w)")
    case None
    then show ?thesis using assms by (simp add: step_def)
  next
    case (Some t)
    from fired_inv(2)[OF assms Some] show ?thesis by (simp add: step_def Some)
  qed
qed

lemma run_inv:
  assumes "rollInv T w" "\<not> needsRender (cont w)"
  shows "rollInv T (run w es) \<and> \<not> needsRender (cont (run w es))"
  using assms
proof (induction es arbitrary: w)
  case Nil
  then show ?case by (simp add: run_def)
next
  case (Cons e es)
  from step_inv[OF Cons.prems, of e] Cons.IH[of "step w e"]
  show ?case by (simp add: run_def)
qed

subsection \<open>The click that starts the roll\<close>

lemma clearRef_nothing:
  assumes "\<forall>u\<in>set (pending tt). Some (tid u) \<noteq> r"
  shows "clearRef r tt = tt"
proof (cases r)
  case None
  then show ?thesis by (simp add: clearRef_def)
next
  case (Some k)
  with assms have "filter (\<lambda>t. tid t \<noteq> k) (pending tt) = pending tt"
    by (auto simp add: filter_id_conv)
  with Some show ?thesis by (simp add: clearRef_def clearTimer_def)
qed

lemma resetEffect_respawn:
  assumes "0 < rc" "rc \<noteq> lastResetCount d"
    and "\<forall>k\<in>refIds d. \<forall>u\<in>set (pending tt). tid u \<noteq> k"
  shows "snd (resetEffect rc now (d, tt))
           = tt\<lparr>pending := pending tt @ [\<lparr>tid = nextId tt, due = now + startDelay d, period = None,
                                           cb = StartCb (index d)\<rparr>],
                 nextId := nextId tt + 1\<rparr>"
    and "index (fst (resetEffect rc now (d, tt))) = index d"
    and "diceRef (fst (resetEffect rc now (d, tt))) = diceRef d"
    and "hasOnStable (fst (resetEffect rc now (d, tt))) = hasOnStable d"
    and "lastResetCount (fst (resetEffect rc now (d, tt))) = rc"
    and "\<not> isLocked (fst (resetEffect rc now (d, tt)))"
    and "refIds (fst (resetEffect rc now (d, tt))) = {nextId tt}"
proof -
  have c: "clearRef (timerRef d) tt = tt" "clearRef (stabilityTimerRef d) tt = tt"
    "clearRef (gradualDampingRef d) tt = tt" "clearRef (stabilityCheckRef d) tt = tt"
    using assms(3) by (auto intro!: clearRef_nothing simp add: refIds_def)
  show "snd (resetEffect rc now (d, tt))
           = tt\<lparr>pending := pending tt @ [\<lparr>tid = nextId tt, due = now + startDelay d, period = None,
                                           cb = StartCb (index d)\<rparr>],
                 nextId := nextId tt + 1\<rparr>"
    using assms(1,2) by (simp add: resetEffect_def Let_def c setTimeout_def)
  show "index (fst (resetEffect rc now (d, tt))) = index d"
    "diceRef (fst (resetEffect rc now (d, tt))) = diceRef d"
    "hasOnStable (fst (resetEffect rc now (d, tt))) = hasOnStable d"
    "lastResetCount (fst (resetEffect rc now (d, tt))) = rc"
    "\<not> isLocked (fst (resetEffect rc now (d, tt)))"
    "refIds (fst (resetEffect rc now (d, tt))) = {nextId tt}"
    using assms(1,2) by (simp_all add: resetEffect_def Let_def c setTimeout_def refIds_def)
qed

lemma effectAll_respawn:
  assumes "0 < rc"
    and "\<forall>d\<in>set ds. rc \<noteq> lastResetCount d \<and> startDelay d = 100 \<and> (\<forall>k\<in>refIds d. k < n)"
    and "\<forall>u\<in>set (pending tt). n \<le> tid u" and "n \<le> nextId tt"
  shows "length (fst (effectAll rc now ds tt)) = length ds
       \<and> nextId (snd (effectAll rc now ds tt)) = nextId tt + length ds
       \<and> set (pending (snd (effectAll rc now ds tt)))
           = set (pending tt)
             \<union> {\<lparr>tid = nextId tt + i, due = now + 100, period = None, cb = StartCb (index (ds ! i))\<rparr>
                | i. i < length ds}
       \<and> (\<forall>i<length ds.
             index (fst (effectAll rc now ds tt) ! i) = index (ds ! i)
           \<and> diceRef (fst (effectAll rc now ds tt) ! i) = diceRef (ds ! i)
           \<and> hasOnStable (fst (effectAll rc now ds tt) ! i) = hasOnStable (ds ! i)
           \<and> lastResetCount (fst (effectAll rc now ds tt) ! i) = rc
           \<and> \<not> isLocked (fst (effectAll rc now ds tt) ! i)
           \<and> refIds (fst (effectAll rc now ds tt) ! i) = {nextId tt + i})"
  using assms(2-4)
proof (induction ds arbitrary: tt)
  case Nil
  then show ?case by simp
next
  case (Cons d ds)
  let ?r = "resetEffect rc now (d, tt)"
  have d: "rc \<noteq> lastResetCount d" "startDelay d = 100" "\<forall>k\<in>refIds d. k < n"
    using Cons.prems(1) by simp_all
  have nohit: "\<forall>k\<in>refIds d. \<forall>u\<in>set (pending tt). tid u \<noteq> k"
    using d(3) Cons.prems(2) by fastforce
  note re = resetEffect_respawn[OF assms(1) d(1) nohit, of now]
  have p1: "\<forall>d\<in>set ds. rc \<noteq> lastResetCount d \<and> startDelay d = 100 \<and> (\<forall>k\<in>refIds d. k < n)"
    using Cons.prems(1) by simp
  have p2: "\<forall>u\<in>set (pending (snd ?r)). n \<le> tid u"
    using Cons.prems(2,3) by (auto simp add: re(1))
  have p3: "n \<le> nextId (snd ?r)" using Cons.prems(3) by (simp add: re(1))
  note ih = Cons.IH[OF p1 p2 p3]
  have nx: "nextId (snd ?r) = nextId tt + 1" by (simp add: re(1))
  have pd: "set (pending (snd ?r)) = set (pending tt)
      \<union> {\<lparr>tid = nextId tt, due = now + 100, period = None, cb = StartCb (index d)\<rparr>}"
    by (simp add: re(1) d(2))
  have e: "effectAll rc now (d # ds) tt
            = (fst ?r # fst (effectAll rc now ds (snd ?r)), snd (effectAll rc now ds (snd ?r)))"
    by (simp add: Let_def)
  have set_eq: "{\<lparr>tid = nextId tt, due = now + 100, period = None, cb = StartCb (index d)\<rparr>}
       \<union> {\<lparr>tid = nextId tt + 1 + i, due = now + 100, period = None, cb = StartCb (index (ds ! i))\<rparr>
                | i. i < length ds}
      = {\<lparr>tid = nextId tt + i, due = now + 100, period = None, cb = StartCb (index ((d # ds) ! i))\<rparr>
                | i. i < length (d # ds)}" (is "?A \<union> ?B = ?C")
  proof (intro set_eqI iffI)
    fix x assume "x \<in> ?A \<union> ?B"
    then show "x \<in> ?C"
    proof
      assume "x \<in> ?A"
      then show ?thesis by (auto intro!: exI[of _ 0])
    next
      assume "x \<in> ?B"
      then obtain i where "i < length ds"
        "x = \<lparr>tid = nextId tt + 1 + i, due = now + 100, period = None, cb = StartCb (index (ds ! i))\<rparr>"
        by blast
      then show ?thesis by (auto intro!: exI[of _ "Suc i"])
    qed
  next
    fix x assume "x \<in> ?C"
    then obtain i where i: "i < length (d # ds)"
      "x = \<lparr>tid = nextId tt + i, due = now + 100, period = None, cb = StartCb (index ((d # ds) ! i))\<rparr>"
      by blast
    show "x \<in> ?A \<union> ?B"
    proof (cases i)
      case 0
      with i show ?thesis by simp
    next
      case (Suc j)
      with i show ?thesis by (auto intro!: exI[of _ j])
    qed
  qed
  show ?case
  proof (intro conjI allI impI)
    show "length (fst (effectAll rc now (d # ds) tt)) = length (d # ds)"
      using ih by (simp add: e del: effectAll.simps)
    show "nextId (snd (effectAll rc now (d # ds) tt)) = nextId tt + length (d # ds)"
      using ih by (simp add: e nx del: effectAll.simps)
    show "set (pending (snd (effectAll rc now (d # ds) tt)))
           = set (pending tt)
             \<union> {\<lparr>tid = nextId tt + i, due = now + 100, period = None, cb = StartCb (index ((d # ds) ! i))\<rparr>
                | i. i < length (d # ds)}"
      unfolding set_eq[symmetric] using ih by (simp add: e nx pd Un_assoc del: effectAll.simps)
  next
    fix i assume i: "i < length (d # ds)"
    show "index (fst (effectAll rc now (d # ds) tt) ! i) = index ((d # ds) ! i)"
      "diceRef (fst (effectAll rc now (d # ds) tt) ! i) = diceRef ((d # ds) ! i)"
      "hasOnStable (fst (effectAll rc now (d # ds) tt) ! i) = hasOnStable ((d # ds) ! i)"
      "lastResetCount (fst (effectAll rc now (d # ds) tt) ! i) = rc"
      "\<not> isLocked (fst (effectAll rc now (d # ds) tt) ! i)"
      "refIds (fst (effectAll rc now (d # ds) tt) ! i) = {nextId tt + i}"
      using i ih re(2-7) by (cases i; simp add: e nx del: effectAll.simps)+
  qed
qed

lemma quiescent_nth:
  assumes "quiescent w"
  shows "length (dices w) = 5" and "\<forall>i<5. index (dices w ! i) = i"
proof -
  from assms have m: "map index (dices w) = [0, 1, 2, 3, 4]" by (simp add: quiescent_def)
  then have "length (map index (dices w)) = 5" by simp
  then show l: "length (dices w) = 5" by simp
  show "\<forall>i<5. index (dices w ! i) = i"
  proof (intro allI impI)
    fix i :: nat assume i: "i < 5"
    then have "index (dices w ! i) = map index (dices w) ! i" using l by simp
    also have "\<dots> = i" unfolding m using i
      by (auto simp add: less_Suc_eq numeral_eq_Suc)
    finally show "index (dices w ! i) = i" .
  qed
qed

lemma click_inv:
  assumes q: "quiescent w"
  shows "rollInv (clock w) (click w)" and "\<not> needsRender (cont (click w))"
    and "isRolling (cont (click w))"
proof -
  let ?T = "clock w"
  let ?n = "nextId (timers w)"
  let ?rc = "resetCount (cont w) + 1"
  let ?s = "handleReset ?T (cont w, timers w)"
  let ?w1 = "w\<lparr>cont := fst ?s, timers := snd ?s\<rparr>"
  let ?RC = "\<lparr>tid = ?n, due = ?T + 4000, period = None, cb = RollingClearCb\<rparr>"
  from q have nr: "\<not> isRolling (cont w)" and pe: "pending (timers w) = []"
    and dq: "\<forall>d\<in>set (dices w). diceRef d \<noteq> None \<and> hasOnStable d \<and> startDelay d = 100
       \<and> lastResetCount d \<le> resetCount (cont w) \<and> (\<forall>i\<in>refIds d. i < ?n)"
    by (simp_all add: quiescent_def)
  note qn = quiescent_nth[OF q]
  have cr: "pending (clearRef (resetTimerRef (cont w)) (timers w)) = []"
    using pe clearRef_simps(2)[of "resetTimerRef (cont w)" "timers w"] by simp
  have s2: "pending (snd ?s) = [?RC]" "nextId (snd ?s) = ?n + 1"
    using nr by (simp_all add: handleReset_def Let_def setTimeout_simps cr clearRef_simps(1))
  have s1: "isRolling (fst ?s)" "needsRender (fst ?s)" "resetCount (fst ?s) = ?rc"
    using nr by (simp_all add: handleReset_def Let_def)
  \<comment> \<open>the render after the handler\<close>
  let ?tt1 = "cleanupAll (dices w) (snd ?s)"
  let ?r = "effectAll ?rc ?T (dices w) ?tt1"
  have c: "click w = ?w1\<lparr>cont := (fst ?s)\<lparr>needsRender := False\<rparr>, dices := fst ?r, timers := snd ?r\<rparr>"
    using s1 by (simp add: click_def Let_def afterHandler_def render_def)
  have fld: "cont (click w) = (fst ?s)\<lparr>needsRender := False\<rparr>" "dices (click w) = fst ?r"
    "timers (click w) = snd ?r" "clock (click w) = ?T"
    by (simp_all add: c)
  have t1: "nextId ?tt1 = ?n + 1" "set (pending ?tt1) = {?RC}"
  proof -
    show "nextId ?tt1 = ?n + 1" by (simp add: cleanupAll_simps s2)
    have "\<forall>d\<in>set (dices w). ?n \<notin> refIds d" using dq by fastforce
    then show "set (pending ?tt1) = {?RC}"
      by (auto simp add: cleanupAll_simps s2)
  qed
  have a2: "\<forall>d\<in>set (dices w). ?rc \<noteq> lastResetCount d \<and> startDelay d = 100
              \<and> (\<forall>k\<in>refIds d. k < ?n)"
    using dq by fastforce
  have a3: "\<forall>u\<in>set (pending ?tt1). ?n \<le> tid u" by (simp add: t1)
  have a4: "?n \<le> nextId ?tt1" by (simp add: t1)
  have a1: "0 < ?rc" by simp
  note ea = effectAll_respawn[OF a1 a2 a3 a4, of ?T]
  have len: "length (fst ?r) = 5" using ea qn(1) by simp
  have nx: "nextId (snd ?r) = ?n + 6" using ea qn(1) by (simp add: t1)
  have pd: "set (pending (snd ?r))
      = {?RC} \<union> {\<lparr>tid = ?n + 1 + i, due = ?T + 100, period = None, cb = StartCb i\<rparr> | i. i < 5}"
  proof -
    have "{\<lparr>tid = nextId ?tt1 + i, due = ?T + 100, period = None, cb = StartCb (index (dices w ! i))\<rparr>
                | i. i < length (dices w)}
        = {\<lparr>tid = ?n + 1 + i, due = ?T + 100, period = None, cb = StartCb i\<rparr> | i. i < 5}"
      using qn by (auto simp add: t1)
    with ea show ?thesis by (simp add: t1)
  qed
  have di: "\<forall>i<5. index (fst ?r ! i) = i \<and> diceRef (fst ?r ! i) \<noteq> None \<and> hasOnStable (fst ?r ! i)
      \<and> lastResetCount (fst ?r ! i) = ?rc \<and> \<not> isLocked (fst ?r ! i)
      \<and> refIds (fst ?r ! i) = {?n + 1 + i}"
  proof (intro allI impI)
    fix i :: nat assume i: "i < 5"
    have m: "dices w ! i \<in> set (dices w)" using i qn(1) by simp
    with dq have "diceRef (dices w ! i) \<noteq> None" "hasOnStable (dices w ! i)" by blast+
    with ea i qn show "index (fst ?r ! i) = i \<and> diceRef (fst ?r ! i) \<noteq> None \<and> hasOnStable (fst ?r ! i)
      \<and> lastResetCount (fst ?r ! i) = ?rc \<and> \<not> isLocked (fst ?r ! i)
      \<and> refIds (fst ?r ! i) = {?n + 1 + i}" by (simp add: t1)
  qed
  have dset: "\<forall>d\<in>set (fst ?r). \<exists>i<5. d = fst ?r ! i"
    using len by (auto simp add: in_set_conv_nth)
  have dall: "\<forall>d\<in>set (fst ?r). diceRef d \<noteq> None \<and> hasOnStable d \<and> lastResetCount d = ?rc"
  proof
    fix d assume "d \<in> set (fst ?r)"
    with dset obtain i where i: "i < 5" "d = fst ?r ! i" by blast
    from di i(1) show "diceRef d \<noteq> None \<and> hasOnStable d \<and> lastResetCount d = ?rc"
      unfolding i(2) by blast
  qed
  have 1: "staticOK (click w)"
    unfolding staticOK_def fld using len di dall s1(3) by simp
  have 2: "timersOK ?T (click w)"
    unfolding timersOK_def fld pd nx by (auto simp add: timerOK_def)
  have 3: "idsOK (click w)"
    unfolding idsOK_def fld
  proof (intro ballI conjI impI)
    fix d k assume d: "d \<in> set (fst ?r)" and k: "k \<in> refIds d"
    from d dset obtain i where i0: "i < 5" "d = fst ?r ! i" by blast
    from di i0(1) have "refIds (fst ?r ! i) = {?n + 1 + i}" by blast
    with k i0 have i: "i < 5" "k = ?n + 1 + i" by simp_all
    then show "k < nextId (snd ?r)" unfolding nx by simp
    fix u assume "u \<in> set (pending (snd ?r))" "anonymous (cb u)"
    then have "u = ?RC" unfolding pd by (auto simp add: anonymous_def)
    with i show "tid u \<noteq> k" by simp
  qed
  have 4: "liveOK (click w)"
    unfolding liveOK_def liveAt_def fld pd by auto
  have 5: "rollOK ?T (click w)"
    unfolding rollOK_def fld pd using s1 by auto
  have 6: "valuesOK (click w)"
    unfolding valuesOK_def fld using di by simp
  from 1 2 3 4 5 6 show "rollInv ?T (click w)" by (simp add: rollInv_def)
  show "\<not> needsRender (cont (click w))" by (simp add: fld)
  show "isRolling (cont (click w))" using s1 by (simp add: fld)
qed

subsection \<open>The roll ends: a measure that every handler decreases\<close>

lemma ticks_next: "d \<le> H \<Longrightarrow> ticks H (d + 100) + 1 = ticks H d"
proof -
  assume d: "d \<le> H"
  show ?thesis
  proof (cases "d + 100 \<le> H")
    case True
    then have "(H - d) = (H - (d + 100)) + 100" by simp
    then have "(H - d) div 100 = (H - (d + 100)) div 100 + 1"
      by (metis div_add_self2 zero_neq_numeral)
    with True d show ?thesis by (simp add: ticks_def)
  next
    case False
    with d have "H - d < 100" by simp
    with False d show ?thesis by (simp add: ticks_def)
  qed
qed

lemma sum_remove1:
  fixes f :: "'a \<Rightarrow> nat"
  shows "t \<in> set xs \<Longrightarrow> sum_list (map f (remove1 t xs)) + f t = sum_list (map f xs)"
  by (induction xs) auto

lemma sum_filter_le:
  fixes f :: "'a \<Rightarrow> nat"
  shows "sum_list (map f (filter P xs)) \<le> sum_list (map f xs)"
  by (induction xs) auto

lemma sum_replace:
  fixes f :: "'a \<Rightarrow> nat"
  assumes "t \<in> set xs" "f t' + 1 \<le> f t"
  shows "sum_list (map f (map (\<lambda>u. if u = t then t' else u) xs)) + 1 \<le> sum_list (map f xs)"
proof -
  have le: "sum_list (map f (map (\<lambda>u. if u = t then t' else u) ys)) \<le> sum_list (map f ys)" for ys
    using assms(2) by (induction ys) auto
  from assms(1) show ?thesis
  proof (induction xs)
    case Nil
    then show ?case by simp
  next
    case (Cons x xs)
    show ?case
    proof (cases "x = t")
      case True
      then show ?thesis using assms(2) le[of xs] by simp
    next
      case False
      with Cons show ?thesis by simp
    qed
  qed
qed

lemma load_rearm:
  assumes "t \<in> set (pending tt)" "timerOK T t" "due t \<le> T + 4000"
  shows "load (T + 4000) (rearm t tt) + (if period t = None then weight (T + 4000) t else 1)
           \<le> load (T + 4000) tt"
proof (cases "period t")
  case None
  then show ?thesis
    using sum_remove1[OF assms(1), of "weight (T + 4000)"] by (simp add: load_def rearm_simps)
next
  case (Some p)
  with assms(2) have p: "p = 100" and c: "(\<exists>i. cb t = DampingCb i) \<or> (\<exists>i. cb t = CheckCb i)"
    by (auto simp add: timerOK_def split: callback.splits)
  from c have "weight (T + 4000) (t\<lparr>due := due t + 100\<rparr>) + 1 \<le> weight (T + 4000) t"
    using ticks_next[OF assms(3)] by (auto simp add: weight_def)
  from sum_replace[OF assms(1) this] Some p show ?thesis
    by (simp add: load_def rearm_simps)
qed

lemma load_clearRef: "load H (clearRef r tt) \<le> load H tt"
  by (cases r) (simp_all add: clearRef_def clearTimer_def load_def sum_filter_le)

lemma load_startCb:
  "load H (snd (startCb now rnd (d, tt))) \<le> load H tt + 2 + 2 * ticks H (now + 1600)"
  by (simp add: startCb_def Let_def load_def setTimeout_simps weight_def add_ac split: option.split)

lemma load_stabilityCb:
  "load H (snd (stabilityCb now (d, tt))) \<le> load H tt + 2 * ticks H (now + 100)"
  by (simp add: stabilityCb_def Let_def load_def setInterval_simps weight_def add_ac split: option.split)

lemma load_dampingCb: "load H (snd (dampingCb (d, tt))) \<le> load H tt"
  using load_clearRef by (simp add: dampingCb_def Let_def split: option.split)

lemma potential_handleDiceStable:
  "potential H (handleDiceStable now i v s) \<le> potential H s"
  by (simp add: handleDiceStable_def Let_def potential_def load_def setTimeout_simps weight_def)

lemma potential_notify: "potential H (notify now ns s) \<le> potential H s"
proof (induction ns arbitrary: s)
  case Nil
  then show ?case by (simp add: notify_def)
next
  case (Cons n ns)
  have "notify now (n # ns) s = notify now ns (handleDiceStable now (fst n) (snd n) s)"
    by (simp add: notify_def)
  with Cons[of "handleDiceStable now (fst n) (snd n) s"]
    potential_handleDiceStable[of H now "fst n" "snd n" s]
  show ?case by simp
qed

lemma load_cleanupAll: "load H (cleanupAll ds tt) \<le> load H tt"
proof (induction ds arbitrary: tt)
  case Nil
  then show ?case by simp
next
  case (Cons d ds)
  have "load H (snd (effectCleanup (d, tt))) \<le> load H tt"
    unfolding effectCleanup_def Let_def snd_conv fst_conv
    by (meson load_clearRef order_trans)
  with Cons[of "snd (effectCleanup (d, tt))"] show ?case by simp
qed

lemma runDiceCb_state:
  "cont (runDiceCb f i w) = cont w"
  "timers (runDiceCb f i w)
     = (if i < length (dices w) then snd (f (dices w ! i, timers w)) else timers w)"
  by (simp_all add: runDiceCb_def Let_def)

lemma runLockCb_state:
  "(cont (runLockCb f i w), timers (runLockCb f i w))
     = (if i < length (dices w)
        then notify (clock w) (snd (f (dices w ! i))) (cont w, timers w)
        else (cont w, timers w))"
  by (simp add: runLockCb_def Let_def)

lemma potential_runLockCb:
  "potential H (cont (runLockCb f i w), timers (runLockCb f i w)) \<le> potential H (cont w, timers w)"
  unfolding runLockCb_state using potential_notify by simp

lemma potential_render:
  assumes "staticOK w"
  shows "potential H (cont (render w), timers (render w)) \<le> potential H (cont w, timers w)"
  using load_cleanupAll[of H "dices w" "timers w"]
  by (simp add: render_eq[OF assms] potential_def)

lemma fired_potential:
  assumes inv: "rollInv T w" and nr: "\<not> needsRender (cont w)"
    and rolling: "isRolling (cont w)"
    and nt: "nextTimer (timers w) = Some t"
  shows "potential (T + 4000)
           (cont (afterHandler (fire rnd (cb t) (advance t f w))),
            timers (afterHandler (fire rnd (cb t) (advance t f w)))) + 1
         \<le> potential (T + 4000) (cont w, timers w)"
proof -
  let ?H = "T + 4000"
  let ?a = "advance t f w"
  let ?w = "fire rnd (cb t) ?a"
  from inv have tm0: "timersOK T w" and ro0: "rollOK T w"
    by (simp_all add: rollInv_def)
  note m = nextTimer_Some[OF nt]
  have tok: "timerOK T t" using tm0 m(1) by (simp add: timersOK_def)
  from ro0 rolling obtain u where u: "u \<in> set (pending (timers w))" "cb u = RollingClearCb"
    by (auto simp add: rollOK_def)
  with tm0 have "due u = ?H" by (auto simp add: timersOK_def timerOK_def)
  with m(2) u(1) have dt: "due t \<le> ?H" by auto
  have ck: "clock ?a = due t" by (rule advance_clock[OF tm0 nt])
  have ca: "cont ?a = cont w" "timers ?a = rearm t (timers w)" by (simp_all add: advance_def)
  note lr = load_rearm[OF m(1) tok dt]
  have fire_le: "potential ?H (cont ?w, timers ?w) + 1 \<le> potential ?H (cont w, timers w)"
  proof (cases "cb t")
    case RollingClearCb
    with tok have "period t = None" by (simp add: timerOK_def)
    with lr RollingClearCb show ?thesis
      by (simp add: potential_def ca weight_def rollingClearCb_def)
  next
    case CompletionCb
    with tok have "period t = None" by (simp add: timerOK_def)
    with lr CompletionCb show ?thesis
      by (simp add: potential_def ca weight_def completionCb_def)
  next
    case (StartCb i)
    with tok have p: "period t = None" by (simp add: timerOK_def)
    have wt: "weight ?H t = 3 + 2 * ticks ?H (due t + 1600)" by (simp add: weight_def StartCb)
    have "load ?H (timers ?w) \<le> load ?H (timers ?a) + 2 + 2 * ticks ?H (due t + 1600)"
      using load_startCb[of ?H "clock ?a" rnd "dices ?a ! i" "timers ?a"]
      by (simp add: StartCb runDiceCb_state ck)
    moreover have "load ?H (timers ?a) + weight ?H t \<le> load ?H (timers w)"
      using lr p by (simp add: ca)
    ultimately show ?thesis
      by (simp add: potential_def StartCb runDiceCb_state(1) ca(1) wt)
  next
    case (StabilityCb i)
    with tok have p: "period t = None" by (simp add: timerOK_def)
    have wt: "weight ?H t = 1 + 2 * ticks ?H (due t + 100)" by (simp add: weight_def StabilityCb)
    have "load ?H (timers ?w) \<le> load ?H (timers ?a) + 2 * ticks ?H (due t + 100)"
      using load_stabilityCb[of ?H "clock ?a" "dices ?a ! i" "timers ?a"]
      by (simp add: StabilityCb runDiceCb_state ck)
    moreover have "load ?H (timers ?a) + weight ?H t \<le> load ?H (timers w)"
      using lr p by (simp add: ca)
    ultimately show ?thesis
      by (simp add: potential_def StabilityCb runDiceCb_state(1) ca(1) wt)
  next
    case (DampingCb i)
    with tok have p: "period t = Some 100" by (simp add: timerOK_def)
    have "load ?H (timers ?w) \<le> load ?H (timers ?a)"
      using load_dampingCb[of ?H "dices ?a ! i" "timers ?a"]
      by (simp add: DampingCb runDiceCb_state)
    moreover have "load ?H (timers ?a) + 1 \<le> load ?H (timers w)"
      using lr p by (simp add: ca)
    ultimately show ?thesis
      by (simp add: potential_def DampingCb runDiceCb_state(1) ca(1))
  next
    case (CheckCb i)
    with tok have p: "period t = Some 100" by (simp add: timerOK_def)
    have "potential ?H (cont ?w, timers ?w) \<le> potential ?H (cont ?a, timers ?a)"
      using potential_runLockCb[of ?H "checkStability (clock ?a)" i ?a] by (simp add: CheckCb)
    moreover have "potential ?H (cont ?a, timers ?a) + 1 \<le> potential ?H (cont w, timers w)"
      using lr p by (simp add: potential_def ca)
    ultimately show ?thesis by simp
  next
    case (ForceLockCb i)
    with tok have p: "period t = None" by (simp add: timerOK_def)
    have "potential ?H (cont ?w, timers ?w) \<le> potential ?H (cont ?a, timers ?a)"
      using potential_runLockCb[of ?H forceLockCb i ?a] by (simp add: ForceLockCb)
    moreover have "potential ?H (cont ?a, timers ?a) + 1 \<le> potential ?H (cont w, timers w)"
      using lr p by (simp add: potential_def ca weight_def ForceLockCb)
    ultimately show ?thesis by simp
  qed
  from fire_pieces[OF inv nr nt, of rnd f] have st: "staticOK ?w" by blast
  have "potential ?H (cont (afterHandler ?w), timers (afterHandler ?w))
          \<le> potential ?H (cont ?w, timers ?w)"
    using potential_render[OF st, of ?H] by (simp add: afterHandler_def)
  with fire_le show ?thesis by simp
qed

lemma step_rolling:
  "isRolling (cont (step w e)) \<Longrightarrow> isRolling (cont w)"
proof (cases "nextTimer (timers w)")
  case None
  then show "isRolling (cont (step w e)) \<Longrightarrow> isRolling (cont w)" by (simp add: step_def)
next
  case (Some t)
  have hd: "isRolling (fst (handleDiceStable now i v s)) = isRolling (fst s)" for now i v s
    by (simp add: handleDiceStable_def Let_def)
  have nf: "isRolling (fst (notify now ns s)) = isRolling (fst s)" for now ns s
  proof (induction ns arbitrary: s)
    case Nil
    then show ?case by (simp add: notify_def)
  next
    case (Cons n ns)
    have "notify now (n # ns) s = notify now ns (handleDiceStable now (fst n) (snd n) s)"
      by (simp add: notify_def)
    with Cons[of "handleDiceStable now (fst n) (snd n) s"] hd show ?case by simp
  qed
  have lk: "isRolling (cont (runLockCb f i w')) = isRolling (cont w')" for f i w'
    using nf by (simp add: runLockCb_def Let_def)
  have fi: "isRolling (cont (fire rnd c w')) \<Longrightarrow> isRolling (cont w')" for rnd c w'
    by (cases c) (simp_all add: rollingClearCb_def completionCb_def runDiceCb_state lk)
  have ah: "isRolling (cont (afterHandler w')) = isRolling (cont w')" for w'
    by (simp add: afterHandler_def render_def Let_def)
  assume "isRolling (cont (step w e))"
  then have "isRolling (cont (fire (draws e) (cb t) (advance t (physics e) w)))"
    by (simp add: step_def Some ah)
  from fi[OF this] show "isRolling (cont w)" by (simp add: advance_def)
qed

lemma run_snoc: "run w (es @ [e]) = step (run w es) e"
  by (simp add: run_def)

lemma run_rolling: "isRolling (cont (run w es)) \<Longrightarrow> isRolling (cont w)"
proof (induction es rule: rev_induct)
  case Nil
  then show ?case by (simp add: run_def)
next
  case (snoc e es)
  from snoc.prems have "isRolling (cont (run w es))"
    unfolding run_snoc by (rule step_rolling)
  then show ?case by (rule snoc.IH)
qed

lemma run_potential:
  assumes inv: "rollInv T w" and nr: "\<not> needsRender (cont w)"
  shows "isRolling (cont (run w es)) \<Longrightarrow>
         potential (T + 4000) (cont (run w es), timers (run w es)) + length es
           \<le> potential (T + 4000) (cont w, timers w)"
proof (induction es rule: rev_induct)
  case Nil
  then show ?case by (simp add: run_def)
next
  case (snoc e es)
  let ?v = "run w es"
  from snoc.prems have r: "isRolling (cont ?v)"
    unfolding run_snoc by (rule step_rolling)
  note ih = snoc.IH[OF r]
  from run_inv[OF inv nr, of es] have i: "rollInv T ?v" "\<not> needsRender (cont ?v)" by simp_all
  from i(1) r obtain u where "u \<in> set (pending (timers ?v))"
    by (auto simp add: rollInv_def rollOK_def)
  then obtain t where t: "nextTimer (timers ?v) = Some t"
    using nextTimer_None[of "timers ?v"] by (cases "nextTimer (timers ?v)") auto
  from fired_potential[OF i r t, of "draws e" "physics e"]
  have "potential (T + 4000) (cont (step ?v e), timers (step ?v e)) + 1
          \<le> potential (T + 4000) (cont ?v, timers ?v)"
    by (simp add: step_def t)
  with ih show ?case by (simp add: run_snoc)
qed

subsection \<open>From the click to the cleared flag\<close>

lemma load_resetEffect_respawn:
  assumes "0 < rc" "rc \<noteq> lastResetCount d" "startDelay d = 100"
    and "\<forall>k\<in>refIds d. \<forall>u\<in>set (pending tt). tid u \<noteq> k"
  shows "load H (snd (resetEffect rc now (d, tt))) = load H tt + (3 + 2 * ticks H (now + 1700))"
  by (simp add: resetEffect_respawn(1)[OF assms(1,2,4)] load_def weight_def assms(3) add_ac)

lemma load_effectAll_respawn:
  assumes "0 < rc"
    and "\<forall>d\<in>set ds. rc \<noteq> lastResetCount d \<and> startDelay d = 100 \<and> (\<forall>k\<in>refIds d. k < n)"
    and "\<forall>u\<in>set (pending tt). n \<le> tid u" and "n \<le> nextId tt"
  shows "load H (snd (effectAll rc now ds tt))
           = load H tt + length ds * (3 + 2 * ticks H (now + 1700))"
  using assms(2-4)
proof (induction ds arbitrary: tt)
  case Nil
  then show ?case by simp
next
  case (Cons d ds)
  let ?r = "resetEffect rc now (d, tt)"
  have d: "rc \<noteq> lastResetCount d" "startDelay d = 100" "\<forall>k\<in>refIds d. k < n"
    using Cons.prems(1) by simp_all
  have nohit: "\<forall>k\<in>refIds d. \<forall>u\<in>set (pending tt). tid u \<noteq> k"
    using d(3) Cons.prems(2) by fastforce
  note re = resetEffect_respawn(1)[OF assms(1) d(1) nohit, of now]
  have p1: "\<forall>d\<in>set ds. rc \<noteq> lastResetCount d \<and> startDelay d = 100 \<and> (\<forall>k\<in>refIds d. k < n)"
    using Cons.prems(1) by simp
  have p2: "\<forall>u\<in>set (pending (snd ?r)). n \<le> tid u"
    using Cons.prems(2,3) by (auto simp add: re)
  have p3: "n \<le> nextId (snd ?r)" using Cons.prems(3) by (simp add: re)
  from Cons.IH[OF p1 p2 p3] load_resetEffect_respawn[OF assms(1) d(1,2) nohit, of H now]
  show ?case by (simp add: Let_def)
qed

lemma click_potential:
  assumes q: "quiescent w"
  shows "potential (clock w + 4000) (cont (click w), timers (click w)) \<le> 257"
proof -
  let ?T = "clock w"
  let ?H = "?T + 4000"
  let ?n = "nextId (timers w)"
  let ?rc = "resetCount (cont w) + 1"
  let ?s = "handleReset ?T (cont w, timers w)"
  let ?tt1 = "cleanupAll (dices w) (snd ?s)"
  let ?r = "effectAll ?rc ?T (dices w) ?tt1"
  from q have nr: "\<not> isRolling (cont w)" and pe: "pending (timers w) = []"
    and dq: "\<forall>d\<in>set (dices w). diceRef d \<noteq> None \<and> hasOnStable d \<and> startDelay d = 100
       \<and> lastResetCount d \<le> resetCount (cont w) \<and> (\<forall>i\<in>refIds d. i < ?n)"
    by (simp_all add: quiescent_def)
  note qn = quiescent_nth[OF q]
  have cr: "pending (clearRef (resetTimerRef (cont w)) (timers w)) = []"
    using pe clearRef_simps(2)[of "resetTimerRef (cont w)" "timers w"] by simp
  have s2: "pending (snd ?s) = [\<lparr>tid = ?n, due = ?H, period = None, cb = RollingClearCb\<rparr>]"
    "nextId (snd ?s) = ?n + 1"
    using nr by (simp_all add: handleReset_def Let_def setTimeout_simps cr clearRef_simps(1))
  have s1: "needsRender (fst ?s)" "resetCount (fst ?s) = ?rc"
    using nr by (simp_all add: handleReset_def Let_def)
  have l1: "load ?H (snd ?s) = 1" by (simp add: load_def s2 weight_def)
  have l2: "load ?H ?tt1 \<le> 1" using load_cleanupAll[of ?H "dices w" "snd ?s"] l1 by simp
  have a2: "\<forall>d\<in>set (dices w). ?rc \<noteq> lastResetCount d \<and> startDelay d = 100
              \<and> (\<forall>k\<in>refIds d. k < ?n)"
    using dq by fastforce
  have a3: "\<forall>u\<in>set (pending ?tt1). ?n \<le> tid u"
    by (auto simp add: cleanupAll_simps s2)
  have a4: "?n \<le> nextId ?tt1" by (simp add: cleanupAll_simps s2)
  have a1: "0 < ?rc" by simp
  have tk: "ticks ?H (?T + 1700) = 24" by (simp add: ticks_def)
  have l3: "load ?H (snd ?r) = load ?H ?tt1 + 5 * 51"
    using load_effectAll_respawn[OF a1 a2 a3 a4, of ?H ?T] by (simp add: qn(1) tk)
  have "timers (click w) = snd ?r"
    using s1 by (simp add: click_def Let_def afterHandler_def render_def)
  with l2 l3 show ?thesis by (simp add: potential_def)
qed

lemma rolling_bounded:
  assumes q: "quiescent w" and len: "257 \<le> length es"
  shows "\<not> isRolling (cont (run (click w) es))"
proof
  let ?T = "clock w"
  let ?v = "run (click w) es"
  assume r: "isRolling (cont ?v)"
  note ci = click_inv[OF q]
  from run_potential[OF ci(1,2) r] click_potential[OF q]
  have b: "potential (?T + 4000) (cont ?v, timers ?v) + length es \<le> 257" by simp
  from run_inv[OF ci(1,2), of es] have "rollOK ?T ?v" by (simp add: rollInv_def)
  with r obtain u where u: "u \<in> set (pending (timers ?v))" "cb u = RollingClearCb"
    by (auto simp add: rollOK_def)
  have "weight (?T + 4000) u \<le> load (?T + 4000) (timers ?v)"
    unfolding load_def using u(1) by (simp add: member_le_sum_list)
  with u(2) have "1 \<le> potential (?T + 4000) (cont ?v, timers ?v)"
    by (simp add: potential_def weight_def)
  with b len show False by simp
qed

lemma inv_rolling_clock:
  assumes "rollInv T v"
  shows "isRolling (cont v) \<longrightarrow> clock v \<le> T + 4000"
    and "\<not> isRolling (cont v) \<longrightarrow> T + 4000 \<le> clock v"
proof -
  from assms have tm: "timersOK T v" and ro: "rollOK T v" by (simp_all add: rollInv_def)
  show "isRolling (cont v) \<longrightarrow> clock v \<le> T + 4000"
  proof
    assume "isRolling (cont v)"
    with ro obtain u where "u \<in> set (pending (timers v))" "cb u = RollingClearCb"
      by (auto simp add: rollOK_def)
    with tm show "clock v \<le> T + 4000" by (auto simp add: timersOK_def timerOK_def)
  qed
  show "\<not> isRolling (cont v) \<longrightarrow> T + 4000 \<le> clock v"
    using ro by (simp add: rollOK_def)
qed

lemma inv_deadline:
  assumes "rollInv T v" "T + 3100 < clock v" "i < 5"
  shows "isLocked (dices v ! i)"
    and "valAt (diceValues (cont v)) i = Some (finalValue (dices v ! i))"
    and "finalValue (dices v ! i) \<in> {1..6}"
proof -
  from assms(1) have tm: "timersOK T v" and lv: "liveOK v" and va: "valuesOK v"
    by (simp_all add: rollInv_def)
  show l: "isLocked (dices v ! i)"
  proof (rule ccontr)
    assume "\<not> isLocked (dices v ! i)"
    with lv assms(3) obtain u where u: "u \<in> set (pending (timers v))"
      "cb u = StartCb i \<or> cb u = ForceLockCb i"
      unfolding liveOK_def liveAt_def by blast
    with tm have "clock v \<le> due u" "timerOK T u" by (simp_all add: timersOK_def)
    with u(2) have "clock v \<le> T + 3100" by (auto simp add: timerOK_def)
    with assms(2) show False by simp
  qed
  with va assms(3) show "valAt (diceValues (cont v)) i = Some (finalValue (dices v ! i))"
    "finalValue (dices v ! i) \<in> {1..6}"
    by (simp_all add: valuesOK_def)
qed

lemma inv_all_locked:
  assumes "rollInv T v" "T + 3100 < clock v"
  shows "list_all isLocked (dices v)"
    and "map (valAt (diceValues (cont v))) [0..<5] = map (\<lambda>d. Some (finalValue d)) (dices v)"
    and "list_all (\<lambda>d. finalValue d \<in> {1..6}) (dices v)"
proof -
  from assms(1) have len: "length (dices v) = 5" by (simp add: rollInv_def staticOK_def)
  note d = inv_deadline[OF assms]
  show "list_all isLocked (dices v)"
    unfolding list_all_length using d(1) len by simp
  show "list_all (\<lambda>d. finalValue d \<in> {1..6}) (dices v)"
    unfolding list_all_length using d(3) len by simp
  show "map (valAt (diceValues (cont v))) [0..<5] = map (\<lambda>d. Some (finalValue d)) (dices v)"
  proof (rule nth_equalityI)
    show "length (map (valAt (diceValues (cont v))) [0..<5])
            = length (map (\<lambda>d. Some (finalValue d)) (dices v))"
      using len by simp
    fix i assume "i < length (map (valAt (diceValues (cont v))) [0..<5])"
    then have i: "i < 5" by simp
    with d(2)[OF i] len
    show "map (valAt (diceValues (cont v))) [0..<5] ! i
            = map (\<lambda>d. Some (finalValue d)) (dices v) ! i"
      by simp
  qed
qed

lemma quiescent_initial: "quiescent initialWorld"
proof -
  have u: "[0..<5] = [0, 1, 2, 3, 4]" by (simp add: upt_rec)
  show ?thesis
    by (simp add: quiescent_def initialWorld_def initialContainer_def noTimers_def diceCount_def
        u initialDice_def refIds_def restingBody_def)
qed

section \<open>The page is at rest again after a roll\<close>

subsection \<open>Before the callback runs\<close>

lemma covered_cong:
  assumes "cb u' = cb u" "tid u' = tid u" "resetTimerRef (cont w') = resetTimerRef (cont w)"
    and "\<forall>i<5. timerRef (dices w' ! i) = timerRef (dices w ! i)
             \<and> stabilityTimerRef (dices w' ! i) = stabilityTimerRef (dices w ! i)
             \<and> gradualDampingRef (dices w' ! i) = gradualDampingRef (dices w ! i)
             \<and> stabilityCheckRef (dices w' ! i) = stabilityCheckRef (dices w ! i)"
  shows "covered w' u' = covered w u"
  using assms by (auto simp add: covered_def split: callback.splits)

lemma moveBodies_refs:
  "i < length ds \<Longrightarrow>
     timerRef (moveBodies f ds ! i) = timerRef (ds ! i)
   \<and> stabilityTimerRef (moveBodies f ds ! i) = stabilityTimerRef (ds ! i)
   \<and> gradualDampingRef (moveBodies f ds ! i) = gradualDampingRef (ds ! i)
   \<and> stabilityCheckRef (moveBodies f ds ! i) = stabilityCheckRef (ds ! i)"
  by (simp add: moveBodies_def)

lemma moveBodies_tidy:
  assumes "d' \<in> set (moveBodies f ds)"
  shows "\<exists>d\<in>set ds. startDelay d' = startDelay d \<and> refPhase d' = refPhase d"
  using assms by (auto simp add: moveBodies_def refPhase_def)

lemma distinct_tid_rearm:
  assumes "distinct (map tid (pending tt))"
  shows "distinct (map tid (pending (rearm t tt)))"
proof (cases "period t")
  case None
  from assms have "distinct (pending tt)" "inj_on tid (set (pending tt))"
    by (simp_all add: distinct_map)
  then have "distinct (remove1 t (pending tt))" "inj_on tid (set (remove1 t (pending tt)))"
    by (auto intro: inj_on_subset dest: notin_set_remove1)
  then show ?thesis using None by (simp add: rearm_simps distinct_map)
next
  case (Some p)
  have "map tid (map (\<lambda>u. if u = t then t\<lparr>due := due t + p\<rparr> else u) xs) = map tid xs"
    for xs
    by (induction xs) auto
  then show ?thesis using assms Some by (simp add: rearm_simps del: map_map)
qed

lemma same_tid_same_timer:
  assumes "distinct (map tid xs)" "u \<in> set xs" "t \<in> set xs" "tid u = tid t"
  shows "u = t"
  using assms by (auto simp add: distinct_map dest: inj_onD)

lemma fired_gone:
  assumes "distinct (map tid (pending tt))" "t \<in> set (pending tt)" "period t = None"
    and "u \<in> set (pending (rearm t tt))"
  shows "tid u \<noteq> tid t"
proof
  assume e: "tid u = tid t"
  from assms(1) have d: "distinct (pending tt)" by (simp add: distinct_map)
  from assms(3,4) have u: "u \<in> set (remove1 t (pending tt))" by (simp add: rearm_simps)
  then have "u \<in> set (pending tt)" using set_remove1_subset by fastforce
  from same_tid_same_timer[OF assms(1) this assms(2) e] have "u = t" .
  with u d show False by simp
qed


lemma tidy_advance:
  assumes st: "staticOK w" and td: "tidy w" and nt: "nextTimer (timers w) = Some t"
  shows "tidy (advance t f w)" and "covered (advance t f w) t"
    and "period t = None \<longrightarrow> (\<forall>u\<in>set (pending (timers (advance t f w))). tid u \<noteq> tid t)"
proof -
  have len: "length (dices w) = 5" using st by (simp add: staticOK_def)
  have refs: "\<forall>i<5. timerRef (dices (advance t f w) ! i) = timerRef (dices w ! i)
             \<and> stabilityTimerRef (dices (advance t f w) ! i) = stabilityTimerRef (dices w ! i)
             \<and> gradualDampingRef (dices (advance t f w) ! i) = gradualDampingRef (dices w ! i)
             \<and> stabilityCheckRef (dices (advance t f w) ! i) = stabilityCheckRef (dices w ! i)"
    using moveBodies_refs[of _ "dices w" f] len by (simp add: advance_def)
  have cov: "covered (advance t f w) u' = covered w u" if "cb u' = cb u" "tid u' = tid u" for u u'
    by (rule covered_cong[OF that _ refs]) (simp add: advance_def)
  note m = nextTimer_Some(1)[OF nt]
  from td have di: "distinct (map tid (pending (timers w)))"
    and co: "\<forall>u\<in>set (pending (timers w)). covered w u"
    by (simp_all add: tidy_def)
  show "covered (advance t f w) t" using cov[of t t] co m by simp
  show "period t = None \<longrightarrow> (\<forall>u\<in>set (pending (timers (advance t f w))). tid u \<noteq> tid t)"
    using fired_gone[OF di m] by (simp add: advance_def)
  show "tidy (advance t f w)"
    unfolding tidy_def
  proof (intro conjI)
    show "\<forall>d'\<in>set (dices (advance t f w)). startDelay d' = 100 \<and> refPhase d'"
    proof
      fix d' assume "d' \<in> set (dices (advance t f w))"
      then have "d' \<in> set (moveBodies f (dices w))" by (simp add: advance_def)
      from moveBodies_tidy[OF this] td show "startDelay d' = 100 \<and> refPhase d'"
        by (auto simp add: tidy_def)
    qed
  next
    show "distinct (map tid (pending (timers (advance t f w))))"
      using distinct_tid_rearm[OF di, of t] by (simp add: advance_def)
  next
    show "\<forall>u\<in>set (pending (timers (advance t f w))). covered (advance t f w) u"
    proof
      fix u assume "u \<in> set (pending (timers (advance t f w)))"
      then have "u \<in> set (pending (rearm t (timers w)))" by (simp add: advance_def)
      from rearm_keeps_cb[OF this] obtain u' where u': "u' \<in> set (pending (timers w))"
        "cb u' = cb u" "tid u' = tid u" by blast
      from cov[of u u'] u' co show "covered (advance t f w) u" by simp
    qed
  next
    show "\<not> isRolling (cont (advance t f w)) \<longrightarrow> resetTimerRef (cont (advance t f w)) = None"
      using td by (simp add: tidy_def advance_def)
  qed
qed

subsection \<open>Callbacks of a die that work on the timer table\<close>

lemma startCb_refs:
  assumes "diceRef d \<noteq> None"
  shows "timerRef (fst (startCb now rnd (d, tt))) = None"
    and "stabilityTimerRef (fst (startCb now rnd (d, tt))) = Some (nextId tt)"
    and "gradualDampingRef (fst (startCb now rnd (d, tt))) = gradualDampingRef d"
    and "stabilityCheckRef (fst (startCb now rnd (d, tt))) = stabilityCheckRef d"
    and "startDelay (fst (startCb now rnd (d, tt))) = startDelay d"
  using assms
  by (auto simp add: startCb_def Let_def setTimeout_simps split: option.splits)

lemma stabilityCb_refs:
  assumes "diceRef d \<noteq> None"
  shows "timerRef (fst (stabilityCb now (d, tt))) = timerRef d"
    and "stabilityTimerRef (fst (stabilityCb now (d, tt))) = None"
    and "gradualDampingRef (fst (stabilityCb now (d, tt))) = Some (nextId tt)"
    and "stabilityCheckRef (fst (stabilityCb now (d, tt))) = Some (nextId tt + 1)"
    and "startDelay (fst (stabilityCb now (d, tt))) = startDelay d"
  using assms
  by (auto simp add: stabilityCb_def Let_def setInterval_simps split: option.splits)

lemma clearRef_pending:
  "pending (clearRef r tt) = filter (\<lambda>t. Some (tid t) \<noteq> r) (pending tt)"
  by (cases r) (auto simp add: clearRef_def clearTimer_def intro: filter_cong)

lemma distinct_tid_clearRef:
  "distinct (map tid (pending tt)) \<Longrightarrow> distinct (map tid (pending (clearRef r tt)))"
  by (simp add: clearRef_pending distinct_map_filter)

lemma dampingCb_refs:
  shows "timerRef (fst (dampingCb (d, tt))) = timerRef d"
    and "stabilityTimerRef (fst (dampingCb (d, tt))) = stabilityTimerRef d"
    and "stabilityCheckRef (fst (dampingCb (d, tt))) = stabilityCheckRef d"
    and "startDelay (fst (dampingCb (d, tt))) = startDelay d"
    and "gradualDampingRef (fst (dampingCb (d, tt))) = gradualDampingRef d
         \<or> gradualDampingRef (fst (dampingCb (d, tt))) = None
           \<and> (\<forall>u\<in>set (pending (snd (dampingCb (d, tt)))). Some (tid u) \<noteq> gradualDampingRef d)"
    and "distinct (map tid (pending tt)) \<Longrightarrow> distinct (map tid (pending (snd (dampingCb (d, tt)))))"
  by (auto simp add: dampingCb_def Let_def clearRef_pending distinct_map_filter
      split: option.splits)

lemma tidy_nth:
  assumes "staticOK a" "tidy a" "i < 5"
  shows "startDelay (dices a ! i) = 100" and "refPhase (dices a ! i)"
  using assms static_nth(1)[OF assms(1,3)] by (auto simp add: tidy_def)

lemma runDiceCb_eq:
  assumes "staticOK a" "i < 5"
  shows "runDiceCb f i a
           = a\<lparr>dices := (dices a)[i := fst (f (dices a ! i, timers a))],
                timers := snd (f (dices a ! i, timers a))\<rparr>"
  using assms by (simp add: runDiceCb_def Let_def staticOK_def)

lemma tidy_StartCb:
  assumes st: "staticOK a" and tm: "timersOK T a" and td: "tidy a" and i: "i < 5"
    and ct: "covered a t" "cb t = StartCb i"
    and gone: "\<forall>u\<in>set (pending (timers a)). tid u \<noteq> tid t"
  shows "tidy (runDiceCb (startCb now rnd) i a)"
proof -
  let ?d = "dices a ! i"
  let ?r = "startCb now rnd (?d, timers a)"
  let ?a = "a\<lparr>dices := (dices a)[i := fst ?r], timers := snd ?r\<rparr>"
  have len: "length (dices a) = 5" using st by (simp add: staticOK_def)
  note n = static_nth[OF st i]
  note ph = tidy_nth[OF st td i]
  have tr: "timerRef ?d = Some (tid t)" using ct by (simp add: covered_def)
  with ph(2) have none: "stabilityTimerRef ?d = None" "gradualDampingRef ?d = None"
    "stabilityCheckRef ?d = None"
    by (simp_all add: refPhase_def)
  note p = startCb_props[OF n(3), of now rnd "timers a"]
  note r = startCb_refs[OF n(3), of now rnd "timers a"]
  have old: "\<forall>u\<in>set (pending (timers a)). tid u < nextId (timers a) \<and> covered a u"
    using tm td by (simp add: timersOK_def tidy_def)
  have "tidy ?a"
    unfolding tidy_def
  proof (intro conjI)
    show "\<forall>d\<in>set (dices ?a). startDelay d = 100 \<and> refPhase d"
    proof
      fix d assume "d \<in> set (dices ?a)"
      then have "d = fst ?r \<or> d \<in> set (dices a)" using set_update_cases[of d "dices a" i] by simp
      then show "startDelay d = 100 \<and> refPhase d"
      proof
        assume "d = fst ?r"
        then show ?thesis using r ph none by (simp add: refPhase_def)
      next
        assume "d \<in> set (dices a)"
        then show ?thesis using td by (simp add: tidy_def)
      qed
    qed
  next
    have "distinct (map tid (pending (timers a)))" using td by (simp add: tidy_def)
    with old show "distinct (map tid (pending (timers ?a)))"
      by (auto simp add: p(8))
  next
    show "\<forall>u\<in>set (pending (timers ?a)). covered ?a u"
    proof
      fix u assume "u \<in> set (pending (timers ?a))"
      then consider "u \<in> set (pending (timers a))"
        | "cb u = StabilityCb i" "tid u = nextId (timers a)"
        | "cb u = ForceLockCb i"
        using n(2) by (auto simp add: p(8))
      then show "covered ?a u"
      proof cases
        case 1
        with old gone have "covered a u" "tid u \<noteq> tid t" by auto
        then show ?thesis
          using tr none r len i
          by (auto simp add: covered_def nth_list_update split: callback.splits)
      next
        case 2
        then show ?thesis using r len i by (simp add: covered_def)
      next
        case 3
        then show ?thesis by (simp add: covered_def)
      qed
    qed
  next
    show "\<not> isRolling (cont ?a) \<longrightarrow> resetTimerRef (cont ?a) = None"
      using td by (simp add: tidy_def)
  qed
  then show ?thesis by (simp add: runDiceCb_eq[OF st i])
qed

lemma tidy_StabilityCb:
  assumes st: "staticOK a" and tm: "timersOK T a" and td: "tidy a" and i: "i < 5"
    and ct: "covered a t" "cb t = StabilityCb i"
    and gone: "\<forall>u\<in>set (pending (timers a)). tid u \<noteq> tid t"
  shows "tidy (runDiceCb (stabilityCb now) i a)"
proof -
  let ?d = "dices a ! i"
  let ?r = "stabilityCb now (?d, timers a)"
  let ?a = "a\<lparr>dices := (dices a)[i := fst ?r], timers := snd ?r\<rparr>"
  have len: "length (dices a) = 5" using st by (simp add: staticOK_def)
  note n = static_nth[OF st i]
  note ph = tidy_nth[OF st td i]
  have tr: "stabilityTimerRef ?d = Some (tid t)" using ct by (simp add: covered_def)
  with ph(2) have none: "timerRef ?d = None" "gradualDampingRef ?d = None"
    "stabilityCheckRef ?d = None"
    by (auto simp add: refPhase_def)
  note p = stabilityCb_props[OF n(3), of now "timers a"]
  note r = stabilityCb_refs[OF n(3), of now "timers a"]
  have old: "\<forall>u\<in>set (pending (timers a)). tid u < nextId (timers a) \<and> covered a u"
    using tm td by (simp add: timersOK_def tidy_def)
  have "tidy ?a"
    unfolding tidy_def
  proof (intro conjI)
    show "\<forall>d\<in>set (dices ?a). startDelay d = 100 \<and> refPhase d"
    proof
      fix d assume "d \<in> set (dices ?a)"
      then have "d = fst ?r \<or> d \<in> set (dices a)" using set_update_cases[of d "dices a" i] by simp
      then show "startDelay d = 100 \<and> refPhase d"
      proof
        assume "d = fst ?r"
        then show ?thesis using r ph none by (simp add: refPhase_def)
      next
        assume "d \<in> set (dices a)"
        then show ?thesis using td by (simp add: tidy_def)
      qed
    qed
  next
    have "distinct (map tid (pending (timers a)))" using td by (simp add: tidy_def)
    with old show "distinct (map tid (pending (timers ?a)))"
      by (auto simp add: p(8))
  next
    show "\<forall>u\<in>set (pending (timers ?a)). covered ?a u"
    proof
      fix u assume "u \<in> set (pending (timers ?a))"
      then consider "u \<in> set (pending (timers a))"
        | "cb u = DampingCb i" "tid u = nextId (timers a)"
        | "cb u = CheckCb i" "tid u = nextId (timers a) + 1"
        using n(2) by (auto simp add: p(8))
      then show "covered ?a u"
      proof cases
        case 1
        with old gone have "covered a u" "tid u \<noteq> tid t" by auto
        then show ?thesis
          using tr none r len i
          by (auto simp add: covered_def nth_list_update split: callback.splits)
      next
        case 2
        then show ?thesis using r len i by (simp add: covered_def)
      next
        case 3
        then show ?thesis using r len i by (simp add: covered_def)
      qed
    qed
  next
    show "\<not> isRolling (cont ?a) \<longrightarrow> resetTimerRef (cont ?a) = None"
      using td by (simp add: tidy_def)
  qed
  then show ?thesis by (simp add: runDiceCb_eq[OF st i])
qed

lemma tidy_DampingCb:
  assumes st: "staticOK a" and td: "tidy a" and i: "i < 5"
  shows "tidy (runDiceCb dampingCb i a)"
proof -
  let ?d = "dices a ! i"
  let ?r = "dampingCb (?d, timers a)"
  let ?a = "a\<lparr>dices := (dices a)[i := fst ?r], timers := snd ?r\<rparr>"
  have len: "length (dices a) = 5" using st by (simp add: staticOK_def)
  note n = static_nth[OF st i]
  note ph = tidy_nth[OF st td i]
  note p = dampingCb_props[OF n(3), of "timers a"]
  note r = dampingCb_refs[where d = "?d" and tt = "timers a"]
  have old: "\<forall>u\<in>set (pending (timers a)). covered a u"
    using td by (simp add: tidy_def)
  have "tidy ?a"
    unfolding tidy_def
  proof (intro conjI)
    show "\<forall>d\<in>set (dices ?a). startDelay d = 100 \<and> refPhase d"
    proof
      fix d assume "d \<in> set (dices ?a)"
      then have "d = fst ?r \<or> d \<in> set (dices a)" using set_update_cases[of d "dices a" i] by simp
      then show "startDelay d = 100 \<and> refPhase d"
      proof
        assume "d = fst ?r"
        then show ?thesis using r(1-5) ph by (auto simp add: refPhase_def)
      next
        assume "d \<in> set (dices a)"
        then show ?thesis using td by (simp add: tidy_def)
      qed
    qed
  next
    have "distinct (map tid (pending (timers a)))" using td by (simp add: tidy_def)
    from r(6)[OF this] show "distinct (map tid (pending (timers ?a)))" by simp
  next
    show "\<forall>u\<in>set (pending (timers ?a)). covered ?a u"
    proof
      fix u assume u: "u \<in> set (pending (timers ?a))"
      with p(8) old have "covered a u" by auto
      then show "covered ?a u"
        using r(1-5) u len i
        by (auto simp add: covered_def nth_list_update split: callback.splits)
    qed
  next
    show "\<not> isRolling (cont ?a) \<longrightarrow> resetTimerRef (cont ?a) = None"
      using td by (simp add: tidy_def)
  qed
  then show ?thesis by (simp add: runDiceCb_eq[OF st i])
qed

subsection \<open>Callbacks of a die that may lock it\<close>

lemma lockDicePhysics_refs:
  "timerRef (fst (lockDicePhysics d)) = timerRef d
 \<and> stabilityTimerRef (fst (lockDicePhysics d)) = stabilityTimerRef d
 \<and> gradualDampingRef (fst (lockDicePhysics d)) = gradualDampingRef d
 \<and> stabilityCheckRef (fst (lockDicePhysics d)) = stabilityCheckRef d
 \<and> startDelay (fst (lockDicePhysics d)) = startDelay d"
  by (simp add: lockDicePhysics_def Let_def split: option.split)

lemma forceLockCb_refs:
  "timerRef (fst (forceLockCb d)) = timerRef d
 \<and> stabilityTimerRef (fst (forceLockCb d)) = stabilityTimerRef d
 \<and> gradualDampingRef (fst (forceLockCb d)) = gradualDampingRef d
 \<and> stabilityCheckRef (fst (forceLockCb d)) = stabilityCheckRef d
 \<and> startDelay (fst (forceLockCb d)) = startDelay d"
  using lockDicePhysics_refs[of d] by (simp add: forceLockCb_def)

lemma checkStability_refs:
  "timerRef (fst (checkStability now d)) = timerRef d
 \<and> stabilityTimerRef (fst (checkStability now d)) = stabilityTimerRef d
 \<and> gradualDampingRef (fst (checkStability now d)) = gradualDampingRef d
 \<and> stabilityCheckRef (fst (checkStability now d)) = stabilityCheckRef d
 \<and> startDelay (fst (checkStability now d)) = startDelay d"
proof (cases "isLocked d")
  case True
  then show ?thesis by (simp add: locked_noop)
next
  case False
  show ?thesis
  proof (cases "diceRef d")
    case None
    then show ?thesis by (simp add: checkStability_def)
  next
    case (Some rb)
    let ?d1 = "d\<lparr>positionHistory := pushed d rb now\<rparr>"
    have "checkStability now d = lockDicePhysics ?d1 \<or> checkStability now d = (?d1, [])"
      unfolding checkStability_eq[OF Some False] by (meson if_P if_not_P)
    then show ?thesis
    proof
      assume "checkStability now d = lockDicePhysics ?d1"
      then show ?thesis using lockDicePhysics_refs[of ?d1] by simp
    next
      assume "checkStability now d = (?d1, [])"
      then show ?thesis by simp
    qed
  qed
qed

lemma handleDiceStable_tidy:
  assumes "distinct (map tid (pending (snd s)))" "\<forall>u\<in>set (pending (snd s)). tid u < nextId (snd s)"
  shows "distinct (map tid (pending (snd (handleDiceStable now i v s))))"
    and "\<forall>u\<in>set (pending (snd (handleDiceStable now i v s))).
           tid u < nextId (snd (handleDiceStable now i v s))
         \<and> (u \<in> set (pending (snd s)) \<or> cb u = CompletionCb)"
    and "resetTimerRef (fst (handleDiceStable now i v s)) = resetTimerRef (fst s)"
    and "isRolling (fst (handleDiceStable now i v s)) = isRolling (fst s)"
  using assms by (auto simp add: handleDiceStable_def Let_def setTimeout_simps)

lemma notify_tidy:
  assumes "distinct (map tid (pending (snd s)))" "\<forall>u\<in>set (pending (snd s)). tid u < nextId (snd s)"
  shows "distinct (map tid (pending (snd (notify now ns s))))
       \<and> (\<forall>u\<in>set (pending (snd (notify now ns s))).
             tid u < nextId (snd (notify now ns s))
           \<and> (u \<in> set (pending (snd s)) \<or> cb u = CompletionCb))
       \<and> resetTimerRef (fst (notify now ns s)) = resetTimerRef (fst s)
       \<and> isRolling (fst (notify now ns s)) = isRolling (fst s)"
proof (induction ns rule: rev_induct)
  case Nil
  then show ?case using assms by (simp add: notify_def)
next
  case (snoc n ns)
  let ?s = "notify now ns s"
  have e: "notify now (ns @ [n]) s = handleDiceStable now (fst n) (snd n) ?s"
    by (simp add: notify_def)
  from snoc have a: "distinct (map tid (pending (snd ?s)))"
    "\<forall>u\<in>set (pending (snd ?s)). tid u < nextId (snd ?s)" by blast+
  note h = handleDiceStable_tidy[OF a, of now "fst n" "snd n"]
  show ?case
    unfolding e
  proof (intro conjI ballI)
    show "distinct (map tid (pending (snd (handleDiceStable now (fst n) (snd n) ?s))))"
      by (rule h(1))
    show "resetTimerRef (fst (handleDiceStable now (fst n) (snd n) ?s)) = resetTimerRef (fst s)"
      using h(3) snoc by simp
    show "isRolling (fst (handleDiceStable now (fst n) (snd n) ?s)) = isRolling (fst s)"
      using h(4) snoc by simp
  next
    fix u assume u: "u \<in> set (pending (snd (handleDiceStable now (fst n) (snd n) ?s)))"
    with h(2) show "tid u < nextId (snd (handleDiceStable now (fst n) (snd n) ?s))" by blast
    from u h(2) have "u \<in> set (pending (snd ?s)) \<or> cb u = CompletionCb" by blast
    with snoc show "u \<in> set (pending (snd s)) \<or> cb u = CompletionCb" by blast
  qed
qed

lemma tidy_runLockCb:
  assumes st: "staticOK a" and tm: "timersOK T a" and td: "tidy a" and i: "i < 5"
    and refs: "timerRef (fst (f (dices a ! i))) = timerRef (dices a ! i)
             \<and> stabilityTimerRef (fst (f (dices a ! i))) = stabilityTimerRef (dices a ! i)
             \<and> gradualDampingRef (fst (f (dices a ! i))) = gradualDampingRef (dices a ! i)
             \<and> stabilityCheckRef (fst (f (dices a ! i))) = stabilityCheckRef (dices a ! i)
             \<and> startDelay (fst (f (dices a ! i))) = startDelay (dices a ! i)"
  shows "tidy (runLockCb f i a)"
proof -
  let ?d = "dices a ! i"
  let ?r = "f ?d"
  let ?s = "notify (clock a) (snd ?r) (cont a, timers a)"
  let ?a = "runLockCb f i a"
  have len: "length (dices a) = 5" using st by (simp add: staticOK_def)
  have fld: "dices ?a = (dices a)[i := fst ?r]" "timers ?a = snd ?s" "cont ?a = fst ?s"
    using len i by (simp_all add: runLockCb_def Let_def)
  note ph = tidy_nth[OF st td i]
  have a: "distinct (map tid (pending (snd (cont a, timers a))))"
    "\<forall>u\<in>set (pending (snd (cont a, timers a))). tid u < nextId (snd (cont a, timers a))"
    using td tm by (simp_all add: tidy_def timersOK_def)
  from notify_tidy[OF a, of "clock a" "snd ?r"]
  have n: "distinct (map tid (pending (snd ?s)))"
    "\<forall>u\<in>set (pending (snd ?s)). u \<in> set (pending (timers a)) \<or> cb u = CompletionCb"
    "resetTimerRef (fst ?s) = resetTimerRef (cont a)" "isRolling (fst ?s) = isRolling (cont a)"
    by auto
  have same: "\<forall>j<5. timerRef (dices ?a ! j) = timerRef (dices a ! j)
             \<and> stabilityTimerRef (dices ?a ! j) = stabilityTimerRef (dices a ! j)
             \<and> gradualDampingRef (dices ?a ! j) = gradualDampingRef (dices a ! j)
             \<and> stabilityCheckRef (dices ?a ! j) = stabilityCheckRef (dices a ! j)"
    using refs len i by (auto simp add: fld nth_list_update)
  show ?thesis
    unfolding tidy_def
  proof (intro conjI)
    show "\<forall>d\<in>set (dices ?a). startDelay d = 100 \<and> refPhase d"
    proof
      fix d assume "d \<in> set (dices ?a)"
      then have "d = fst ?r \<or> d \<in> set (dices a)"
        using set_update_cases[of d "dices a" i] by (simp add: fld)
      then show "startDelay d = 100 \<and> refPhase d"
      proof
        assume "d = fst ?r"
        then show ?thesis using refs ph by (simp add: refPhase_def)
      next
        assume "d \<in> set (dices a)"
        then show ?thesis using td by (simp add: tidy_def)
      qed
    qed
  next
    show "distinct (map tid (pending (timers ?a)))" using n(1) by (simp add: fld)
  next
    show "\<forall>u\<in>set (pending (timers ?a)). covered ?a u"
    proof
      fix u assume "u \<in> set (pending (timers ?a))"
      with n(2) have "u \<in> set (pending (timers a)) \<or> cb u = CompletionCb" by (simp add: fld)
      then show "covered ?a u"
      proof
        assume "u \<in> set (pending (timers a))"
        with td have "covered a u" by (simp add: tidy_def)
        moreover have "covered ?a u = covered a u"
          by (rule covered_cong[OF refl refl _ same]) (simp add: fld n(3))
        ultimately show ?thesis by simp
      next
        assume "cb u = CompletionCb"
        then show ?thesis by (simp add: covered_def)
      qed
    qed
  next
    show "\<not> isRolling (cont ?a) \<longrightarrow> resetTimerRef (cont ?a) = None"
      using td n(3,4) by (simp add: tidy_def fld)
  qed
qed

subsection \<open>Rendering\<close>

lemma distinct_tid_cleanupAll:
  "distinct (map tid (pending tt)) \<Longrightarrow> distinct (map tid (pending (cleanupAll ds tt)))"
proof (induction ds arbitrary: tt)
  case Nil
  then show ?case by simp
next
  case (Cons d ds)
  have "distinct (map tid (pending (snd (effectCleanup (d, tt)))))"
    using Cons.prems by (simp add: effectCleanup_def Let_def distinct_tid_clearRef)
  from Cons.IH[OF this] show ?case by simp
qed

lemma tidy_render:
  assumes st: "staticOK w" and td: "tidy w"
  shows "tidy (render w)"
proof -
  note r = render_fields[OF st]
  have same: "covered (render w) u = covered w u" for u
    by (rule covered_cong) (simp_all add: r)
  show ?thesis
    unfolding tidy_def
  proof (intro conjI)
    show "\<forall>d\<in>set (dices (render w)). startDelay d = 100 \<and> refPhase d"
      using td by (simp add: r tidy_def)
    show "distinct (map tid (pending (timers (render w))))"
      using td distinct_tid_cleanupAll[of "timers w" "dices w"]
      by (simp add: render_eq[OF st] tidy_def)
    show "\<forall>u\<in>set (pending (timers (render w))). covered (render w) u"
      using td by (simp add: same r(4) tidy_def)
    show "\<not> isRolling (cont (render w)) \<longrightarrow> resetTimerRef (cont (render w)) = None"
      using td by (simp add: r tidy_def)
  qed
qed

lemma rest_render:
  assumes st: "staticOK w" and tm: "timersOK T w" and td: "tidy w"
    and nr: "\<not> isRolling (cont w)" and late: "T + 4000 \<le> clock w"
  shows "pending (timers (render w)) = []"
proof -
  note r = render_fields[OF st]
  have "set (pending (timers (render w))) = {}"
  proof (rule ccontr)
    assume "set (pending (timers (render w))) \<noteq> {}"
    then obtain u where u: "u \<in> set (pending (timers w))"
      "\<forall>d\<in>set (dices w). tid u \<notin> refIds d"
      unfolding r(4) by blast
    from u(1) tm have t: "clock w \<le> due u" "timerOK T u" by (simp_all add: timersOK_def)
    from u(1) td have c: "covered w u" by (simp add: tidy_def)
    from td nr have n: "resetTimerRef (cont w) = None" by (simp add: tidy_def)
    have m: "\<forall>i<5. tid u \<notin> refIds (dices w ! i)"
      using u(2) static_nth(1)[OF st] by blast
    from t c n m late show False
      by (cases "cb u") (auto simp add: timerOK_def covered_def refIds_def)
  qed
  then show ?thesis by simp
qed

subsection \<open>One turn of the event loop keeps the page tidy\<close>

lemma fire_keeps_rolling:
  assumes "c \<noteq> RollingClearCb"
  shows "isRolling (cont (fire rnd c a)) = isRolling (cont a)"
proof -
  have hd: "isRolling (fst (handleDiceStable now i v s)) = isRolling (fst s)" for now i v s
    by (simp add: handleDiceStable_def Let_def)
  have nf: "isRolling (fst (notify now ns s)) = isRolling (fst s)" for now ns s
  proof (induction ns arbitrary: s)
    case Nil
    then show ?case by (simp add: notify_def)
  next
    case (Cons n ns)
    have "notify now (n # ns) s = notify now ns (handleDiceStable now (fst n) (snd n) s)"
      by (simp add: notify_def)
    with Cons[of "handleDiceStable now (fst n) (snd n) s"] hd show ?case by simp
  qed
  have lk: "isRolling (cont (runLockCb f i w')) = isRolling (cont w')" for f i w'
    using nf by (simp add: runLockCb_def Let_def)
  from assms show ?thesis
    by (cases c) (simp_all add: completionCb_def runDiceCb_state lk)
qed

lemma fired_tidy:
  assumes inv: "rollInv T w" and nr: "\<not> needsRender (cont w)" and td: "tidy w"
    and nt: "nextTimer (timers w) = Some t"
  shows "tidy (fire rnd (cb t) (advance t f w))"
proof -
  let ?a = "advance t f w"
  from inv have st0: "staticOK w" and tm0: "timersOK T w" by (simp_all add: rollInv_def)
  note m = nextTimer_Some[OF nt]
  have tok: "timerOK T t" using tm0 m(1) by (simp add: timersOK_def)
  have st: "staticOK ?a" by (rule advance_static[OF st0])
  have tm: "timersOK T ?a" by (rule advance_timers[OF tm0 nt])
  note ta = tidy_advance[OF st0 td nt, of f]
  have len: "length (dices ?a) = 5" using st by (simp add: staticOK_def)
  show ?thesis
  proof (cases "cb t")
    case RollingClearCb
    from tok have "period t = None" by (simp add: timerOK_def RollingClearCb)
    with ta(3) have gone: "\<forall>u\<in>set (pending (timers ?a)). tid u \<noteq> tid t" by simp
    from ta(2) have r: "resetTimerRef (cont ?a) = Some (tid t)"
      by (simp add: covered_def RollingClearCb)
    have "tidy (?a\<lparr>cont := rollingClearCb (cont ?a)\<rparr>)"
      unfolding tidy_def
    proof (intro conjI)
      show "\<forall>u\<in>set (pending (timers (?a\<lparr>cont := rollingClearCb (cont ?a)\<rparr>))).
              covered (?a\<lparr>cont := rollingClearCb (cont ?a)\<rparr>) u"
      proof
        fix u assume "u \<in> set (pending (timers (?a\<lparr>cont := rollingClearCb (cont ?a)\<rparr>)))"
        then have u: "u \<in> set (pending (timers ?a))" by simp
        with ta(1) gone have "covered ?a u" "tid u \<noteq> tid t" by (simp_all add: tidy_def)
        with r show "covered (?a\<lparr>cont := rollingClearCb (cont ?a)\<rparr>) u"
          by (cases "cb u") (simp_all add: covered_def)
      qed
    qed (use ta(1) in \<open>simp_all add: tidy_def rollingClearCb_def\<close>)
    then show ?thesis by (simp add: RollingClearCb)
  next
    case CompletionCb
    have same: "covered (?a\<lparr>cont := completionCb (cont ?a)\<rparr>) u = covered ?a u" for u
      by (rule covered_cong) (simp_all add: completionCb_def)
    have "tidy (?a\<lparr>cont := completionCb (cont ?a)\<rparr>)"
      using ta(1) unfolding tidy_def same by (simp add: completionCb_def)
    then show ?thesis by (simp add: CompletionCb)
  next
    case (StartCb i)
    from tok have "period t = None" by (simp add: timerOK_def StartCb)
    with ta(3) have gone: "\<forall>u\<in>set (pending (timers ?a)). tid u \<noteq> tid t" by simp
    from ta(2) have i: "i < 5" by (simp add: covered_def StartCb)
    from tidy_StartCb[OF st tm ta(1) i ta(2) StartCb gone]
    show ?thesis by (simp add: StartCb)
  next
    case (StabilityCb i)
    from tok have "period t = None" by (simp add: timerOK_def StabilityCb)
    with ta(3) have gone: "\<forall>u\<in>set (pending (timers ?a)). tid u \<noteq> tid t" by simp
    from ta(2) have i: "i < 5" by (simp add: covered_def StabilityCb)
    from tidy_StabilityCb[OF st tm ta(1) i ta(2) StabilityCb gone]
    show ?thesis by (simp add: StabilityCb)
  next
    case (DampingCb i)
    from ta(2) have i: "i < 5" by (simp add: covered_def DampingCb)
    from tidy_DampingCb[OF st ta(1) i] show ?thesis by (simp add: DampingCb)
  next
    case (CheckCb i)
    from ta(2) have i: "i < 5" by (simp add: covered_def CheckCb)
    from tidy_runLockCb[OF st tm ta(1) i, where f = "checkStability (clock ?a)"]
      checkStability_refs[of "clock ?a" "dices ?a ! i"]
    show ?thesis by (simp add: CheckCb)
  next
    case (ForceLockCb i)
    show ?thesis
    proof (cases "i < 5")
      case True
      from tidy_runLockCb[OF st tm ta(1) True, where f = forceLockCb]
        forceLockCb_refs[of "dices ?a ! i"]
      show ?thesis by (simp add: ForceLockCb)
    next
      case False
      then show ?thesis using ta(1) len by (simp add: ForceLockCb runLockCb_out_of_range)
    qed
  qed
qed

lemma step_tidy:
  assumes inv: "rollInv T w" and nr: "\<not> needsRender (cont w)" and td: "tidy w"
    and re: "restOK w"
  shows "tidy (step w e)" and "restOK (step w e)"
proof -
  show "tidy (step w e)"
  proof (cases "nextTimer (timers w)")
    case None
    then show ?thesis using td by (simp add: step_def)
  next
    case (Some t)
    let ?w = "fire (draws e) (cb t) (advance t (physics e) w)"
    from fire_pieces[OF inv nr Some, of "draws e" "physics e"] have st: "staticOK ?w" by blast
    note ft = fired_tidy[OF inv nr td Some, of "draws e" "physics e"]
    have "tidy (afterHandler ?w)"
      using ft tidy_render[OF st ft] by (simp add: afterHandler_def)
    then show ?thesis by (simp add: step_def Some)
  qed
  show "restOK (step w e)"
  proof (cases "nextTimer (timers w)")
    case None
    then show ?thesis using re by (simp add: step_def)
  next
    case (Some t)
    let ?a = "advance t (physics e) w"
    let ?w = "fire (draws e) (cb t) ?a"
    from fire_pieces[OF inv nr Some, of "draws e" "physics e"]
    have st: "staticOK ?w" and tm: "timersOK T ?w" and ro: "rollOK T ?w" by blast+
    note ft = fired_tidy[OF inv nr td Some, of "draws e" "physics e"]
    have "pending (timers w) \<noteq> []" using Some nextTimer_None[of "timers w"] by auto
    with re have r0: "isRolling (cont w)" by (auto simp add: restOK_def)
    have "pending (timers (afterHandler ?w)) = []" if n: "\<not> isRolling (cont (afterHandler ?w))"
    proof -
      from n fired_inv(3)[OF inv nr Some, of "draws e" "physics e"]
      have n1: "\<not> isRolling (cont ?w)" by simp
      have c: "cb t = RollingClearCb"
      proof (rule ccontr)
        assume "cb t \<noteq> RollingClearCb"
        from fire_keeps_rolling[OF this, of "draws e" ?a] r0 n1 show False
          by (simp add: advance_cont)
      qed
      then have nr1: "needsRender (cont ?w)" by (simp add: rollingClearCb_def)
      from ro n1 have "T + 4000 \<le> clock ?w" by (simp add: rollOK_def)
      from rest_render[OF st tm ft n1 this] nr1 show ?thesis by (simp add: afterHandler_def)
    qed
    then show ?thesis by (simp add: step_def Some restOK_def)
  qed
qed

lemma run_tidy:
  assumes "rollInv T w" "\<not> needsRender (cont w)" "tidy w" "restOK w"
  shows "tidy (run w es) \<and> restOK (run w es)"
  using assms
proof (induction es arbitrary: w)
  case Nil
  then show ?case by (simp add: run_def)
next
  case (Cons e es)
  from step_inv[OF Cons.prems(1,2), of e] step_tidy[OF Cons.prems, of e]
    Cons.IH[of "step w e"]
  show ?case by (simp add: run_def)
qed

lemma rest_quiescent:
  assumes inv: "rollInv T v" and nr: "\<not> needsRender (cont v)" and td: "tidy v"
    and re: "restOK v" and r: "\<not> isRolling (cont v)"
  shows "quiescent v"
proof -
  from inv have st: "staticOK v" and ids: "idsOK v" by (simp_all add: rollInv_def)
  have len: "length (dices v) = 5" using st by (simp add: staticOK_def)
  have ix: "map index (dices v) = [0, 1, 2, 3, 4]"
  proof (rule nth_equalityI)
    show "length (map index (dices v)) = length [0, 1, 2, 3, 4::nat]" using len by simp
    fix i assume "i < length (map index (dices v))"
    then have i: "i < 5" using len by simp
    then have "index (dices v ! i) = i" using st by (simp add: staticOK_def)
    moreover have "[0, 1, 2, 3, 4::nat] ! i = i"
      using i by (auto simp add: less_Suc_eq numeral_eq_Suc)
    ultimately show "map index (dices v) ! i = [0, 1, 2, 3, 4] ! i" using len i by simp
  qed
  have "\<forall>d\<in>set (dices v).
         diceRef d \<noteq> None \<and> hasOnStable d \<and> startDelay d = 100
       \<and> lastResetCount d \<le> resetCount (cont v)
       \<and> (\<forall>i\<in>refIds d. i < nextId (timers v))"
    using st td ids by (simp add: staticOK_def tidy_def idsOK_def)
  with ix re r nr show ?thesis by (simp add: quiescent_def restOK_def)
qed

subsection \<open>The click leaves the page tidy\<close>

lemma resetEffect_refs:
  assumes "0 < rc" "rc \<noteq> lastResetCount d"
  shows "timerRef (fst (resetEffect rc now (d, tt))) = Some (nextId tt)"
    and "stabilityTimerRef (fst (resetEffect rc now (d, tt))) = None"
    and "gradualDampingRef (fst (resetEffect rc now (d, tt))) = None"
    and "stabilityCheckRef (fst (resetEffect rc now (d, tt))) = None"
    and "startDelay (fst (resetEffect rc now (d, tt))) = startDelay d"
  using assms by (simp_all add: resetEffect_def Let_def setTimeout_simps clearRef_simps)

lemma effectAll_respawn_refs:
  assumes "0 < rc"
    and "\<forall>d\<in>set ds. rc \<noteq> lastResetCount d \<and> (\<forall>k\<in>refIds d. k < n)"
    and "\<forall>u\<in>set (pending tt). n \<le> tid u \<and> tid u < nextId tt" and "n \<le> nextId tt"
    and "distinct (map tid (pending tt))"
  shows "distinct (map tid (pending (snd (effectAll rc now ds tt))))
       \<and> (\<forall>i<length ds.
             timerRef (fst (effectAll rc now ds tt) ! i) = Some (nextId tt + i)
           \<and> stabilityTimerRef (fst (effectAll rc now ds tt) ! i) = None
           \<and> gradualDampingRef (fst (effectAll rc now ds tt) ! i) = None
           \<and> stabilityCheckRef (fst (effectAll rc now ds tt) ! i) = None
           \<and> startDelay (fst (effectAll rc now ds tt) ! i) = startDelay (ds ! i))"
  using assms(2-5)
proof (induction ds arbitrary: tt)
  case Nil
  then show ?case by simp
next
  case (Cons d ds)
  let ?r = "resetEffect rc now (d, tt)"
  have d: "rc \<noteq> lastResetCount d" "\<forall>k\<in>refIds d. k < n"
    using Cons.prems(1) by simp_all
  have nohit: "\<forall>k\<in>refIds d. \<forall>u\<in>set (pending tt). tid u \<noteq> k"
    using d(2) Cons.prems(2) by fastforce
  note re = resetEffect_respawn(1)[OF assms(1) d(1) nohit, of now]
  note rf = resetEffect_refs[OF assms(1) d(1), of now tt]
  have p1: "\<forall>d\<in>set ds. rc \<noteq> lastResetCount d \<and> (\<forall>k\<in>refIds d. k < n)"
    using Cons.prems(1) by simp
  have p2: "\<forall>u\<in>set (pending (snd ?r)). n \<le> tid u \<and> tid u < nextId (snd ?r)"
    using Cons.prems(2,3) by (auto simp add: re)
  have p3: "n \<le> nextId (snd ?r)" using Cons.prems(3) by (simp add: re)
  have p4: "distinct (map tid (pending (snd ?r)))"
    using Cons.prems(2,4) by (auto simp add: re)
  note ih = Cons.IH[OF p1 p2 p3 p4]
  have nx: "nextId (snd ?r) = nextId tt + 1" by (simp add: re)
  have e: "effectAll rc now (d # ds) tt
            = (fst ?r # fst (effectAll rc now ds (snd ?r)), snd (effectAll rc now ds (snd ?r)))"
    by (simp add: Let_def)
  show ?case
  proof (intro conjI allI impI)
    show "distinct (map tid (pending (snd (effectAll rc now (d # ds) tt))))"
      using ih by (simp add: e del: effectAll.simps)
  next
    fix i assume i: "i < length (d # ds)"
    show "timerRef (fst (effectAll rc now (d # ds) tt) ! i) = Some (nextId tt + i)"
      "stabilityTimerRef (fst (effectAll rc now (d # ds) tt) ! i) = None"
      "gradualDampingRef (fst (effectAll rc now (d # ds) tt) ! i) = None"
      "stabilityCheckRef (fst (effectAll rc now (d # ds) tt) ! i) = None"
      "startDelay (fst (effectAll rc now (d # ds) tt) ! i) = startDelay ((d # ds) ! i)"
      using i ih rf by (cases i; simp add: e nx del: effectAll.simps)+
  qed
qed

lemma click_tidy:
  assumes q: "quiescent w"
  shows "tidy (click w)" and "restOK (click w)"
proof -
  let ?T = "clock w"
  let ?n = "nextId (timers w)"
  let ?rc = "resetCount (cont w) + 1"
  let ?s = "handleReset ?T (cont w, timers w)"
  let ?w1 = "w\<lparr>cont := fst ?s, timers := snd ?s\<rparr>"
  let ?RC = "\<lparr>tid = ?n, due = ?T + 4000, period = None, cb = RollingClearCb\<rparr>"
  note ci = click_inv[OF q]
  show "restOK (click w)" using ci(3) by (simp add: restOK_def)
  from q have nr: "\<not> isRolling (cont w)" and pe: "pending (timers w) = []"
    and dq: "\<forall>d\<in>set (dices w). diceRef d \<noteq> None \<and> hasOnStable d \<and> startDelay d = 100
       \<and> lastResetCount d \<le> resetCount (cont w) \<and> (\<forall>i\<in>refIds d. i < ?n)"
    by (simp_all add: quiescent_def)
  note qn = quiescent_nth[OF q]
  have cr: "pending (clearRef (resetTimerRef (cont w)) (timers w)) = []"
    using pe by (simp add: clearRef_pending)
  have s2: "pending (snd ?s) = [?RC]" "nextId (snd ?s) = ?n + 1"
    using nr by (simp_all add: handleReset_def Let_def setTimeout_simps cr clearRef_simps(1))
  have s1: "isRolling (fst ?s)" "needsRender (fst ?s)" "resetCount (fst ?s) = ?rc"
    "resetTimerRef (fst ?s) = Some ?n"
    using nr by (simp_all add: handleReset_def Let_def setTimeout_simps clearRef_simps(1))
  let ?tt1 = "cleanupAll (dices w) (snd ?s)"
  let ?r = "effectAll ?rc ?T (dices w) ?tt1"
  have c: "click w = ?w1\<lparr>cont := (fst ?s)\<lparr>needsRender := False\<rparr>, dices := fst ?r, timers := snd ?r\<rparr>"
    using s1 by (simp add: click_def Let_def afterHandler_def render_def)
  have fld: "cont (click w) = (fst ?s)\<lparr>needsRender := False\<rparr>" "dices (click w) = fst ?r"
    "timers (click w) = snd ?r" "clock (click w) = ?T"
    by (simp_all add: c)
  have t1: "nextId ?tt1 = ?n + 1" "set (pending ?tt1) = {?RC}"
  proof -
    show "nextId ?tt1 = ?n + 1" by (simp add: cleanupAll_simps s2)
    have "\<forall>d\<in>set (dices w). ?n \<notin> refIds d" using dq by fastforce
    then show "set (pending ?tt1) = {?RC}"
      by (auto simp add: cleanupAll_simps s2)
  qed
  have t2: "distinct (map tid (pending ?tt1))"
    by (rule distinct_tid_cleanupAll) (simp add: s2)
  have a1: "0 < ?rc" by simp
  have a2: "\<forall>d\<in>set (dices w). ?rc \<noteq> lastResetCount d \<and> startDelay d = 100
              \<and> (\<forall>k\<in>refIds d. k < ?n)"
    using dq by fastforce
  then have b2: "\<forall>d\<in>set (dices w). ?rc \<noteq> lastResetCount d \<and> (\<forall>k\<in>refIds d. k < ?n)"
    by blast
  have a3: "\<forall>u\<in>set (pending ?tt1). ?n \<le> tid u" by (simp add: t1)
  have b3: "\<forall>u\<in>set (pending ?tt1). ?n \<le> tid u \<and> tid u < nextId ?tt1" by (simp add: t1)
  have a4: "?n \<le> nextId ?tt1" by (simp add: t1)
  note ea = effectAll_respawn[OF a1 a2 a3 a4, of ?T]
  note eb = effectAll_respawn_refs[OF a1 b2 b3 a4 t2, of ?T]
  have len: "length (fst ?r) = 5" using ea qn(1) by simp
  have pd: "set (pending (snd ?r))
      = {?RC} \<union> {\<lparr>tid = ?n + 1 + i, due = ?T + 100, period = None, cb = StartCb i\<rparr> | i. i < 5}"
  proof -
    have "{\<lparr>tid = nextId ?tt1 + i, due = ?T + 100, period = None, cb = StartCb (index (dices w ! i))\<rparr>
                | i. i < length (dices w)}
        = {\<lparr>tid = ?n + 1 + i, due = ?T + 100, period = None, cb = StartCb i\<rparr> | i. i < 5}"
      using qn by (auto simp add: t1)
    with ea show ?thesis by (simp add: t1)
  qed
  have di: "\<forall>i<5. timerRef (fst ?r ! i) = Some (?n + 1 + i)
      \<and> stabilityTimerRef (fst ?r ! i) = None \<and> gradualDampingRef (fst ?r ! i) = None
      \<and> stabilityCheckRef (fst ?r ! i) = None \<and> startDelay (fst ?r ! i) = 100"
  proof (intro allI impI)
    fix i :: nat assume i: "i < 5"
    have m: "dices w ! i \<in> set (dices w)" using i qn(1) by simp
    with dq have "startDelay (dices w ! i) = 100" by blast
    with eb i qn show "timerRef (fst ?r ! i) = Some (?n + 1 + i)
      \<and> stabilityTimerRef (fst ?r ! i) = None \<and> gradualDampingRef (fst ?r ! i) = None
      \<and> stabilityCheckRef (fst ?r ! i) = None \<and> startDelay (fst ?r ! i) = 100"
      by (simp add: t1)
  qed
  have dset: "\<forall>d\<in>set (fst ?r). \<exists>i<5. d = fst ?r ! i"
    using len by (auto simp add: in_set_conv_nth)
  show "tidy (click w)"
    unfolding tidy_def fld
  proof (intro conjI)
    show "\<forall>d\<in>set (fst ?r). startDelay d = 100 \<and> refPhase d"
    proof
      fix d assume "d \<in> set (fst ?r)"
      with dset obtain i where i: "i < 5" "d = fst ?r ! i" by blast
      from di i(1) show "startDelay d = 100 \<and> refPhase d"
        unfolding i(2) by (simp add: refPhase_def)
    qed
    show "distinct (map tid (pending (snd ?r)))" using eb by blast
    show "\<forall>u\<in>set (pending (snd ?r)). covered (click w) u"
    proof
      fix u assume "u \<in> set (pending (snd ?r))"
      then consider "u = ?RC"
        | i where "i < 5" "u = \<lparr>tid = ?n + 1 + i, due = ?T + 100, period = None, cb = StartCb i\<rparr>"
        unfolding pd by blast
      then show "covered (click w) u"
      proof cases
        case 1
        then show ?thesis using s1(4) by (simp add: covered_def fld)
      next
        case 2
        with di show ?thesis by (simp add: covered_def fld)
      qed
    qed
    show "\<not> isRolling ((fst ?s)\<lparr>needsRender := False\<rparr>)
            \<longrightarrow> resetTimerRef ((fst ?s)\<lparr>needsRender := False\<rparr>) = None"
      using s1 by simp
  qed
qed

section \<open>Sessions\<close>

subsection \<open>Every session is a sequence of rolls\<close>

lemma click_while_rolling:
  assumes "isRolling (cont w)" "\<not> needsRender (cont w)"
  shows "click w = w"
  using assms by (simp add: click_def handleReset_def Let_def afterHandler_def)

lemma step_at_rest:
  assumes "pending (timers w) = []"
  shows "step w e = w"
  using assms by (simp add: step_def nextTimer_def)

lemma quiescent_idle: "quiescent w \<Longrightarrow> quiescent (idle n w)"
  by (simp add: quiescent_def idle_def split: option.split)

lemma idle_inv:
  assumes inv: "rollInv T w" and td: "tidy w" and re: "restOK w"
  shows "rollInv T (idle n w)" and "tidy (idle n w)" and "restOK (idle n w)"
proof -
  obtain c where c: "idle n w = w\<lparr>clock := c\<rparr>"
    and b: "\<forall>u\<in>set (pending (timers w)). c \<le> due u"
    and g: "clock w \<le> c"
  proof (cases "nextTimer (timers w)")
    case None
    then have "pending (timers w) = []" by (simp add: nextTimer_None)
    with None that[of "clock w + n"] show ?thesis by (simp add: idle_def)
  next
    case (Some t)
    note m = nextTimer_Some[OF Some]
    from inv m(1) have "clock w \<le> due t" by (simp add: rollInv_def timersOK_def)
    with m(2) have "\<forall>u\<in>set (pending (timers w)). max (clock w) (min (clock w + n) (due t)) \<le> due u"
      by auto
    with Some that[of "max (clock w) (min (clock w + n) (due t))"] show ?thesis
      by (simp add: idle_def)
  qed
  have cov: "covered (w\<lparr>clock := c\<rparr>) u = covered w u" for u
    by (rule covered_cong) simp_all
  from inv b g show "rollInv T (idle n w)"
    unfolding c rollInv_def staticOK_def timersOK_def idsOK_def liveOK_def liveAt_def
      rollOK_def valuesOK_def
    by auto
  from td show "tidy (idle n w)" unfolding c tidy_def cov by simp
  from re show "restOK (idle n w)" unfolding c restOK_def by simp
qed

lemma play_snoc: "play w (evs @ [ev]) = handle (play w evs) ev"
  by (simp add: play_def)

lemma play_inv:
  "\<not> needsRender (cont (play initialWorld evs))
 \<and> (if isRolling (cont (play initialWorld evs))
    then \<exists>T. rollInv T (play initialWorld evs) \<and> tidy (play initialWorld evs)
             \<and> restOK (play initialWorld evs)
    else quiescent (play initialWorld evs))"
proof (induction evs rule: rev_induct)
  case Nil
  have "\<not> isRolling (cont initialWorld)" "\<not> needsRender (cont initialWorld)"
    by (simp_all add: initialWorld_def initialContainer_def)
  with quiescent_initial show ?case by (simp add: play_def)
next
  case (snoc ev evs)
  let ?w = "play initialWorld evs"
  let ?v = "handle ?w ev"
  from snoc have nr: "\<not> needsRender (cont ?w)" by blast
  have goal: "\<not> needsRender (cont ?v)
     \<and> (if isRolling (cont ?v) then \<exists>T. rollInv T ?v \<and> tidy ?v \<and> restOK ?v else quiescent ?v)"
  proof (cases "isRolling (cont ?w)")
    case True
    with snoc obtain T where T: "rollInv T ?w" "tidy ?w" "restOK ?w" by auto
    have fin: ?thesis if "rollInv T ?v" "tidy ?v" "restOK ?v" "\<not> needsRender (cont ?v)"
      using that rest_quiescent[OF that(1,4,2,3)] by auto
    show ?thesis
    proof (cases ev)
      case Click
      with click_while_rolling[OF True nr] have "?v = ?w" by (simp add: handle_def)
      with T nr show ?thesis using fin by simp
    next
      case (Turn e)
      then have v: "?v = step ?w e" by (simp add: handle_def)
      from step_inv[OF T(1) nr, of e] step_tidy[OF T(1) nr T(2,3), of e]
      show ?thesis unfolding v using fin[unfolded v] by blast
    next
      case (Idle n)
      then have v: "?v = idle n ?w" by (simp add: handle_def)
      have "\<not> needsRender (cont (idle n ?w))" using nr by (simp add: idle_def split: option.split)
      with idle_inv[OF T, of n] show ?thesis unfolding v using fin[unfolded v] by blast
    qed
  next
    case False
    with snoc have q: "quiescent ?w" by auto
    show ?thesis
    proof (cases ev)
      case Click
      then have v: "?v = click ?w" by (simp add: handle_def)
      from click_inv[OF q] click_tidy[OF q] show ?thesis unfolding v by auto
    next
      case (Turn e)
      from q have "pending (timers ?w) = []" by (simp add: quiescent_def)
      from step_at_rest[OF this] Turn have "?v = ?w" by (simp add: handle_def)
      with q nr False show ?thesis by simp
    next
      case (Idle n)
      then have v: "?v = idle n ?w" by (simp add: handle_def)
      have "\<not> needsRender (cont (idle n ?w))" "\<not> isRolling (cont (idle n ?w))"
        using nr False by (simp_all add: idle_def split: option.split)
      with quiescent_idle[OF q, of n] show ?thesis unfolding v by simp
    qed
  qed
  then show ?case unfolding play_snoc by blast
qed

lemma play_at_rest:
  assumes "\<not> isRolling (cont (play initialWorld evs))"
  shows "quiescent (play initialWorld evs)"
  using play_inv[of evs] assms by simp

lemma play_turns: "play w (map Turn es) = run w es"
  by (simp add: play_def run_def foldl_map handle_def)

lemma roll_ends_at_rest:
  assumes q: "quiescent w" and r: "\<not> isRolling (cont (run (click w) es))"
  shows "quiescent (run (click w) es)"
proof -
  note ci = click_inv[OF q] and ct = click_tidy[OF q]
  from run_inv[OF ci(1,2), of es] run_tidy[OF ci(1,2) ct, of es]
  show ?thesis using rest_quiescent[of "clock w" "run (click w) es"] r by blast
qed

section \<open>Every accepted roll\<close>

lemma roll_from_rest:
  assumes "quiescent w"
  shows "isRolling (cont (click w))
       \<and> (isRolling (cont (run (click w) es)) \<longrightarrow> clock (run (click w) es) \<le> clock w + 4000)
       \<and> (\<not> isRolling (cont (run (click w) es)) \<longrightarrow> clock w + 4000 \<le> clock (run (click w) es))
       \<and> (clock w + 100 + 3000 < clock (run (click w) es) \<longrightarrow>
             list_all isLocked (dices (run (click w) es)))
       \<and> (\<not> isRolling (cont (run (click w) es)) \<longrightarrow>
             list_all isLocked (dices (run (click w) es))
           \<and> map (valAt (diceValues (cont (run (click w) es)))) [0..<5]
               = map (\<lambda>d. Some (finalValue d)) (dices (run (click w) es))
           \<and> list_all (\<lambda>d. finalValue d \<in> {1..6}) (dices (run (click w) es)))
       \<and> (257 \<le> length es \<longrightarrow> \<not> isRolling (cont (run (click w) es)))"
proof -
  let ?v = "run (click w) es"
  note ci = click_inv[OF assms]
  from run_inv[OF ci(1,2), of es] have inv: "rollInv (clock w) ?v" by simp
  note rc = inv_rolling_clock[OF inv]
  have late: "clock w + 3100 < clock ?v" if "\<not> isRolling (cont ?v)"
    using rc(2) that by simp
  have a: "list_all isLocked (dices ?v)" if "clock w + 100 + 3000 < clock ?v"
    using inv_all_locked(1)[OF inv] that by simp
  have b: "list_all isLocked (dices ?v)
           \<and> map (valAt (diceValues (cont ?v))) [0..<5] = map (\<lambda>d. Some (finalValue d)) (dices ?v)
           \<and> list_all (\<lambda>d. finalValue d \<in> {1..6}) (dices ?v)" if "\<not> isRolling (cont ?v)"
    using inv_all_locked[OF inv late[OF that]] by simp
  have c: "\<not> isRolling (cont ?v)" if "257 \<le> length es"
    by (rule rolling_bounded[OF assms that])
  from ci(3) rc a b c show ?thesis by blast
qed

lemma play_roll: "play w (Click # map Turn es) = run (click w) es"
  using play_turns[of "click w" es] by (simp add: play_def handle_def)

text \<open>
  Claim C8. Take the page after any sequence of clicks, turns of the event loop and
  idle time since it was mounted, at a moment when it is not rolling, so that a click
  is accepted. The click sets the rolling flag. The container clears the flag 4000 ms
  after the click and not before; every die is locked, at the latest by its forced
  timeout, 100 + 3000 ms after the click, which is earlier (the call of
  \<^verbatim>\<open>onStable\<close> is immediate). So after however many handlers have run, in whatever
  way the engine has moved the bodies: as long as the flag is set the time is at most
  4000 ms after the click; once more than 3100 ms have passed every die is locked; and
  when the flag is clear, at least 4000 ms have passed, every die is locked, its value
  lies in 1..6 and the container holds it at the index of the die. The flag does clear:
  after at most 257 handlers.
\<close>

theorem rolling_flag_outlasts_forced_lock:
  assumes "w = play initialWorld evs" and "\<not> isRolling (cont w)"
  shows "isRolling (cont (click w))
       \<and> (isRolling (cont (run (click w) es)) \<longrightarrow> clock (run (click w) es) \<le> clock w + 4000)
       \<and> (\<not> isRolling (cont (run (click w) es)) \<longrightarrow> clock w + 4000 \<le> clock (run (click w) es))
       \<and> (clock w + 100 + 3000 < clock (run (click w) es) \<longrightarrow>
             list_all isLocked (dices (run (click w) es)))
       \<and> (\<not> isRolling (cont (run (click w) es)) \<longrightarrow>
             list_all isLocked (dices (run (click w) es))
           \<and> map (valAt (diceValues (cont (run (click w) es)))) [0..<5]
               = map (\<lambda>d. Some (finalValue d)) (dices (run (click w) es))
           \<and> list_all (\<lambda>d. finalValue d \<in> {1..6}) (dices (run (click w) es)))
       \<and> (257 \<le> length es \<longrightarrow> \<not> isRolling (cont (run (click w) es)))"
proof -
  from assms play_at_rest[of evs] have "quiescent w" by simp
  then show ?thesis by (rule roll_from_rest)
qed

theorem rolling_flag_outlasts_forced_lock_witness:
  "\<not> isRolling (cont (play initialWorld []))
   \<and> \<not> isRolling (cont (play initialWorld (Click # map Turn (replicate 257 stillEnv))))
   \<and> isRolling (cont (click (play initialWorld (Click # map Turn (replicate 257 stillEnv)))))
   \<and> \<not> isRolling (cont (run (click (play initialWorld (Click # map Turn (replicate 257 stillEnv))))
                             (replicate 257 stillEnv)))
   \<and> clock (play initialWorld (Click # map Turn (replicate 257 stillEnv))) + 4000
       \<le> clock (run (click (play initialWorld (Click # map Turn (replicate 257 stillEnv))))
                    (replicate 257 stillEnv))
   \<and> list_all isLocked
       (dices (run (click (play initialWorld (Click # map Turn (replicate 257 stillEnv))))
                   (replicate 257 stillEnv)))"
proof -
  let ?es = "replicate 257 stillEnv"
  let ?w = "play initialWorld (Click # map Turn ?es)"
  have l: "257 \<le> length ?es" by simp
  have p: "play initialWorld [] = initialWorld" by (simp add: play_def)
  have n0: "\<not> isRolling (cont (play initialWorld []))"
    unfolding p by (simp add: initialWorld_def initialContainer_def)
  note t0 = rolling_flag_outlasts_forced_lock[OF refl n0, of ?es]
  from t0 l have "\<not> isRolling (cont (run (click (play initialWorld [])) ?es))" by blast
  then have n1: "\<not> isRolling (cont ?w)" unfolding play_roll p .
  note t1 = rolling_flag_outlasts_forced_lock[OF refl n1, of ?es]
  from t1 l have n2: "\<not> isRolling (cont (run (click ?w) ?es))" by blast
  with t1 have "clock ?w + 4000 \<le> clock (run (click ?w) ?es)"
    and "list_all isLocked (dices (run (click ?w) ?es))"
    and "isRolling (cont (click ?w))"
    by blast+
  with n0 n1 n2 show ?thesis by blast
qed

end
